(* ===== verification/Prelude.thy ===== *)
theory Prelude
  imports Main "HOL-Library.AList"
begin

section \<open>Shared vocabulary of the development\<close>

text \<open>
  What every component uses: the fallible-result type (\<open>Inl\<close> carries the failure, \<open>Inr\<close>
  the value), its sequencing and its loops over lists, the reading of a \<open>std::map\<close> as an
  association list with the insertion that \<open>operator[]\<close> performs, and generic lemmas on
  lists and association lists.
\<close>

named_theorems bits_simps \<open>the laws of the bit vector interface, as rewrite rules\<close>
named_theorems res_simps \<open>rules that run the fallible-result combinators\<close>

subsection \<open>Failures and fallible results\<close>

text \<open>
  The ways the passes stop before they return: \<open>exit(EXIT_FAILURE)\<close> on an unknown meet
  operator, \<open>assert(0)\<close>, a failed assertion of the LLVM containers on an index out of range, a
  dereference of a null pointer, and the reads the sources leave undefined.
\<close>

datatype failure =
    ExitFailure
  | AssertionFailed
  | OutOfRange
  | NullDereference
  | Undefined

type_synonym 'a result = "failure + 'a"

definition bind_res :: "'a result \<Rightarrow> ('a \<Rightarrow> 'b result) \<Rightarrow> 'b result" where
  "bind_res r f = (case r of Inl e \<Rightarrow> Inl e | Inr x \<Rightarrow> f x)"

lemma bind_res_simps [simp, res_simps]:
  "bind_res (Inl e) f = Inl e"
  "bind_res (Inr x) f = f x"
  by (simp_all add: bind_res_def)

lemma bind_res_Inr_right [simp]: "bind_res r Inr = r"
  by (cases r) simp_all

lemma bind_res_Inr_iff:
  "bind_res r f = Inr y \<longleftrightarrow> (\<exists>x. r = Inr x \<and> f x = Inr y)"
  by (cases r) auto

lemma bind_res_cong [fundef_cong]:
  "\<lbrakk>r = r'; \<And>x. r' = Inr x \<Longrightarrow> f x = f' x\<rbrakk> \<Longrightarrow> bind_res r f = bind_res r' f'"
  by (cases r') auto

text \<open>A loop over a vector whose body may fail: the first failure ends it.\<close>

fun fold_res :: "('a \<Rightarrow> 's \<Rightarrow> 's result) \<Rightarrow> 'a list \<Rightarrow> 's \<Rightarrow> 's result" where
  "fold_res f [] s = Inr s"
| "fold_res f (x # xs) s = bind_res (f x s) (fold_res f xs)"

lemma fold_res_Nil [simp]: "fold_res f [] = Inr"
  by (simp add: fun_eq_iff)

lemma fold_res_append:
  "fold_res f (xs @ ys) s = bind_res (fold_res f xs s) (fold_res f ys)"
  by (induction xs arbitrary: s) (auto simp: bind_res_def split: sum.splits)

text \<open>The invariant rule of such a loop.\<close>

lemma fold_res_inv:
  assumes "fold_res f xs s = Inr s'"
    and "P s"
    and "\<And>x t t'. x \<in> set xs \<Longrightarrow> P t \<Longrightarrow> f x t = Inr t' \<Longrightarrow> P t'"
  shows "P s'"
  using assms
proof (induction xs arbitrary: s)
  case Nil
  then show ?case by simp
next
  case (Cons x xs)
  then show ?case by (auto simp: bind_res_Inr_iff)
qed

text \<open>A loop whose body never fails under the invariant returns, and the invariant holds.\<close>

lemma fold_res_total:
  assumes "P s"
    and "\<And>x t. x \<in> set xs \<Longrightarrow> P t \<Longrightarrow> \<exists>t'. f x t = Inr t' \<and> P t'"
  shows "\<exists>s'. fold_res f xs s = Inr s' \<and> P s'"
  using assms
proof (induction xs arbitrary: s)
  case Nil
  then show ?case by simp
next
  case (Cons x xs)
  obtain t where t: "f x s = Inr t" "P t"
    using Cons.prems by (meson list.set_intros(1))
  show ?case
    using Cons.IH [OF t(2)] Cons.prems(2) t(1) by auto
qed

text \<open>A loop with an element on which the body always fails does not return.\<close>

lemma fold_res_fails:
  assumes "x \<in> set xs" and "\<And>s. f x s = Inl e" and "\<And>y s e'. y \<in> set xs \<Longrightarrow> f y s = Inl e' \<Longrightarrow> e' = e"
  shows "fold_res f xs s = Inl e"
  using assms
proof (induction xs arbitrary: s)
  case (Cons y ys)
  show ?case
  proof (cases "f y s")
    case (Inl e')
    then show ?thesis using Cons.prems(3) [of y s e'] by simp
  next
    case (Inr t)
    then have "x \<in> set ys" using Cons.prems(1,2) by auto
    then have "fold_res f ys t = Inl e"
      by (rule Cons.IH) (use Cons.prems(2,3) in \<open>auto intro: list.set_intros\<close>)
    then show ?thesis using Inr by simp
  qed
qed simp

lemma bind_res_Inl_iff:
  "bind_res r f = Inl e \<longleftrightarrow> r = Inl e \<or> (\<exists>x. r = Inr x \<and> f x = Inl e)"
  by (cases r) auto

text \<open>Every failure of a loop is a failure of its body.\<close>

lemma fold_res_Inl: "fold_res f xs s = Inl e \<Longrightarrow> \<exists>x\<in>set xs. \<exists>t. f x t = Inl e"
  by (induction xs arbitrary: s) (auto simp: bind_res_Inl_iff)

text \<open>\<open>only_fails e r\<close>: the one failure the computation can end in is \<open>e\<close>.\<close>

named_theorems only_fails_intros \<open>rules that follow the structure of a computation\<close>

definition only_fails :: "failure \<Rightarrow> 'a result \<Rightarrow> bool" where
  "only_fails e r \<longleftrightarrow> (\<forall>e'. r = Inl e' \<longrightarrow> e' = e)"

lemma only_fails_basic [only_fails_intros]:
  "only_fails e (Inr x)" "only_fails e (Inl e)"
  by (simp_all add: only_fails_def)

lemma only_fails_bind [only_fails_intros]:
  "only_fails e r \<Longrightarrow> (\<And>x. only_fails e (f x)) \<Longrightarrow> only_fails e (bind_res r f)"
  by (auto simp: only_fails_def bind_res_Inl_iff)

lemma only_fails_fold [only_fails_intros]:
  "(\<And>x s. only_fails e (f x s)) \<Longrightarrow> only_fails e (fold_res f xs s)"
  unfolding only_fails_def using fold_res_Inl by metis

lemma only_fails_split [only_fails_intros]:
  "only_fails e r \<Longrightarrow> only_fails e r' \<Longrightarrow> only_fails e (if c then r else r')"
  "only_fails e r \<Longrightarrow> (\<And>x. only_fails e (g x)) \<Longrightarrow> only_fails e (case m of None \<Rightarrow> r | Some x \<Rightarrow> g x)"
  "(\<And>x y. only_fails e (h x y)) \<Longrightarrow> only_fails e (case p of (x, y) \<Rightarrow> h x y)"
  "(\<And>x. only_fails e (k x)) \<Longrightarrow> only_fails e (Let v k)"
  by (auto split: option.split prod.split)

subsection \<open>Association lists as \<open>std::map\<close>\<close>

text \<open>
  \<open>m[k]\<close> on a \<open>std::map\<close> with an absent key inserts the key with a default value and
  returns that value; \<open>map_index\<close> returns the value and the map afterwards.
\<close>

definition map_index :: "'v \<Rightarrow> ('k \<times> 'v) list \<Rightarrow> 'k \<Rightarrow> 'v \<times> ('k \<times> 'v) list" where
  "map_index d m k = (case map_of m k of Some v \<Rightarrow> (v, m) | None \<Rightarrow> (d, AList.update k d m))"

lemma zip_index: "zip ds [0..<length ds] = map (\<lambda>i. (ds ! i, i)) [0..<length ds]"
  by (intro nth_equalityI) simp_all

lemma filter_index: "filter Q ds = map ((!) ds) (filter (\<lambda>i. Q (ds ! i)) [0..<length ds])"
proof -
  have "filter Q (map ((!) ds) [0..<length ds]) = map ((!) ds) (filter (Q \<circ> (!) ds) [0..<length ds])"
    by (rule filter_map)
  then show ?thesis unfolding map_nth by (simp add: o_def)
qed

lemma bex_nth: "(\<exists>x\<in>set xs. P x) \<longleftrightarrow> (\<exists>i<length xs. P (xs ! i))"
  by (metis in_set_conv_nth)

lemma distinct_concat_unique:
  "distinct (concat (map f xs)) \<Longrightarrow> b \<in> set xs \<Longrightarrow> c \<in> set xs \<Longrightarrow> x \<in> set (f b) \<Longrightarrow> x \<in> set (f c) \<Longrightarrow> b = c"
  by (induction xs) auto

lemma update_new: "k \<notin> fst ` set m \<Longrightarrow> AList.update k v m = m @ [(k, v)]"
  by (induction m) auto

lemma update_length_new:
  "k \<notin> fst ` set m \<Longrightarrow> length (AList.update k v m) = Suc (length m)"
  by (induction m) auto

lemma map_index_present: "map_of m k = Some v \<Longrightarrow> map_index d m k = (v, m)"
  by (simp add: map_index_def)

end
