(* ===== verification/BitVec.thy ===== *)
theory BitVec
  imports Prelude
begin

section \<open>The bit vector interface the dataflow passes are written against\<close>

text \<open>
  The analyses of \<open>asst2\<close> and \<open>asst3\<close> keep their sets in \<open>llvm::BitVector\<close>, which is
  not part of the repository. It is a parameter of the model: a record of the operations the
  sources call, passed to every definition that uses them. What LLVM documents of those
  operations is the locale \<open>bitvector\<close>, whose predicate is the hypothesis of the theorems.
  The class asserts that an index is in range, so the indexed operations below fail on an index
  that is not.
\<close>

record 'bv bitvec_ops =
  bv_make :: "nat \<Rightarrow> bool \<Rightarrow> 'bv"
  bv_size :: "'bv \<Rightarrow> nat"
  bv_test :: "'bv \<Rightarrow> nat \<Rightarrow> bool"
  bv_or :: "'bv \<Rightarrow> 'bv \<Rightarrow> 'bv"
  bv_and :: "'bv \<Rightarrow> 'bv \<Rightarrow> 'bv"
  bv_flip :: "'bv \<Rightarrow> 'bv"
  bv_put :: "'bv \<Rightarrow> nat \<Rightarrow> bool \<Rightarrow> 'bv"
  bv_eq :: "'bv \<Rightarrow> 'bv \<Rightarrow> bool"

text \<open>\<open>BitVector()\<close>, the empty vector, and the indexed calls with their range assertion.\<close>

definition bv_empty :: "'bv bitvec_ops \<Rightarrow> 'bv" where
  "bv_empty BV = bv_make BV 0 False"

definition bv_get :: "'bv bitvec_ops \<Rightarrow> 'bv \<Rightarrow> nat \<Rightarrow> bool result" where
  "bv_get BV v i = (if i < bv_size BV v then Inr (bv_test BV v i) else Inl OutOfRange)"

definition bv_set :: "'bv bitvec_ops \<Rightarrow> 'bv \<Rightarrow> nat \<Rightarrow> 'bv result" where
  "bv_set BV v i = (if i < bv_size BV v then Inr (bv_put BV v i True) else Inl OutOfRange)"

definition bv_reset :: "'bv bitvec_ops \<Rightarrow> 'bv \<Rightarrow> nat \<Rightarrow> 'bv result" where
  "bv_reset BV v i = (if i < bv_size BV v then Inr (bv_put BV v i False) else Inl OutOfRange)"

lemma bv_only_fails [only_fails_intros]:
  "only_fails OutOfRange (bv_get BV v i)" "only_fails OutOfRange (bv_set BV v i)"
  "only_fails OutOfRange (bv_reset BV v i)"
  by (simp_all add: bv_get_def bv_set_def bv_reset_def only_fails_basic)

text \<open>The set of indices a vector holds.\<close>

definition bits :: "'bv bitvec_ops \<Rightarrow> 'bv \<Rightarrow> nat set" where
  "bits BV v = {i. i < bv_size BV v \<and> bv_test BV v i}"

locale bitvector =
  fixes BV :: "'bv bitvec_ops"
  assumes size_make: "bv_size BV (bv_make BV n b) = n"
    and test_make: "i < n \<Longrightarrow> bv_test BV (bv_make BV n b) i = b"
    and size_or: "bv_size BV (bv_or BV u v) = max (bv_size BV u) (bv_size BV v)"
    and test_or: "i < max (bv_size BV u) (bv_size BV v) \<Longrightarrow>
      bv_test BV (bv_or BV u v) i =
        (i < bv_size BV u \<and> bv_test BV u i \<or> i < bv_size BV v \<and> bv_test BV v i)"
    and size_and: "bv_size BV (bv_and BV u v) = bv_size BV u"
    and test_and: "i < bv_size BV u \<Longrightarrow>
      bv_test BV (bv_and BV u v) i = (bv_test BV u i \<and> i < bv_size BV v \<and> bv_test BV v i)"
    and size_flip: "bv_size BV (bv_flip BV u) = bv_size BV u"
    and test_flip: "i < bv_size BV u \<Longrightarrow> bv_test BV (bv_flip BV u) i = (\<not> bv_test BV u i)"
    and size_put: "i < bv_size BV u \<Longrightarrow> bv_size BV (bv_put BV u i b) = bv_size BV u"
    and test_put: "i < bv_size BV u \<Longrightarrow> j < bv_size BV u \<Longrightarrow>
      bv_test BV (bv_put BV u i b) j = (if j = i then b else bv_test BV u j)"
    and eq_iff: "bv_eq BV u v \<longleftrightarrow>
      (\<forall>i. (i < bv_size BV u \<and> bv_test BV u i) = (i < bv_size BV v \<and> bv_test BV v i))"
begin

lemmas bv_sizes [bits_simps] = size_make size_or size_and size_flip size_put

lemma bits_make [bits_simps]: "bits BV (bv_make BV n b) = (if b then {..<n} else {})"
  by (auto simp: bits_def size_make test_make)

lemma bits_empty [bits_simps]: "bits BV (bv_empty BV) = {}"
  by (simp add: bv_empty_def bits_make)

lemma size_empty [bits_simps]: "bv_size BV (bv_empty BV) = 0"
  by (simp add: bv_empty_def size_make)

lemma bits_or [bits_simps]: "bits BV (bv_or BV u v) = bits BV u \<union> bits BV v"
  by (auto simp: bits_def size_or test_or)

lemma bits_and [bits_simps]: "bits BV (bv_and BV u v) = bits BV u \<inter> bits BV v"
  by (auto simp: bits_def size_and test_and)

lemma bits_flip [bits_simps]: "bits BV (bv_flip BV u) = {..<bv_size BV u} - bits BV u"
  by (auto simp: bits_def size_flip test_flip)

lemma bits_put [bits_simps]:
  "i < bv_size BV u \<Longrightarrow>
    bits BV (bv_put BV u i b) = (if b then insert i (bits BV u) else bits BV u - {i})"
  by (auto simp: bits_def size_put test_put split: if_splits)

lemma bv_eq_bits [bits_simps]: "bv_eq BV u v \<longleftrightarrow> bits BV u = bits BV v"
  by (auto simp: bits_def eq_iff)

lemma bits_bounded: "bits BV u \<subseteq> {..<bv_size BV u}"
  by (auto simp: bits_def)

lemma finite_bits [simp]: "finite (bits BV u)"
  using bits_bounded finite_lessThan finite_subset by blast

lemma bv_get_bits: "i < bv_size BV u \<Longrightarrow> bv_get BV u i = Inr (i \<in> bits BV u)"
  by (simp add: bv_get_def bits_def)

lemma bv_set_Inr:
  assumes "i < bv_size BV u"
  shows "\<exists>v. bv_set BV u i = Inr v \<and> bv_size BV v = bv_size BV u \<and>
    bits BV v = insert i (bits BV u)"
  using assms by (simp add: bv_set_def bits_simps)

lemma bv_reset_Inr:
  assumes "i < bv_size BV u"
  shows "\<exists>v. bv_reset BV u i = Inr v \<and> bv_size BV v = bv_size BV u \<and>
    bits BV v = bits BV u - {i}"
  using assms by (simp add: bv_reset_def bits_simps)

end

subsection \<open>The interface is satisfiable: vectors as lists of booleans\<close>

definition bl_test :: "bool list \<Rightarrow> nat \<Rightarrow> bool" where
  "bl_test v i = (i < length v \<and> v ! i)"

definition bl_or :: "bool list \<Rightarrow> bool list \<Rightarrow> bool list" where
  "bl_or u v = map (\<lambda>i. bl_test u i \<or> bl_test v i) [0..<max (length u) (length v)]"

definition bl_and :: "bool list \<Rightarrow> bool list \<Rightarrow> bool list" where
  "bl_and u v = map (\<lambda>i. bl_test u i \<and> bl_test v i) [0..<length u]"

definition bl_eq :: "bool list \<Rightarrow> bool list \<Rightarrow> bool" where
  "bl_eq u v = list_all (\<lambda>i. bl_test u i = bl_test v i) [0..<max (length u) (length v)]"

definition bl_ops :: "bool list bitvec_ops" where
  "bl_ops = \<lparr>bv_make = replicate, bv_size = length, bv_test = bl_test, bv_or = bl_or,
    bv_and = bl_and, bv_flip = map Not, bv_put = list_update, bv_eq = bl_eq\<rparr>"

lemma bl_eq_iff:
  "bl_eq u v \<longleftrightarrow> (\<forall>i. (i < length u \<and> bl_test u i) = (i < length v \<and> bl_test v i))"
  by (fastforce simp: bl_eq_def bl_test_def list_all_iff)

lemma bl_ops_simps [simp]:
  "bv_make bl_ops = replicate" "bv_size bl_ops = length" "bv_test bl_ops = bl_test"
  "bv_or bl_ops = bl_or" "bv_and bl_ops = bl_and" "bv_flip bl_ops = map Not"
  "bv_put bl_ops = list_update" "bv_eq bl_ops = bl_eq"
  by (simp_all add: bl_ops_def)

interpretation bl: bitvector bl_ops
  by unfold_locales (auto simp: bl_test_def bl_or_def bl_and_def bl_eq_iff nth_list_update)

end
