(* ===== verification/Fixpoint.thy ===== *)
theory Fixpoint
  imports Prelude
begin

section \<open>Round-robin iteration over sets: what the dataflow engine has to compute\<close>

text \<open>
  The abstract side of \<open>DataFlow::run\<close>. A problem is a list of blocks in visiting order,
  the neighbours of each block, a monotone transfer on sets of indices and a
  neighbour-specific part of its output (the values of phi nodes). A state gives each block
  its set \<open>st_E\<close>, its neighbour-specific sets \<open>st_V\<close> and the number \<open>st_K\<close> of neighbours
  that have such a set, which is all the engine compares of them. The locale
  \<open>fixpoint_problem\<close> says when repeated sweeps over the order stop, at a solution, and at the
  least (for a union) or greatest (for an intersection) one.
\<close>

text \<open>The two enumerations of \<open>dataflow.h\<close> that configure an analysis.\<close>

datatype direction = INVALID_DIRECTION | FORWARD | BACKWARD

datatype meet_op = INVALID_MEETOP | UNION | INTERSECTION

definition is_may :: "meet_op \<Rightarrow> bool" where
  "is_may m \<longleftrightarrow> m = UNION"

record astate =
  st_E :: "nat \<Rightarrow> nat set"
  st_V :: "nat \<Rightarrow> nat \<Rightarrow> nat set"
  st_K :: "nat \<Rightarrow> nat"

definition meet_value :: "meet_op \<Rightarrow> nat set list \<Rightarrow> nat set" where
  "meet_value m Xs = (if is_may m then \<Union>(set Xs) else \<Inter>(set Xs))"

definition meet_input ::
  "meet_op \<Rightarrow> (nat \<Rightarrow> nat list) \<Rightarrow> (nat \<Rightarrow> nat set) \<Rightarrow> (nat \<Rightarrow> nat set) \<Rightarrow> (nat \<Rightarrow> nat \<Rightarrow> nat set) \<Rightarrow>
    nat \<Rightarrow> nat set" where
  "meet_input m nbrs I0 E V b =
     (if nbrs b = [] then I0 b else meet_value m (map (\<lambda>p. E p \<union> V p b) (nbrs b)))"

text \<open>The order in which information grows: upwards for a union, downwards for an intersection.\<close>

definition info_le :: "meet_op \<Rightarrow> 'a set \<Rightarrow> 'a set \<Rightarrow> bool" where
  "info_le m X Y = (if is_may m then X \<subseteq> Y else Y \<subseteq> X)"

lemma info_le_refl [simp]: "info_le m X X"
  by (simp add: info_le_def)

lemma info_le_trans: "info_le m X Y \<Longrightarrow> info_le m Y Z \<Longrightarrow> info_le m X Z"
  by (auto simp: info_le_def split: if_splits)

lemma info_le_antisym: "info_le m X Y \<Longrightarrow> info_le m Y X \<Longrightarrow> X = Y"
  by (auto simp: info_le_def split: if_splits)

lemma info_le_Un: "info_le m X X' \<Longrightarrow> info_le m Y Y' \<Longrightarrow> info_le m (X \<union> Y) (X' \<union> Y')"
  by (auto simp: info_le_def split: if_splits)

lemma meet_input_mono:
  assumes "\<And>p. p \<in> set (nbrs b) \<Longrightarrow> info_le m (E p) (E' p)"
    and "\<And>p. p \<in> set (nbrs b) \<Longrightarrow> info_le m (V p b) (V' p b)"
  shows "info_le m (meet_input m nbrs I0 E V b) (meet_input m nbrs I0 E' V' b)"
  using info_le_Un [OF assms] by (auto simp: meet_input_def meet_value_def info_le_def) blast+

lemma meet_value_bounded:
  "Xs \<noteq> [] \<Longrightarrow> (\<And>X. X \<in> set Xs \<Longrightarrow> X \<subseteq> B) \<Longrightarrow> meet_value m Xs \<subseteq> B"
  by (cases Xs) (auto simp: meet_value_def)

lemma meet_input_bounded:
  assumes "I0 b \<subseteq> B" and "\<And>p. E p \<union> V p b \<subseteq> B"
  shows "meet_input m nbrs I0 E V b \<subseteq> B"
proof (cases "nbrs b = []")
  case False
  have "meet_value m (map (\<lambda>p. E p \<union> V p b) (nbrs b)) \<subseteq> B"
    using assms(2) False by (intro meet_value_bounded) auto
  with False show ?thesis by (simp add: meet_input_def)
qed (simp add: meet_input_def assms(1))

definition avisit ::
  "meet_op \<Rightarrow> (nat \<Rightarrow> nat list) \<Rightarrow> (nat \<Rightarrow> nat set) \<Rightarrow> (nat \<Rightarrow> nat set \<Rightarrow> nat set) \<Rightarrow>
    (nat \<Rightarrow> nat set \<Rightarrow> nat \<Rightarrow> nat set) \<Rightarrow> (nat \<Rightarrow> nat set \<Rightarrow> nat) \<Rightarrow> nat \<Rightarrow> astate \<Rightarrow> astate" where
  "avisit m nbrs I0 F NV NK b s =
     (let X = meet_input m nbrs I0 (st_E s) (st_V s) b
      in \<lparr>st_E = (st_E s)(b := F b X), st_V = (st_V s)(b := NV b X), st_K = (st_K s)(b := NK b X)\<rparr>)"

text \<open>A solution of the dataflow equations at the blocks \<open>B\<close>, the others fixed at \<open>E0\<close>.\<close>

definition df_solution ::
  "meet_op \<Rightarrow> (nat \<Rightarrow> nat list) \<Rightarrow> (nat \<Rightarrow> nat set) \<Rightarrow> (nat \<Rightarrow> nat set \<Rightarrow> nat set) \<Rightarrow>
    (nat \<Rightarrow> nat set \<Rightarrow> nat \<Rightarrow> nat set) \<Rightarrow> (nat \<Rightarrow> nat set) \<Rightarrow> nat set \<Rightarrow>
    (nat \<Rightarrow> nat set) \<Rightarrow> (nat \<Rightarrow> nat \<Rightarrow> nat set) \<Rightarrow> bool" where
  "df_solution m nbrs I0 F NV E0 B E V \<longleftrightarrow>
     (\<forall>b. if b \<in> B
          then E b = F b (meet_input m nbrs I0 E V b) \<and> V b = NV b (meet_input m nbrs I0 E V b)
          else E b = E0 b \<and> V b = (\<lambda>_. {}))"

locale fixpoint_problem =
  fixes m :: meet_op
    and n :: nat
    and order :: "nat list"
    and nbrs :: "nat \<Rightarrow> nat list"
    and I0 :: "nat \<Rightarrow> nat set"
    and E0 :: "nat \<Rightarrow> nat set"
    and F :: "nat \<Rightarrow> nat set \<Rightarrow> nat set"
    and NV :: "nat \<Rightarrow> nat set \<Rightarrow> nat \<Rightarrow> nat set"
    and NK :: "nat \<Rightarrow> nat set \<Rightarrow> nat"
    and kmax :: nat
  assumes F_mono: "X \<subseteq> Y \<Longrightarrow> F b X \<subseteq> F b Y"
    and NV_mono: "X \<subseteq> Y \<Longrightarrow> NV b X p \<subseteq> NV b Y p"
    and NK_mono: "X \<subseteq> Y \<Longrightarrow> NK b X \<le> NK b Y"
    and F_bounded: "X \<subseteq> {..<n} \<Longrightarrow> F b X \<subseteq> {..<n}"
    and NV_bounded: "X \<subseteq> {..<n} \<Longrightarrow> NV b X p \<subseteq> {..<n}"
    and NK_bounded: "NK b X \<le> kmax"
    and I0_bounded: "I0 b \<subseteq> {..<n}"
    and E0_bounded: "E0 b \<subseteq> {..<n}"
    and NV_none: "NK b X = 0 \<Longrightarrow> NV b X p = {}"
    and NV_stable: "X \<subseteq> Y \<Longrightarrow> F b X = F b Y \<Longrightarrow> NK b X = NK b Y \<Longrightarrow> NV b X = NV b Y"
    and must_no_NV: "\<not> is_may m \<Longrightarrow> NV b X p = {}"
    and must_no_NK: "\<not> is_may m \<Longrightarrow> NK b X = 0"
    and start: "b \<in> set order \<Longrightarrow>
      E0 b = (if is_may m then {} else {..<n}) \<or> b = hd order \<and> nbrs b = []"
begin

abbreviation inp :: "astate \<Rightarrow> nat \<Rightarrow> nat set" where
  "inp s b \<equiv> meet_input m nbrs I0 (st_E s) (st_V s) b"

abbreviation vis :: "nat \<Rightarrow> astate \<Rightarrow> astate" where
  "vis \<equiv> avisit m nbrs I0 F NV NK"

abbreviation L :: "nat set \<Rightarrow> nat set \<Rightarrow> bool" where
  "L \<equiv> info_le m"

definition init :: astate where
  "init = \<lparr>st_E = E0, st_V = (\<lambda>_ _. {}), st_K = (\<lambda>_. 0)\<rparr>"

definition le_state :: "astate \<Rightarrow> astate \<Rightarrow> bool" where
  "le_state s t \<longleftrightarrow> (\<forall>b. L (st_E s b) (st_E t b) \<and> (\<forall>p. L (st_V s b p) (st_V t b p)) \<and>
     st_K s b \<le> st_K t b)"

definition fresh :: "astate \<Rightarrow> nat \<Rightarrow> bool" where
  "fresh s b \<longleftrightarrow> st_E s b = (if is_may m then {} else {..<n}) \<and> st_V s b = (\<lambda>_. {}) \<and> st_K s b = 0"

definition from_input :: "astate \<Rightarrow> nat \<Rightarrow> nat set \<Rightarrow> bool" where
  "from_input s b X \<longleftrightarrow> st_E s b = F b X \<and> st_V s b = NV b X \<and> st_K s b = NK b X"

definition inv :: "astate \<Rightarrow> bool" where
  "inv s \<longleftrightarrow> (\<forall>b p. st_E s b \<subseteq> {..<n} \<and> st_V s b p \<subseteq> {..<n} \<and> (\<not> is_may m \<longrightarrow> st_V s b p = {})) \<and>
     (\<forall>b. b \<notin> set order \<longrightarrow> st_E s b = E0 b \<and> st_V s b = (\<lambda>_. {}) \<and> st_K s b = 0) \<and>
     (\<forall>b\<in>set order. fresh s b \<or> (\<exists>X. L X (inp s b) \<and> X \<subseteq> {..<n} \<and> from_input s b X))"

lemma L_F: "L X Y \<Longrightarrow> L (F b X) (F b Y)"
  by (auto simp: info_le_def split: if_splits dest: F_mono)

lemma L_NV: "L X Y \<Longrightarrow> L (NV b X p) (NV b Y p)"
  by (cases "is_may m") (auto simp: info_le_def must_no_NV dest: NV_mono)

lemma L_NK: "L X Y \<Longrightarrow> NK b X \<le> NK b Y"
  by (cases "is_may m") (auto simp: info_le_def must_no_NK dest: NK_mono)

lemma NV_stableL: "L X Y \<Longrightarrow> F b X = F b Y \<Longrightarrow> NK b X = NK b Y \<Longrightarrow> NV b X = NV b Y"
  by (metis NV_stable info_le_def)

lemma inp_mono: "le_state s t \<Longrightarrow> L (inp s b) (inp t b)"
  by (rule meet_input_mono) (auto simp: le_state_def)

lemma inp_bounded: "inv s \<Longrightarrow> inp s b \<subseteq> {..<n}"
  using I0_bounded by (intro meet_input_bounded) (auto simp: inv_def)

lemma vis_sel [simp]:
  "st_E (vis b s) = (st_E s)(b := F b (inp s b))"
  "st_V (vis b s) = (st_V s)(b := NV b (inp s b))"
  "st_K (vis b s) = (st_K s)(b := NK b (inp s b))"
  by (simp_all add: avisit_def Let_def)

lemma le_state_refl: "le_state s s"
  by (simp add: le_state_def)

lemma le_state_trans: "le_state s t \<Longrightarrow> le_state t u \<Longrightarrow> le_state s u"
  unfolding le_state_def by (meson info_le_trans le_trans)

text \<open>A visit never loses information.\<close>

lemma vis_increases:
  assumes "inv s" and b: "b \<in> set order"
  shows "le_state s (vis b s)"
proof -
  have "L (st_E s b) (F b (inp s b)) \<and> (\<forall>p. L (st_V s b p) (NV b (inp s b) p)) \<and>
      st_K s b \<le> NK b (inp s b)"
  proof (cases "fresh s b")
    case True
    have "F b (inp s b) \<subseteq> {..<n}"
      using F_bounded inp_bounded [OF assms(1)] by blast
    with True show ?thesis
      using must_no_NV by (cases "is_may m") (simp_all add: fresh_def info_le_def)
  next
    case False
    then obtain X where "L X (inp s b)" and "from_input s b X"
      using assms by (auto simp: inv_def)
    then show ?thesis
      by (auto simp: from_input_def L_F L_NV L_NK)
  qed
  then show ?thesis
    by (auto simp: le_state_def)
qed

lemma vis_inv:
  assumes "inv s" and b: "b \<in> set order"
  shows "inv (vis b s)"
proof -
  let ?t = "vis b s"
  note le = vis_increases [OF assms]
  have old: "st_E s c \<subseteq> {..<n} \<and> st_V s c p \<subseteq> {..<n} \<and> (\<not> is_may m \<longrightarrow> st_V s c p = {})" for c p
    using assms(1) unfolding inv_def by blast
  have bnd: "st_E ?t c \<subseteq> {..<n} \<and> st_V ?t c p \<subseteq> {..<n} \<and> (\<not> is_may m \<longrightarrow> st_V ?t c p = {})" for c p
    using old [of c p] F_bounded NV_bounded must_no_NV inp_bounded [OF assms(1)]
    by (cases "c = b") simp_all
  have "fresh ?t c \<or> (\<exists>X. L X (inp ?t c) \<and> X \<subseteq> {..<n} \<and> from_input ?t c X)"
    if c: "c \<in> set order" for c
  proof (cases "c = b")
    case True
    then have "from_input ?t c (inp s b)"
      by (simp add: from_input_def)
    then show ?thesis
      using True inp_mono [OF le] inp_bounded [OF assms(1)] by blast
  next
    case False
    have "fresh s c \<or> (\<exists>X. L X (inp s c) \<and> X \<subseteq> {..<n} \<and> from_input s c X)"
      using assms(1) c by (auto simp: inv_def)
    moreover have "fresh s c = fresh ?t c" and "from_input s c X = from_input ?t c X" for X
      using False by (simp_all add: fresh_def from_input_def)
    ultimately show ?thesis
      using info_le_trans [OF _ inp_mono [OF le]] by metis
  qed
  with assms bnd show ?thesis
    by (auto simp: inv_def)
qed

text \<open>The invariant holds once the first block of the order has been visited.\<close>

lemma first_vis_inv:
  assumes "order = b0 # rest"
  shows "inv (vis b0 init)"
proof -
  let ?t = "vis b0 init"
  have b0: "b0 \<in> set order" using assms by simp
  have i0: "inp init b0 \<subseteq> {..<n}"
    using I0_bounded E0_bounded by (intro meet_input_bounded) (auto simp: init_def)
  have le: "L (inp init b0) (inp ?t b0)"
  proof (cases "nbrs b0 = []")
    case True
    then show ?thesis by (simp add: meet_input_def)
  next
    case False
    with start [OF b0] assms have "E0 b0 = (if is_may m then {} else {..<n})" by auto
    then have "le_state init ?t"
      using F_bounded [OF i0, of b0] must_no_NV [of b0]
      by (cases "is_may m") (simp_all add: le_state_def init_def info_le_def)
    then show ?thesis by (rule inp_mono)
  qed
  have "fresh ?t c \<or> (\<exists>X. L X (inp ?t c) \<and> X \<subseteq> {..<n} \<and> from_input ?t c X)"
    if "c \<in> set order" for c
  proof (cases "c = b0")
    case True
    then have "from_input ?t c (inp init b0)" by (simp add: from_input_def)
    then show ?thesis using True le i0 by blast
  next
    case False
    with start [OF that] assms have "E0 c = (if is_may m then {} else {..<n})" by auto
    with False have "fresh ?t c" by (simp add: fresh_def init_def)
    then show ?thesis ..
  qed
  moreover have "st_E ?t c \<subseteq> {..<n} \<and> st_V ?t c p \<subseteq> {..<n} \<and> (\<not> is_may m \<longrightarrow> st_V ?t c p = {})" for c p
    using F_bounded [OF i0] NV_bounded [OF i0] E0_bounded must_no_NV
    by (cases "c = b0") (simp_all add: init_def)
  ultimately show ?thesis
    using b0 by (auto simp: inv_def init_def)
qed

text \<open>A visit that changes neither the set nor the number of neighbour sets changes nothing.\<close>

definition changed :: "astate \<Rightarrow> nat \<Rightarrow> bool" where
  "changed s b \<longleftrightarrow> F b (inp s b) \<noteq> st_E s b \<or> NK b (inp s b) \<noteq> st_K s b"

lemma not_changed:
  assumes "inv s" and "b \<in> set order" and "\<not> changed s b"
  shows "vis b s = s"
proof -
  have "NV b (inp s b) = st_V s b"
  proof (cases "fresh s b")
    case True
    with assms(3) show ?thesis
      by (auto simp: changed_def fresh_def NV_none)
  next
    case False
    then obtain X where "L X (inp s b)" and "from_input s b X"
      using assms(1,2) by (auto simp: inv_def)
    with assms(3) NV_stableL [of X "inp s b" b] show ?thesis
      by (simp add: changed_def from_input_def)
  qed
  with assms(3) show ?thesis
    by (simp add: avisit_def changed_def)
qed

lemma not_changed_init: "\<not> changed init b \<Longrightarrow> vis b init = init"
  by (auto simp: changed_def avisit_def init_def NV_none fun_upd_idem_iff)

text \<open>One sweep over a list of blocks, with the flag that says nothing changed.\<close>

fun asweep :: "nat list \<Rightarrow> astate \<Rightarrow> astate \<times> bool" where
  "asweep [] s = (s, True)"
| "asweep (b # bs) s = (let (t, c) = asweep bs (vis b s) in (t, \<not> changed s b \<and> c))"

text \<open>The distance of a state from the end of the iteration.\<close>

definition rank :: "astate \<Rightarrow> nat" where
  "rank s = (\<Sum>b\<in>set order.
     (if is_may m then n - card (st_E s b) else card (st_E s b)) + (kmax - st_K s b))"

lemma card_le_n: "X \<subseteq> {..<n} \<Longrightarrow> card X \<le> n"
  using card_mono [of "{..<n}" X] by simp

lemma inv_K: "inv s \<Longrightarrow> b \<in> set order \<Longrightarrow> st_K s b \<le> kmax"
  using NK_bounded by (auto simp: inv_def fresh_def from_input_def)

lemma rank_term_mono:
  assumes "L X Y" and "X \<subseteq> {..<n}" and "Y \<subseteq> {..<n}"
  shows "(if is_may m then n - card Y else card Y) \<le> (if is_may m then n - card X else card X)"
    and "X \<noteq> Y \<Longrightarrow>
      (if is_may m then n - card Y else card Y) < (if is_may m then n - card X else card X)"
proof -
  have fin: "finite X" "finite Y"
    using assms(2,3) finite_subset by blast+
  show "(if is_may m then n - card Y else card Y) \<le> (if is_may m then n - card X else card X)"
    using assms fin by (auto simp: info_le_def card_mono diff_le_mono2 split: if_splits)
  assume "X \<noteq> Y"
  show "(if is_may m then n - card Y else card Y) < (if is_may m then n - card X else card X)"
  proof (cases "is_may m")
    case True
    then have "card X < card Y"
      using assms(1) fin \<open>X \<noteq> Y\<close> by (intro psubset_card_mono) (auto simp: info_le_def)
    then show ?thesis using True card_le_n [OF assms(3)] by simp
  next
    case False
    then have "card Y < card X"
      using assms(1) fin \<open>X \<noteq> Y\<close> by (intro psubset_card_mono) (auto simp: info_le_def)
    then show ?thesis using False by simp
  qed
qed

lemma rank_mono: "le_state s t \<Longrightarrow> inv s \<Longrightarrow> inv t \<Longrightarrow> rank t \<le> rank s"
  unfolding rank_def
  by (intro sum_mono add_mono rank_term_mono(1) diff_le_mono2) (auto simp: le_state_def inv_def)

lemma changed_rank:
  assumes "inv s" and b: "b \<in> set order" and "changed s b"
  shows "rank (vis b s) < rank s"
proof -
  let ?t = "vis b s"
  have le: "le_state s ?t" and inv: "inv ?t"
    using vis_increases vis_inv assms by blast+
  let ?f = "\<lambda>s c. (if is_may m then n - card (st_E s c) else card (st_E s c)) + (kmax - st_K s c)"
  have E: "L (st_E s c) (st_E ?t c)" "st_E s c \<subseteq> {..<n}" "st_E ?t c \<subseteq> {..<n}"
    and K: "st_K s c \<le> st_K ?t c" for c
    using le assms(1) inv by (simp_all add: le_state_def inv_def)
  have "?f ?t b < ?f s b"
  proof (cases "st_E s b = st_E ?t b")
    case True
    then have "NK b (inp s b) \<noteq> st_K s b"
      using assms(3) by (auto simp: changed_def)
    then have "st_K s b < st_K ?t b"
      using K [of b] by simp
    moreover have "st_K ?t b \<le> kmax"
      using inv_K [OF inv b] .
    ultimately have "kmax - st_K ?t b < kmax - st_K s b"
      by linarith
    then show ?thesis
      unfolding True by (rule add_strict_left_mono)
  next
    case False
    with rank_term_mono(2) [OF E [of b]] K [of b] show ?thesis
      by (meson add_less_le_mono diff_le_mono2)
  qed
  moreover have "?f ?t c \<le> ?f s c" for c
    by (intro add_mono rank_term_mono(1) diff_le_mono2 E K)
  ultimately show ?thesis
    unfolding rank_def by (intro sum_strict_mono_ex1) (use b in auto)
qed

lemma asweep_props:
  assumes "inv s" and "set bs \<subseteq> set order" and "asweep bs s = (t, c)"
  shows "inv t \<and> le_state s t \<and> (c \<longrightarrow> t = s \<and> (\<forall>b\<in>set bs. vis b s = s)) \<and>
    (\<not> c \<longrightarrow> rank t < rank s)"
  using assms
proof (induction bs arbitrary: s t c)
  case Nil
  then show ?case by (simp add: le_state_refl)
next
  case (Cons b bs)
  obtain c' where c': "asweep bs (vis b s) = (t, c')" and c: "c = (\<not> changed s b \<and> c')"
    using Cons.prems(3) by (auto split: prod.splits)
  have b: "b \<in> set order" using Cons.prems(2) by simp
  have inv: "inv (vis b s)" and le: "le_state s (vis b s)"
    using vis_inv vis_increases Cons.prems(1) b by blast+
  have bs: "set bs \<subseteq> set order" using Cons.prems(2) by simp
  note IH = Cons.IH [OF inv bs c']
  have r: "rank t \<le> rank (vis b s)" "rank (vis b s) \<le> rank s"
    using rank_mono IH inv le Cons.prems(1) by blast+
  have le': "le_state s t"
    using le IH le_state_trans by blast
  show ?case
  proof (cases "changed s b")
    case True
    then show ?thesis
      using IH le' r(1) c changed_rank [OF Cons.prems(1) b] by simp
  next
    case False
    then have "vis b s = s"
      using not_changed Cons.prems(1) b by blast
    then show ?thesis
      using IH c False by simp
  qed
qed

text \<open>A state every visit leaves alone is a solution; one below a solution stays below it.\<close>

definition below :: "astate \<Rightarrow> (nat \<Rightarrow> nat set) \<Rightarrow> (nat \<Rightarrow> nat \<Rightarrow> nat set) \<Rightarrow> bool" where
  "below s E V \<longleftrightarrow> (\<forall>b. L (st_E s b) (E b) \<and> (\<forall>p. L (st_V s b p) (V b p)))"

abbreviation solution :: "(nat \<Rightarrow> nat set) \<Rightarrow> (nat \<Rightarrow> nat \<Rightarrow> nat set) \<Rightarrow> bool" where
  "solution \<equiv> df_solution m nbrs I0 F NV E0 (set order)"

lemma stable_solution:
  assumes "inv s" and "\<And>b. b \<in> set order \<Longrightarrow> vis b s = s"
  shows "solution (st_E s) (st_V s)"
proof -
  have "st_E s b = F b (inp s b) \<and> st_V s b = NV b (inp s b)" if "b \<in> set order" for b
  proof -
    have "st_E s b = st_E (vis b s) b" and "st_V s b = st_V (vis b s) b"
      using assms(2) [OF that] by simp_all
    then show ?thesis by (simp only: vis_sel fun_upd_same)
  qed
  with assms(1) show ?thesis
    by (auto simp: df_solution_def inv_def)
qed

lemma vis_below:
  assumes "solution E V" and "below s E V" and "b \<in> set order"
  shows "below (vis b s) E V"
proof -
  have "L (inp s b) (meet_input m nbrs I0 E V b)"
    using assms(2) by (intro meet_input_mono) (auto simp: below_def)
  moreover have "E b = F b (meet_input m nbrs I0 E V b)" "V b = NV b (meet_input m nbrs I0 E V b)"
    using assms(1,3) by (simp_all add: df_solution_def)
  ultimately have "L (F b (inp s b)) (E b)" "L (NV b (inp s b) p) (V b p)" for p
    by (simp_all add: L_F L_NV)
  then show ?thesis
    using assms(2) by (simp add: below_def)
qed

lemma asweep_below:
  "solution E V \<Longrightarrow> below s E V \<Longrightarrow> set bs \<subseteq> set order \<Longrightarrow> below (fst (asweep bs s)) E V"
proof (induction bs arbitrary: s)
  case (Cons b bs)
  then have "below (fst (asweep bs (vis b s))) E V"
    using vis_below by simp
  then show ?case by (simp add: case_prod_beta)
qed simp

lemma solution_bounded_below:
  assumes "solution E V" and "\<And>b. E b \<subseteq> {..<n}" and "order = b0 # rest"
  shows "below (vis b0 init) E V"
proof -
  have bot: "L (if is_may m then {} else {..<n}) (E b)" for b
    using assms(2) [of b] by (simp add: info_le_def)
  have V: "L {} (V b p)" for b p
    using assms(1) must_no_NV by (cases "b \<in> set order") (auto simp: df_solution_def info_le_def)
  have E: "L (E0 b) (E b)" if "b \<noteq> b0 \<or> nbrs b \<noteq> []" for b
  proof (cases "b \<in> set order")
    case True
    with start that assms(3) have "E0 b = (if is_may m then {} else {..<n})" by fastforce
    with bot show ?thesis by simp
  next
    case False
    with assms(1) show ?thesis by (simp add: df_solution_def)
  qed
  have b0: "b0 \<in> set order" using assms(3) by simp
  show ?thesis
  proof (cases "nbrs b0 = []")
    case True
    then have "inp init b0 = meet_input m nbrs I0 E V b0"
      by (simp add: meet_input_def)
    moreover have "E b0 = F b0 (meet_input m nbrs I0 E V b0)"
      and "V b0 = NV b0 (meet_input m nbrs I0 E V b0)"
      using assms(1) b0 by (simp_all add: df_solution_def)
    ultimately show ?thesis
      using E V by (simp add: below_def init_def)
  next
    case False
    then have "below init E V"
      using E V by (auto simp: below_def init_def)
    then show ?thesis
      by (rule vis_below [OF assms(1) _ b0])
  qed
qed

end

end
