(* ===== verification/Dataflow.thy ===== *)
theory Dataflow
  imports BitVec Fixpoint
begin

section \<open>The iterative dataflow engine\<close>

text \<open>
  \<open>asst2/ClassicalDataflow/dataflow.h\<close> and \<open>dataflow.cpp\<close>, and the copy of the latter in
  \<open>asst3/LICM\<close>, which initialises one more field. Blocks (\<open>BasicBlock*\<close>) are numbers. What
  LLVM computes of a function is a record handed to the engine: its blocks in layout order, the
  predecessor and successor lists, which blocks end in a return, and the two traversals. A
  \<open>std::map\<close> the sources only read and write with \<open>operator[]\<close> is a total function whose
  default is the value-initialised entry; the others are association lists.
\<close>

type_synonym block = nat

record llvm_cfg =
  fn_blocks :: "block list"
  fn_preds :: "block \<Rightarrow> block list"
  fn_succs :: "block \<Rightarrow> block list"
  fn_ret :: "block \<Rightarrow> bool"
  fn_rpo :: "block list"
  fn_po :: "block list"

subsection \<open>Results of a block and of a run\<close>

record 'bv transfer_output =
  element :: 'bv
  neighborVals :: "(block \<times> 'bv) list"

record 'bv block_result =
  res_in :: 'bv
  res_out :: 'bv
  transferOutput :: "'bv transfer_output"

record ('d, 'bv) dataflow_result =
  df_result :: "block \<Rightarrow> 'bv block_result"
  df_domainToIndex :: "('d \<times> nat) list"
  df_modified :: bool

text \<open>
  A subclass of \<open>DataFlow\<close>: its direction, its meet operator and its virtual transfer
  function, which takes the input set, the domain, the index map and the block.
\<close>

record ('d, 'bv) analysis =
  an_direction :: direction
  an_meetup_op :: meet_op
  an_transferFn :: "'bv \<Rightarrow> 'd list \<Rightarrow> ('d \<times> nat) list \<Rightarrow> block \<Rightarrow> 'bv transfer_output result"

definition empty_output :: "'bv bitvec_ops \<Rightarrow> 'bv transfer_output" where
  "empty_output BV = \<lparr>element = bv_empty BV, neighborVals = []\<rparr>"

definition empty_block_result :: "'bv bitvec_ops \<Rightarrow> 'bv block_result" where
  "empty_block_result BV =
     \<lparr>res_in = bv_empty BV, res_out = bv_empty BV, transferOutput = empty_output BV\<rparr>"

subsection \<open>The meet operator\<close>

definition meet_step :: "'bv bitvec_ops \<Rightarrow> meet_op \<Rightarrow> 'bv \<Rightarrow> 'bv \<Rightarrow> 'bv result" where
  "meet_step BV m v acc =
     (if m = UNION then Inr (bv_or BV acc v)
      else if m = INTERSECTION then Inr (bv_and BV acc v)
      else Inl ExitFailure)"

definition applyMeetOp :: "'bv bitvec_ops \<Rightarrow> meet_op \<Rightarrow> 'bv list \<Rightarrow> 'bv result" where
  "applyMeetOp BV m inputs =
     (case inputs of [] \<Rightarrow> Inr (bv_empty BV) | v # vs \<Rightarrow> fold_res (meet_step BV m) vs v)"

subsection \<open>Setting a run up\<close>

text \<open>\<open>domainToIndex[domain[i]] = i\<close>, for each \<open>i\<close> in turn.\<close>

fun index_from :: "nat \<Rightarrow> 'd list \<Rightarrow> ('d \<times> nat) list \<Rightarrow> ('d \<times> nat) list" where
  "index_from i [] m = m"
| "index_from i (d # ds) m = index_from (Suc i) ds (AList.update d i m)"

definition index_domain :: "'d list \<Rightarrow> ('d \<times> nat) list" where
  "index_domain domain = index_from 0 domain []"

text \<open>\<open>F.front()\<close> is undefined on a function without a body.\<close>

definition boundary_blocks :: "direction \<Rightarrow> 'z llvm_cfg_scheme \<Rightarrow> block list result" where
  "boundary_blocks dir G =
     (case dir of
        FORWARD \<Rightarrow> (case fn_blocks G of [] \<Rightarrow> Inl Undefined | b # _ \<Rightarrow> Inr [b])
      | BACKWARD \<Rightarrow> Inr (filter (fn_ret G) (fn_blocks G))
      | INVALID_DIRECTION \<Rightarrow> Inr [])"

definition boundary_res :: "'bv bitvec_ops \<Rightarrow> direction \<Rightarrow> 'bv \<Rightarrow> 'bv block_result" where
  "boundary_res BV dir boundaryCond =
     (let r = empty_block_result BV;
          r = (if dir = FORWARD then r\<lparr>res_in := boundaryCond\<rparr> else r\<lparr>res_out := boundaryCond\<rparr>)
      in r\<lparr>transferOutput := (transferOutput r)\<lparr>element := boundaryCond\<rparr>\<rparr>)"

definition interior_res :: "'bv bitvec_ops \<Rightarrow> direction \<Rightarrow> 'bv \<Rightarrow> 'bv block_result" where
  "interior_res BV dir initCond =
     (let r = empty_block_result BV;
          r = (if dir = FORWARD then r\<lparr>res_out := initCond\<rparr> else r\<lparr>res_in := initCond\<rparr>)
      in r\<lparr>transferOutput := (transferOutput r)\<lparr>element := initCond\<rparr>\<rparr>)"

text \<open>The copy in \<open>asst3\<close> gives the other set the initial value too.\<close>

definition interior_res_both :: "'bv bitvec_ops \<Rightarrow> direction \<Rightarrow> 'bv \<Rightarrow> 'bv block_result" where
  "interior_res_both BV dir initCond =
     (let r = empty_block_result BV;
          r = (if dir = FORWARD then r\<lparr>res_out := initCond\<rparr> else r\<lparr>res_in := initCond\<rparr>);
          r = (if dir = FORWARD then r\<lparr>res_in := initCond\<rparr> else r\<lparr>res_out := initCond\<rparr>)
      in r\<lparr>transferOutput := (transferOutput r)\<lparr>element := initCond\<rparr>\<rparr>)"

fun assign_all :: "block list \<Rightarrow> 'a \<Rightarrow> (block \<Rightarrow> 'a) \<Rightarrow> block \<Rightarrow> 'a" where
  "assign_all [] r res = res"
| "assign_all (b # bs) r res = assign_all bs r (res(b := r))"

definition init_result ::
  "'bv bitvec_ops \<Rightarrow> 'z llvm_cfg_scheme \<Rightarrow> block list \<Rightarrow> 'bv block_result \<Rightarrow> 'bv block_result \<Rightarrow>
    block \<Rightarrow> 'bv block_result" where
  "init_result BV G boundaryBlocks boundaryRes intRes =
     (let res = assign_all boundaryBlocks boundaryRes (\<lambda>_. empty_block_result BV)
      in assign_all (filter (\<lambda>b. b \<notin> set boundaryBlocks) (fn_blocks G)) intRes res)"

definition block_neighbors :: "direction \<Rightarrow> 'z llvm_cfg_scheme \<Rightarrow> block \<Rightarrow> block list" where
  "block_neighbors dir G b =
     (if b \<in> set (fn_blocks G)
      then (case dir of FORWARD \<Rightarrow> fn_preds G b | BACKWARD \<Rightarrow> fn_succs G b
            | INVALID_DIRECTION \<Rightarrow> [])
      else [])"

definition traversal_order :: "direction \<Rightarrow> 'z llvm_cfg_scheme \<Rightarrow> block list" where
  "traversal_order dir G =
     (case dir of FORWARD \<Rightarrow> fn_rpo G | BACKWARD \<Rightarrow> fn_po G | INVALID_DIRECTION \<Rightarrow> [])"

subsection \<open>One block, one sweep, the loop\<close>

definition neighbor_value ::
  "'bv bitvec_ops \<Rightarrow> (block \<Rightarrow> 'bv block_result) \<Rightarrow> block \<Rightarrow> block \<Rightarrow> 'bv" where
  "neighbor_value BV res BB NI =
     (let out = transferOutput (res NI)
      in case map_of (neighborVals out) BB of
           Some v \<Rightarrow> bv_or BV (element out) v
         | None \<Rightarrow> element out)"

definition block_input :: "direction \<Rightarrow> 'bv block_result \<Rightarrow> 'bv" where
  "block_input dir r = (if dir = FORWARD then res_in r else res_out r)"

definition block_output :: "direction \<Rightarrow> 'bv block_result \<Rightarrow> 'bv" where
  "block_output dir r = (if dir = FORWARD then res_out r else res_in r)"

definition visit_block ::
  "'bv bitvec_ops \<Rightarrow> ('d, 'bv) analysis \<Rightarrow> 'd list \<Rightarrow> ('d \<times> nat) list \<Rightarrow> (block \<Rightarrow> block list) \<Rightarrow>
    block \<Rightarrow> (block \<Rightarrow> 'bv block_result) \<times> bool \<Rightarrow> ((block \<Rightarrow> 'bv block_result) \<times> bool) result" where
  "visit_block BV A domain domainToIndex blockNeighbors BB st =
     (let (res, converged) = st;
          dir = an_direction A;
          blockRes = res BB;
          oldVal = block_output dir blockRes;
          meetInputs = map (neighbor_value BV res BB) (blockNeighbors BB)
      in bind_res (if meetInputs \<noteq> [] then applyMeetOp BV (an_meetup_op A) meetInputs
                   else Inr (block_input dir blockRes)) (\<lambda>inp.
         bind_res (an_transferFn A inp domain domainToIndex BB) (\<lambda>out.
           let newRes = (if dir = FORWARD
                         then \<lparr>res_in = inp, res_out = element out, transferOutput = out\<rparr>
                         else \<lparr>res_in = element out, res_out = inp, transferOutput = out\<rparr>);
               differs = (\<not> bv_eq BV (element out) oldVal \<or>
                 length (neighborVals out) \<noteq> length (neighborVals (transferOutput blockRes)))
           in Inr (res(BB := newRes), converged \<and> \<not> differs))))"

definition sweep ::
  "'bv bitvec_ops \<Rightarrow> ('d, 'bv) analysis \<Rightarrow> 'd list \<Rightarrow> ('d \<times> nat) list \<Rightarrow> (block \<Rightarrow> block list) \<Rightarrow>
    block list \<Rightarrow> (block \<Rightarrow> 'bv block_result) \<Rightarrow> ((block \<Rightarrow> 'bv block_result) \<times> bool) result" where
  "sweep BV A domain domainToIndex blockNeighbors order res =
     fold_res (visit_block BV A domain domainToIndex blockNeighbors) order (res, True)"

text \<open>\<open>None\<close> is a run that never converges.\<close>

partial_function (option) converge ::
  "((block \<Rightarrow> 'bv block_result) \<Rightarrow> ((block \<Rightarrow> 'bv block_result) \<times> bool) result) \<Rightarrow>
    (block \<Rightarrow> 'bv block_result) \<Rightarrow> (block \<Rightarrow> 'bv block_result) result option" where
  "converge step res =
     (case step res of
        Inl e \<Rightarrow> Some (Inl e)
      | Inr st \<Rightarrow> if snd st then Some (Inr (fst st)) else converge step (fst st))"

declare converge.simps [code]

definition run_engine ::
  "'bv bitvec_ops \<Rightarrow> ('d, 'bv) analysis \<Rightarrow> 'z llvm_cfg_scheme \<Rightarrow> 'd list \<Rightarrow> 'bv block_result \<Rightarrow>
    'bv block_result \<Rightarrow> ('d, 'bv) dataflow_result result option" where
  "run_engine BV A G domain boundaryRes intRes =
     (case boundary_blocks (an_direction A) G of
        Inl e \<Rightarrow> Some (Inl e)
      | Inr boundaryBlocks \<Rightarrow>
          (let domainToIndex = index_domain domain;
               res = init_result BV G boundaryBlocks boundaryRes intRes;
               blockNeighbors = block_neighbors (an_direction A) G;
               order = traversal_order (an_direction A) G
           in map_option (map_sum id (\<lambda>res'.
                \<lparr>df_result = res', df_domainToIndex = domainToIndex, df_modified = False\<rparr>))
              (converge (sweep BV A domain domainToIndex blockNeighbors order) res)))"

definition run ::
  "'bv bitvec_ops \<Rightarrow> ('d, 'bv) analysis \<Rightarrow> 'z llvm_cfg_scheme \<Rightarrow> 'd list \<Rightarrow> 'bv \<Rightarrow> 'bv \<Rightarrow>
    ('d, 'bv) dataflow_result result option" where
  "run BV A G domain boundaryCond initCond =
     run_engine BV A G domain (boundary_res BV (an_direction A) boundaryCond)
       (interior_res BV (an_direction A) initCond)"

definition run_both ::
  "'bv bitvec_ops \<Rightarrow> ('d, 'bv) analysis \<Rightarrow> 'z llvm_cfg_scheme \<Rightarrow> 'd list \<Rightarrow> 'bv \<Rightarrow> 'bv \<Rightarrow>
    ('d, 'bv) dataflow_result result option" where
  "run_both BV A G domain boundaryCond initCond =
     run_engine BV A G domain (boundary_res BV (an_direction A) boundaryCond)
       (interior_res_both BV (an_direction A) initCond)"

lemma assign_all_apply: "assign_all bs r res b = (if b \<in> set bs then r else res b)"
  by (induction bs arbitrary: res) auto

lemmas initial_results = boundary_res_def interior_res_def interior_res_both_def
  empty_block_result_def empty_output_def block_input_def block_output_def Let_def

end
