(* ===== verification/Engine.thy ===== *)
theory Engine
  imports Dataflow
begin

section \<open>The engine computes extremal solutions\<close>

text \<open>
  The contract of an analysis with the engine is the locale \<open>engine\<close>: its transfer function
  never fails on the inputs the engine can build, returns vectors of the right size, and computes
  a monotone function of the input's index set. Under that contract a run terminates, at a
  solution of the dataflow equations, and at the extremal one. The proof refines the engine's
  state to the abstract states of \<open>Fixpoint\<close>: every visit of the code is a visit there.
\<close>

definition nv_bits :: "'bv bitvec_ops \<Rightarrow> 'bv transfer_output \<Rightarrow> block \<Rightarrow> nat set" where
  "nv_bits BV out p = (case map_of (neighborVals out) p of None \<Rightarrow> {} | Some v \<Rightarrow> bits BV v)"

definition abs_state :: "'bv bitvec_ops \<Rightarrow> (block \<Rightarrow> 'bv block_result) \<Rightarrow> astate" where
  "abs_state BV res =
     \<lparr>st_E = (\<lambda>b. bits BV (element (transferOutput (res b)))),
      st_V = (\<lambda>b. nv_bits BV (transferOutput (res b))),
      st_K = (\<lambda>b. length (neighborVals (transferOutput (res b))))\<rparr>"

lemma abs_state_sel:
  "st_E (abs_state BV res) b = bits BV (element (transferOutput (res b)))"
  "st_V (abs_state BV res) b = nv_bits BV (transferOutput (res b))"
  "st_K (abs_state BV res) b = length (neighborVals (transferOutput (res b)))"
  by (simp_all add: abs_state_def)

locale engine = bitvector BV + fixpoint_problem m n order nbrs I0 E0 F NV NK kmax
  for BV :: "'bv bitvec_ops" and m n order nbrs I0 E0 F NV NK kmax +
  fixes A :: "('d, 'bv) analysis"
    and domain :: "'d list"
    and d2i :: "('d \<times> nat) list"
    and ok :: "'bv \<Rightarrow> bool"
    and B :: "block set"
    and res0 :: "block \<Rightarrow> 'bv block_result"
  assumes meet_ok: "an_meetup_op A = m" "m \<noteq> INVALID_MEETOP"
    and ok_size: "bv_size BV v = n \<Longrightarrow> ok v"
    and transfer_ok: "b \<in> set order \<Longrightarrow> ok v \<Longrightarrow>
      \<exists>out. an_transferFn A v domain d2i b = Inr out \<and> bv_size BV (element out) = n \<and>
        bits BV (element out) = F b (bits BV v) \<and> nv_bits BV out = NV b (bits BV v) \<and>
        length (neighborVals out) = NK b (bits BV v) \<and>
        (\<forall>p w. map_of (neighborVals out) p = Some w \<longrightarrow> bv_size BV w = n)"
    and order_B: "set order \<subseteq> B"
    and nbrs_B: "b \<in> set order \<Longrightarrow> set (nbrs b) \<subseteq> B"
    and res0_size: "b \<in> B \<Longrightarrow> bv_size BV (element (transferOutput (res0 b))) = n"
    and res0_nv: "neighborVals (transferOutput (res0 b)) = []"
    and res0_E: "bits BV (element (transferOutput (res0 b))) = E0 b"
    and res0_output: "bits BV (block_output (an_direction A) (res0 b)) = E0 b"
    and res0_input: "b \<in> set order \<Longrightarrow> nbrs b = [] \<Longrightarrow>
      ok (block_input (an_direction A) (res0 b)) \<and>
      bits BV (block_input (an_direction A) (res0 b)) = I0 b"
begin

abbreviation "ast \<equiv> abs_state BV"
abbreviation "dir \<equiv> an_direction A"
abbreviation "visit \<equiv> visit_block BV A domain d2i nbrs"

lemma meet_fold:
  assumes "\<And>v. v \<in> set vs \<Longrightarrow> bv_size BV v = n" and "bv_size BV u = n"
  shows "\<exists>w. fold_res (meet_step BV m) vs u = Inr w \<and> bv_size BV w = n \<and>
    bits BV w = meet_value m (bits BV u # map (bits BV) vs)"
  using assms
proof (induction vs arbitrary: u)
  case Nil
  then show ?case by (simp add: meet_value_def)
next
  case (Cons v vs)
  define u' where "u' = (if is_may m then bv_or BV u v else bv_and BV u v)"
  have "meet_step BV m v u = Inr u'"
    using meet_ok(2) by (cases m) (auto simp: meet_step_def u'_def is_may_def)
  moreover have "bv_size BV u' = n"
    using Cons.prems by (simp add: u'_def bits_simps)
  moreover have "meet_value m (bits BV u' # Xs) = meet_value m (bits BV u # bits BV v # Xs)" for Xs
    by (auto simp: meet_value_def u'_def bits_simps)
  ultimately show ?case
    using Cons.IH [of u'] Cons.prems by simp
qed

lemma applyMeetOp_ok:
  assumes "inputs \<noteq> []" and "\<And>v. v \<in> set inputs \<Longrightarrow> bv_size BV v = n"
  shows "\<exists>w. applyMeetOp BV m inputs = Inr w \<and> bv_size BV w = n \<and>
    bits BV w = meet_value m (map (bits BV) inputs)"
proof (cases inputs)
  case Nil
  with assms(1) show ?thesis by simp
next
  case (Cons u vs)
  then show ?thesis
    using meet_fold [of vs u] assms(2) by (simp add: applyMeetOp_def)
qed

text \<open>What holds of the engine's state between two visits.\<close>

definition good :: "(block \<Rightarrow> 'bv block_result) \<Rightarrow> bool" where
  "good res \<longleftrightarrow>
     (\<forall>b\<in>B. bv_size BV (element (transferOutput (res b))) = n \<and>
        (\<forall>p w. map_of (neighborVals (transferOutput (res b))) p = Some w \<longrightarrow> bv_size BV w = n)) \<and>
     (\<forall>b. bits BV (block_output dir (res b)) = st_E (ast res) b) \<and>
     (\<forall>b\<in>set order. nbrs b = [] \<longrightarrow> block_input dir (res b) = block_input dir (res0 b))"

text \<open>What a visit establishes of the block it visits: vectors of the full size.\<close>

definition fits :: "(block \<Rightarrow> 'bv block_result) \<Rightarrow> block \<Rightarrow> bool" where
  "fits res b \<longleftrightarrow> bv_size BV (block_output dir (res b)) = n \<and>
     (nbrs b \<noteq> [] \<longrightarrow> bv_size BV (block_input dir (res b)) = n)"

lemma good_res0: "good res0"
  using res0_size res0_E res0_output res0_input by (simp add: good_def res0_nv abs_state_sel)

lemma abs_res0: "ast res0 = init"
  by (simp add: abs_state_def init_def res0_E res0_nv nv_bits_def fun_eq_iff)

lemma neighbor_value_bits:
  assumes "good res" and "p \<in> B"
  shows "bv_size BV (neighbor_value BV res b p) = n"
    and "bits BV (neighbor_value BV res b p) = st_E (ast res) p \<union> st_V (ast res) p b"
  using assms
  by (auto simp: neighbor_value_def good_def nv_bits_def bits_simps Let_def abs_state_sel
      split: option.splits)

lemma visit_input:
  assumes "good res" and b: "b \<in> set order"
  shows "\<exists>v. (if map (neighbor_value BV res b) (nbrs b) \<noteq> []
      then applyMeetOp BV (an_meetup_op A) (map (neighbor_value BV res b) (nbrs b))
      else Inr (block_input dir (res b))) = Inr v \<and> ok v \<and> bits BV v = inp (ast res) b \<and>
    (if nbrs b = [] then v = block_input dir (res0 b) else bv_size BV v = n)"
proof (cases "nbrs b = []")
  case True
  then show ?thesis
    using assms res0_input by (simp add: good_def meet_input_def)
next
  case False
  let ?vs = "map (neighbor_value BV res b) (nbrs b)"
  have nb: "p \<in> B" if "p \<in> set (nbrs b)" for p
    using nbrs_B [OF b] that by blast
  have "\<exists>w. applyMeetOp BV m ?vs = Inr w \<and> bv_size BV w = n \<and>
      bits BV w = meet_value m (map (bits BV) ?vs)"
    using False nb neighbor_value_bits(1) [OF assms(1)] by (intro applyMeetOp_ok) auto
  then obtain w where w: "applyMeetOp BV m ?vs = Inr w" "bv_size BV w = n"
      "bits BV w = meet_value m (map (bits BV) ?vs)"
    by blast
  have "map (bits BV) ?vs = map (\<lambda>p. st_E (ast res) p \<union> st_V (ast res) p b) (nbrs b)"
    unfolding map_map using neighbor_value_bits(2) [OF assms(1) nb] by (intro map_cong) simp_all
  then have "bits BV w = inp (ast res) b"
    using False by (simp only: w(3) meet_input_def if_False)
  then show ?thesis
    using False ok_size [OF w(2)] meet_ok(1) w(1,2) by simp
qed

text \<open>The refinement step: a visit of the code is a visit of the abstract iteration.\<close>

lemma visit_refines:
  assumes "good res" and b: "b \<in> set order"
  shows "\<exists>res'. visit b (res, c) = Inr (res', c \<and> \<not> changed (ast res) b) \<and> good res' \<and>
    ast res' = vis b (ast res) \<and> (\<forall>d. d \<noteq> b \<longrightarrow> res' d = res d) \<and>
    bits BV (block_input dir (res' b)) = inp (ast res) b \<and> fits res' b"
proof -
  let ?X = "inp (ast res) b"
  obtain v where v: "(if map (neighbor_value BV res b) (nbrs b) \<noteq> []
      then applyMeetOp BV (an_meetup_op A) (map (neighbor_value BV res b) (nbrs b))
      else Inr (block_input dir (res b))) = Inr v" "ok v" "bits BV v = ?X"
      "if nbrs b = [] then v = block_input dir (res0 b) else bv_size BV v = n"
    using visit_input [OF assms] by blast
  obtain out where out: "an_transferFn A v domain d2i b = Inr out" "bv_size BV (element out) = n"
      "bits BV (element out) = F b ?X" "nv_bits BV out = NV b ?X"
      "length (neighborVals out) = NK b ?X"
      "\<And>p w. map_of (neighborVals out) p = Some w \<Longrightarrow> bv_size BV w = n"
    using transfer_ok [OF b v(2)] v(3) by auto
  define new where "new = (if dir = FORWARD
      then \<lparr>res_in = v, res_out = element out, transferOutput = out\<rparr>
      else \<lparr>res_in = element out, res_out = v, transferOutput = out\<rparr>)"
  have new: "block_input dir new = v" "block_output dir new = element out" "transferOutput new = out"
    by (simp_all add: new_def block_input_def block_output_def)
  have "bits BV (block_output dir (res b)) = bits BV (element (transferOutput (res b)))"
    using assms(1) by (simp add: good_def abs_state_sel)
  then have "visit b (res, c) = Inr (res(b := new), c \<and> \<not> changed (ast res) b)"
    using v(1) out(1,3,5) by (simp add: visit_block_def Let_def new_def changed_def bits_simps abs_state_sel)
  moreover have "ast (res(b := new)) = vis b (ast res)"
    using out(3-5) new(3) by (simp add: abs_state_def avisit_def Let_def fun_eq_iff)
  moreover have "good (res(b := new))"
    using assms(1) out new v by (auto simp: good_def meet_input_def abs_state_sel)
  moreover have "bits BV (block_input dir ((res(b := new)) b)) = ?X" "fits (res(b := new)) b"
    using new(1,2) v(3,4) out(2) by (simp_all add: fits_def)
  ultimately show ?thesis by auto
qed

lemma sweep_refines:
  assumes "good res" and "set bs \<subseteq> set order"
  shows "\<exists>res' c'. fold_res visit bs (res, c) = Inr (res', c \<and> c') \<and> good res' \<and>
    asweep bs (ast res) = (ast res', c') \<and> (\<forall>d. d \<notin> set bs \<longrightarrow> res' d = res d) \<and>
    (\<forall>b. b \<in> set bs \<or> fits res b \<longrightarrow> fits res' b) \<and>
    (inv (ast res) \<longrightarrow> c' \<longrightarrow> (\<forall>b\<in>set bs. bits BV (block_input dir (res' b)) = inp (ast res) b))"
  using assms
proof (induction bs arbitrary: res c)
  case Nil
  then show ?case by (intro exI [of _ res] exI [of _ True]) simp
next
  case (Cons b bs)
  have b: "b \<in> set order" and bs: "set bs \<subseteq> set order" using Cons.prems(2) by simp_all
  obtain res1 where r1: "visit b (res, c) = Inr (res1, c \<and> \<not> changed (ast res) b)" "good res1"
      "ast res1 = vis b (ast res)" "\<And>d. d \<noteq> b \<Longrightarrow> res1 d = res d"
      "bits BV (block_input dir (res1 b)) = inp (ast res) b" "fits res1 b"
    using visit_refines [OF Cons.prems(1) b, of c] by blast
  obtain res' c' where r': "fold_res visit bs (res1, c \<and> \<not> changed (ast res) b) =
        Inr (res', (c \<and> \<not> changed (ast res) b) \<and> c')" "good res'"
      "asweep bs (ast res1) = (ast res', c')" "\<And>d. d \<notin> set bs \<Longrightarrow> res' d = res1 d"
      "\<And>b. b \<in> set bs \<or> fits res1 b \<Longrightarrow> fits res' b"
      "inv (ast res1) \<Longrightarrow> c' \<Longrightarrow>
        (\<forall>b\<in>set bs. bits BV (block_input dir (res' b)) = inp (ast res1) b)"
    using Cons.IH [OF r1(2) bs, of "c \<and> \<not> changed (ast res) b"] by blast
  have "\<forall>d\<in>set (b # bs). bits BV (block_input dir (res' d)) = inp (ast res) d"
    if "inv (ast res)" "\<not> changed (ast res) b" "c'"
  proof -
    have "ast res1 = ast res"
      using not_changed [OF that(1) b that(2)] r1(3) by simp
    then show ?thesis
      using r'(4,6) r1(5) that by (metis set_ConsD)
  qed
  moreover have "fits res' d" if "d \<in> set (b # bs) \<or> fits res d" for d
  proof -
    have "fits res1 d" if "d = b \<or> fits res d"
      using that r1(4) [of d] r1(6) by (cases "d = b") (simp_all add: fits_def)
    then show ?thesis
      using r'(5) that by auto
  qed
  ultimately show ?case
    using r1 r' by (intro exI [of _ res'] exI [of _ "\<not> changed (ast res) b \<and> c'"]) auto
qed

text \<open>From a state that satisfies the invariant the loop returns, at a state no visit changes.\<close>

definition settled :: "(block \<Rightarrow> 'bv block_result) \<Rightarrow> bool" where
  "settled res \<longleftrightarrow> good res \<and> inv (ast res) \<and>
     (\<forall>b\<in>set order. vis b (ast res) = ast res \<and> fits res b \<and>
        bits BV (block_input dir (res b)) = inp (ast res) b)"

abbreviation "loop \<equiv> converge (sweep BV A domain d2i nbrs order)"

lemma loop_returns:
  assumes "good res" and "inv (ast res)"
  shows "\<exists>res'. loop res = Some (Inr res') \<and> settled res' \<and> (\<forall>d. d \<notin> set order \<longrightarrow> res' d = res d) \<and>
    (\<forall>E V. solution E V \<longrightarrow> below (ast res) E V \<longrightarrow> below (ast res') E V)"
  using assms
proof (induction "rank (ast res)" arbitrary: res rule: less_induct)
  case less
  obtain res1 c where s: "sweep BV A domain d2i nbrs order res = Inr (res1, c)" and g: "good res1"
    and a: "asweep order (ast res) = (ast res1, c)" and fr: "\<And>d. d \<notin> set order \<Longrightarrow> res1 d = res d"
    and i: "c \<Longrightarrow> (\<forall>b\<in>set order. bits BV (block_input dir (res1 b)) = inp (ast res) b)"
    and fi: "\<forall>b\<in>set order. fits res1 b"
    using sweep_refines [OF less.prems(1), of order True] less.prems(2)
    by (auto simp: sweep_def)
  note p = asweep_props [OF less.prems(2) subset_refl a]
  have be: "below (ast res1) E V" if "solution E V" "below (ast res) E V" for E V
    using asweep_below [OF that, of order] a by simp
  have unfold: "loop res = (if c then Some (Inr res1) else loop res1)"
    by (subst converge.simps) (simp add: s)
  show ?case
  proof (cases c)
    case True
    then have eq: "ast res1 = ast res" using p by simp
    then have "settled res1"
      unfolding settled_def using p g i fi True by (metis (no_types))
    then show ?thesis
      using unfold True be fr by auto
  next
    case False
    then have "rank (ast res1) < rank (ast res)" and inv: "inv (ast res1)" using p by auto
    from less.hyps [OF this(1) g inv] show ?thesis
      using unfold False be fr by (metis (no_types, lifting))
  qed
qed

lemma first_sweep:
  assumes "order = b0 # rest"
  shows "\<exists>res1. (\<exists>c. visit b0 (res0, True) = Inr (res1, c) \<and> (c \<longrightarrow> ast res1 = init)) \<and>
    good res1 \<and> ast res1 = vis b0 init \<and>
    (\<forall>d. d \<noteq> b0 \<longrightarrow> res1 d = res0 d) \<and> bits BV (block_input dir (res1 b0)) = inp init b0 \<and>
    fits res1 b0"
proof -
  have "b0 \<in> set order" using assms by simp
  from visit_refines [OF good_res0 this, of True] obtain res1 where
    r: "visit b0 (res0, True) = Inr (res1, True \<and> \<not> changed init b0)" "good res1"
      "ast res1 = vis b0 init" "\<And>d. d \<noteq> b0 \<Longrightarrow> res1 d = res0 d"
      "bits BV (block_input dir (res1 b0)) = inp init b0" "fits res1 b0"
    unfolding abs_res0 by blast
  then show ?thesis
    using not_changed_init [of b0] by (intro exI [of _ res1]) auto
qed

theorem run_returns:
  "\<exists>res. loop res0 = Some (Inr res) \<and> (\<forall>d. d \<notin> set order \<longrightarrow> res d = res0 d) \<and>
     solution (st_E (ast res)) (st_V (ast res)) \<and>
     (\<forall>b\<in>set order. bits BV (block_input dir (res b)) = inp (ast res) b \<and>
        bits BV (block_output dir (res b)) = st_E (ast res) b \<and> fits res b \<and>
        (nbrs b = [] \<longrightarrow> block_input dir (res b) = block_input dir (res0 b))) \<and>
     (\<forall>E V. solution E V \<longrightarrow> (\<forall>b. E b \<subseteq> {..<n}) \<longrightarrow> (\<forall>b. L (st_E (ast res) b) (E b)))"
proof (cases order)
  case Nil
  have "loop res0 = Some (Inr res0)"
    by (subst converge.simps) (simp add: sweep_def Nil)
  then show ?thesis
    using Nil by (auto simp: abs_res0 init_def df_solution_def)
next
  case (Cons b0 rest)
  obtain res1 c where v: "visit b0 (res0, True) = Inr (res1, c)" "c \<Longrightarrow> ast res1 = init"
    and g: "good res1" and a: "ast res1 = vis b0 init"
    and fr1: "\<And>d. d \<noteq> b0 \<Longrightarrow> res1 d = res0 d"
    and i1: "bits BV (block_input dir (res1 b0)) = inp init b0" and fi1: "fits res1 b0"
    using first_sweep [OF Cons] by blast
  have inv: "inv (ast res1)"
    unfolding a by (rule first_vis_inv [OF Cons])
  have rest: "set rest \<subseteq> set order" using Cons by auto
  obtain res2 c2 where s2: "fold_res visit rest (res1, c) = Inr (res2, c \<and> c2)" and g2: "good res2"
    and a2: "asweep rest (ast res1) = (ast res2, c2)" and fr2: "\<And>d. d \<notin> set rest \<Longrightarrow> res2 d = res1 d"
    and i2: "c2 \<Longrightarrow> (\<forall>b\<in>set rest. bits BV (block_input dir (res2 b)) = inp (ast res1) b)"
    and fi2: "\<And>b. b \<in> set rest \<or> fits res1 b \<Longrightarrow> fits res2 b"
    using sweep_refines [OF g rest, of c] inv by blast
  note p = asweep_props [OF inv rest a2]
  have sw: "sweep BV A domain d2i nbrs order res0 = Inr (res2, c \<and> c2)"
    using v(1) s2 by (simp add: sweep_def Cons)
  have fin: "\<exists>res. loop res0 = Some (Inr res) \<and> settled res \<and> (\<forall>d. d \<notin> set order \<longrightarrow> res d = res0 d) \<and>
      (\<forall>E V. solution E V \<longrightarrow> below (ast res1) E V \<longrightarrow> below (ast res) E V)"
  proof (cases "c \<and> c2")
    case True
    have eq: "ast res2 = ast res1" using p True by simp
    have vs: "vis b (ast res2) = ast res2" if "b \<in> set order" for b
      using p True eq that Cons v(2) a by auto
    have "bits BV (block_input dir (res2 b)) = inp (ast res2) b" if "b \<in> set order" for b
      using i2 i1 fr2 [of b0] that True Cons eq v(2) by (cases "b \<in> set rest") auto
    moreover have "fits res2 b" if "b \<in> set order" for b
      using fi1 fi2 [of b] that Cons by auto
    ultimately have "settled res2"
      using vs p g2 by (auto simp: settled_def)
    moreover have "loop res0 = Some (Inr res2)"
      by (subst converge.simps) (simp add: sw True)
    ultimately show ?thesis
      using fr1 fr2 Cons eq by auto
  next
    case False
    have "loop res0 = loop res2"
      by (subst converge.simps) (use sw False in auto)
    moreover have "below (ast res2) E V" if "solution E V" "below (ast res1) E V" for E V
      using asweep_below [OF that rest] a2 by simp
    ultimately show ?thesis
      using loop_returns [OF g2] p fr1 fr2 Cons by (auto 0 4)
  qed
  then obtain res where res: "loop res0 = Some (Inr res)" "settled res"
      "\<forall>d. d \<notin> set order \<longrightarrow> res d = res0 d"
      "\<And>E V. solution E V \<Longrightarrow> below (ast res1) E V \<Longrightarrow> below (ast res) E V"
    by blast
  have "solution (st_E (ast res)) (st_V (ast res))"
    using res(2) by (intro stable_solution) (auto simp: settled_def)
  moreover have "L (st_E (ast res) b) (E b)" if "solution E V" "\<forall>b. E b \<subseteq> {..<n}" for E V b
    using res(4) [OF that(1)] solution_bounded_below [OF that(1) _ Cons] that(2) a
    unfolding below_def by auto
  ultimately show ?thesis
    using res(1-3) by (auto simp: settled_def good_def)
qed

end

end
