(* ===== verification/IR.thy ===== *)
theory IR
  imports Dataflow
begin

section \<open>Functions, blocks and instructions as the passes see them\<close>

text \<open>
  The passes read LLVM functions through its API. This theory holds that data: values,
  instructions with their operands, and functions as a control flow graph with the instructions
  of each block. A pointer is a number, so pointer equality is equality of values; LLVM keeps one
  \<open>ConstantInt\<close> object for each width and value, so equality is right for constants too.
  \<open>wf_cfg\<close> states what LLVM guarantees of a function's graph and traversals.
\<close>

datatype ir_value =
    VInst nat
  | VArg nat
  | VConst nat int
  | VOther nat

datatype opcode =
    Add | FAdd | Sub | FSub | Mul | FMul | UDiv | SDiv | FDiv | URem | SRem | FRem
  | Shl | LShr | AShr | And | Or | Xor

text \<open>
  An instruction: its identity, its operands, its incoming values when it is a phi node, its
  opcode when it is a \<open>BinaryOperator\<close>, and the answers to the classification queries.
\<close>

record instr =
  in_id :: nat
  in_ops :: "ir_value list"
  in_phi :: "(ir_value \<times> block) list option"
  in_binop :: "opcode option"
  in_terminator :: bool
  in_dbginfo :: bool
  in_landingpad :: bool
  in_sideeffects :: bool
  in_speculatable :: bool
  in_readsmem :: bool

record ir_function = llvm_cfg +
  fn_insns :: "block \<Rightarrow> instr list"
  fn_vname :: "ir_value \<Rightarrow> string"

text \<open>\<open>isa<Instruction>(v) || isa<Argument>(v)\<close>, and the instruction as a value.\<close>

definition is_tracked :: "ir_value \<Rightarrow> bool" where
  "is_tracked v = (case v of VInst _ \<Rightarrow> True | VArg _ \<Rightarrow> True | _ \<Rightarrow> False)"

definition is_instruction :: "ir_value \<Rightarrow> bool" where
  "is_instruction v = (case v of VInst _ \<Rightarrow> True | _ \<Rightarrow> False)"

definition self :: "instr \<Rightarrow> ir_value" where
  "self i = VInst (in_id i)"

text \<open>\<open>inst_begin(F)\<close> to \<open>inst_end(F)\<close>: all instructions in layout order.\<close>

definition all_insns :: "'z ir_function_scheme \<Rightarrow> instr list" where
  "all_insns F = concat (map (fn_insns F) (fn_blocks F))"

subsection \<open>Reachability and the guarantees of LLVM\<close>

definition entry :: "'z llvm_cfg_scheme \<Rightarrow> block" where
  "entry G = hd (fn_blocks G)"

inductive reach :: "'z llvm_cfg_scheme \<Rightarrow> block \<Rightarrow> bool" for G where
  reach_entry: "reach G (entry G)"
| reach_succ: "reach G a \<Longrightarrow> b \<in> set (fn_succs G a) \<Longrightarrow> reach G b"

definition wf_cfg :: "'z llvm_cfg_scheme \<Rightarrow> bool" where
  "wf_cfg G \<longleftrightarrow>
     fn_blocks G \<noteq> [] \<and> distinct (fn_blocks G) \<and>
     (\<forall>a\<in>set (fn_blocks G). set (fn_succs G a) \<subseteq> set (fn_blocks G)) \<and>
     (\<forall>b\<in>set (fn_blocks G). \<forall>a. a \<in> set (fn_preds G b) \<longleftrightarrow>
        a \<in> set (fn_blocks G) \<and> b \<in> set (fn_succs G a)) \<and>
     fn_preds G (entry G) = [] \<and>
     (\<forall>b\<in>set (fn_blocks G). fn_ret G b \<longrightarrow> fn_succs G b = []) \<and>
     (\<forall>b. b \<in> set (fn_rpo G) \<longleftrightarrow> reach G b) \<and> hd (fn_rpo G) = entry G \<and>
     (\<forall>b. b \<in> set (fn_po G) \<longleftrightarrow> reach G b)"

lemma entry_in_blocks: "wf_cfg G \<Longrightarrow> entry G \<in> set (fn_blocks G)"
  by (simp add: wf_cfg_def entry_def)

lemma reach_in_blocks: "reach G b \<Longrightarrow> wf_cfg G \<Longrightarrow> b \<in> set (fn_blocks G)"
proof (induction rule: reach.induct)
  case reach_entry
  then show ?case by (rule entry_in_blocks)
next
  case (reach_succ a b)
  then show ?case by (auto simp: wf_cfg_def)
qed

lemma reach_pred:
  "wf_cfg G \<Longrightarrow> reach G b \<Longrightarrow> b \<noteq> entry G \<Longrightarrow> \<exists>a. reach G a \<and> a \<in> set (fn_preds G b)"
proof (erule reach.cases)
  fix a c
  assume "wf_cfg G" and "b = c" and "reach G a" and "c \<in> set (fn_succs G a)"
  moreover from this have "a \<in> set (fn_blocks G)" and "c \<in> set (fn_blocks G)"
    by (auto intro: reach_in_blocks reach_succ)
  ultimately show ?thesis by (auto simp: wf_cfg_def)
qed simp

lemma pred_iff_succ:
  "wf_cfg G \<Longrightarrow> b \<in> set (fn_blocks G) \<Longrightarrow>
    a \<in> set (fn_preds G b) \<longleftrightarrow> a \<in> set (fn_blocks G) \<and> b \<in> set (fn_succs G a)"
  by (simp add: wf_cfg_def)

subsection \<open>The index map of a domain without repetitions\<close>

lemma index_from_notin: "d \<notin> set ds \<Longrightarrow> map_of (index_from i ds m) d = map_of m d"
  by (induction ds arbitrary: i m) (auto simp: update_conv')

lemma index_from_nth:
  "distinct ds \<Longrightarrow> k < length ds \<Longrightarrow> map_of (index_from i ds m) (ds ! k) = Some (i + k)"
proof (induction ds arbitrary: i m k)
  case (Cons d ds)
  show ?case
  proof (cases k)
    case 0
    with Cons.prems show ?thesis by (simp add: index_from_notin update_conv')
  next
    case (Suc k')
    with Cons.prems Cons.IH [of k' "Suc i"] show ?thesis by simp
  qed
qed simp

lemma index_from_zip:
  "distinct ds \<Longrightarrow> set ds \<inter> fst ` set m = {} \<Longrightarrow> index_from i ds m = m @ zip ds [i..<i + length ds]"
proof (induction ds arbitrary: i m)
  case (Cons d ds)
  have "d \<notin> fst ` set m" using Cons.prems(2) by auto
  then have "AList.update d i m = m @ [(d, i)]" by (rule update_new)
  moreover have "index_from (Suc i) ds (m @ [(d, i)]) = (m @ [(d, i)]) @ zip ds [Suc i..<Suc i + length ds]"
    using Cons.prems by (intro Cons.IH) auto
  ultimately show ?case by (simp add: upt_conv_Cons del: upt_Suc)
qed simp

lemma index_domain_zip: "distinct ds \<Longrightarrow> index_domain ds = zip ds [0..<length ds]"
  using index_from_zip [of ds "[]" 0] by (simp add: index_domain_def)

lemma index_from_length:
  "distinct ds \<Longrightarrow> set ds \<inter> fst ` set m = {} \<Longrightarrow> length (index_from i ds m) = length ds + length m"
proof (induction ds arbitrary: i m)
  case (Cons d ds)
  have "d \<notin> fst ` set m" using Cons.prems(2) by auto
  then have "length (AList.update d i m) = Suc (length m)"
    by (rule update_length_new)
  moreover have "set ds \<inter> fst ` set (AList.update d i m) = {}"
    using Cons.prems by (auto simp: dom_update)
  ultimately show ?case using Cons by simp
qed simp

definition idx :: "'d list \<Rightarrow> 'd \<Rightarrow> nat" where
  "idx ds d = the (map_of (index_domain ds) d)"

lemma index_domain_notin: "d \<notin> set ds \<Longrightarrow> map_of (index_domain ds) d = None"
  by (simp add: index_domain_def index_from_notin)

lemma index_domain_length: "distinct ds \<Longrightarrow> length (index_domain ds) = length ds"
  by (simp add: index_domain_def index_from_length)

lemma idx_nth: "distinct ds \<Longrightarrow> k < length ds \<Longrightarrow> idx ds (ds ! k) = k"
  by (simp add: idx_def index_domain_def index_from_nth)

lemma index_domain_in:
  assumes "distinct ds" and "d \<in> set ds"
  shows "map_of (index_domain ds) d = Some (idx ds d)" and "idx ds d < length ds"
    and "ds ! idx ds d = d"
proof -
  obtain k where "k < length ds" and "d = ds ! k"
    using assms(2) by (auto simp: in_set_conv_nth)
  with assms(1) show "map_of (index_domain ds) d = Some (idx ds d)" and "idx ds d < length ds"
    and "ds ! idx ds d = d"
    by (simp_all add: idx_nth index_domain_def index_from_nth)
qed

lemma index_domain_find:
  "distinct ds \<Longrightarrow> map_of (index_domain ds) d = (if d \<in> set ds then Some (idx ds d) else None)"
  by (simp add: index_domain_in index_domain_notin)

lemma idx_inj: "distinct ds \<Longrightarrow> inj_on (idx ds) (set ds)"
  by (rule inj_on_inverseI [of _ "(!) ds"]) (simp add: index_domain_in)

lemma idx_image_mem:
  "distinct ds \<Longrightarrow> d \<in> set ds \<Longrightarrow> X \<subseteq> set ds \<Longrightarrow> idx ds d \<in> idx ds ` X \<longleftrightarrow> d \<in> X"
  using idx_inj [of ds] by (meson imageI inj_on_image_mem_iff)

end
