(* ===== verification/IndexSets.thy ===== *)
theory IndexSets
  imports IR
begin

section \<open>Bit vectors over a domain\<close>

text \<open>
  An analysis numbers the members of its domain and keeps sets of them as bit vectors. The locale
  \<open>domain_bits\<close> relates the two: \<open>holds v X\<close> when the vector \<open>v\<close> has the size of
  the domain and stores the set \<open>X\<close>, \<open>nv_holds\<close> the same for the vectors an analysis
  keeps for each neighbour. The analyses whose domain holds values extend it.
\<close>

locale domain_bits = bitvector BV for BV :: "'bv bitvec_ops" +
  fixes D :: "'d list"
  assumes domain_distinct: "distinct D"
begin

abbreviation "n \<equiv> length D"
abbreviation "ix \<equiv> idx D"
abbreviation "d2i \<equiv> index_domain D"

lemma d2i_find: "map_of d2i v = (if v \<in> set D then Some (ix v) else None)"
  by (rule index_domain_find [OF domain_distinct])

lemma d2i_index: "v \<in> set D \<Longrightarrow> map_index 0 d2i v = (ix v, d2i)"
  by (simp add: map_index_present d2i_find)

lemma ix_bound: "v \<in> set D \<Longrightarrow> ix v < n"
  by (rule index_domain_in [OF domain_distinct])

lemma ix_mem: "v \<in> set D \<Longrightarrow> X \<subseteq> set D \<Longrightarrow> ix v \<in> ix ` X \<longleftrightarrow> v \<in> X"
  by (rule idx_image_mem [OF domain_distinct])

lemma ix_image_bounded: "X \<subseteq> set D \<Longrightarrow> ix ` X \<subseteq> {..<n}"
  using ix_bound by auto

lemma ix_image_diff: "X \<subseteq> set D \<Longrightarrow> Y \<subseteq> set D \<Longrightarrow> ix ` X - ix ` Y = ix ` (X - Y)"
  using inj_on_image_set_diff [OF idx_inj [OF domain_distinct], of X Y] by auto

lemma length_d2i: "length d2i = n"
  by (rule index_domain_length [OF domain_distinct])

definition holds :: "'bv \<Rightarrow> 'd set \<Rightarrow> bool" where
  "holds v X \<longleftrightarrow> bv_size BV v = n \<and> bits BV v = ix ` X"

definition nv_holds :: "(block \<times> 'bv) list \<Rightarrow> (block \<Rightarrow> 'd set) \<Rightarrow> bool" where
  "nv_holds nv f \<longleftrightarrow>
     (\<forall>p. case map_of nv p of None \<Rightarrow> f p = {} | Some w \<Rightarrow> holds w (f p))"

lemma holds_make: "holds (bv_make BV n False) {}"
  by (simp add: holds_def bits_simps)

lemma holds_set:
  assumes "holds v X" and "x \<in> set D"
  shows "\<exists>w. bv_set BV v (ix x) = Inr w \<and> holds w (insert x X)"
  using assms bv_set_Inr [of "ix x" v] ix_bound [OF assms(2)] by (auto simp: holds_def)

lemma holds_reset:
  assumes "holds v X" and "x \<in> set D" and "X \<subseteq> set D"
  shows "\<exists>w. bv_reset BV v (ix x) = Inr w \<and> holds w (X - {x})"
proof -
  have "ix ` X - {ix x} = ix ` (X - {x})"
    using idx_inj [OF domain_distinct] assms(2,3) by (auto simp: inj_on_def)
  then show ?thesis
    using assms(1) bv_reset_Inr [of "ix x" v] ix_bound [OF assms(2)] by (auto simp: holds_def)
qed

lemma holds_get:
  "holds v X \<Longrightarrow> x \<in> set D \<Longrightarrow> X \<subseteq> set D \<Longrightarrow> bv_get BV v (ix x) = Inr (x \<in> X)"
  using bv_get_bits [of "ix x" v] ix_bound [of x] ix_mem [of x X] by (simp add: holds_def)

lemma nv_holds_Nil: "nv_holds [] (\<lambda>_. {})"
  by (simp add: nv_holds_def)

lemma nv_holds_update:
  "nv_holds nv f \<Longrightarrow> holds u X \<Longrightarrow> nv_holds (AList.update p u nv) (f(p := X))"
  unfolding nv_holds_def
proof (intro allI)
  fix q
  assume nv: "\<forall>p. case map_of nv p of None \<Rightarrow> f p = {} | Some w \<Rightarrow> holds w (f p)" and "holds u X"
  show "case map_of (AList.update p u nv) q of None \<Rightarrow> (f(p := X)) q = {}
      | Some w \<Rightarrow> holds w ((f(p := X)) q)"
  proof (cases "q = p")
    case True
    with \<open>holds u X\<close> show ?thesis by (simp add: update_conv')
  next
    case False
    with nv [rule_format, of q] show ?thesis
      by (cases "map_of nv q") (simp_all add: update_conv')
  qed
qed

text \<open>The lookup that creates an empty vector for a neighbour without one.\<close>

lemma nv_holds_ensure:
  fixes p :: block
  assumes "nv_holds nv f"
  defines "nv' \<equiv> if map_of nv p = None then AList.update p (bv_make BV n False) nv else nv"
  shows "nv_holds nv' f" and "\<exists>w. map_of nv' p = Some w \<and> holds w (f p)"
proof -
  have fp: "f p = {}" if "map_of nv p = None"
    using assms(1) that unfolding nv_holds_def by (metis (mono_tags) option.simps(4))
  then show "nv_holds nv' f" and "\<exists>w. map_of nv' p = Some w \<and> holds w (f p)"
    using assms(1) holds_make unfolding nv'_def nv_holds_def
    by (auto simp: update_conv' split: option.splits)
qed

lemma nv_holds_bits:
  "nv_holds nv f \<Longrightarrow> (case map_of nv p of None \<Rightarrow> {} | Some v \<Rightarrow> bits BV v) = ix ` f p"
  unfolding nv_holds_def holds_def by (metis (mono_tags, lifting) image_empty option.case_eq_if)

lemma nv_holds_size: "nv_holds nv f \<Longrightarrow> map_of nv p = Some w \<Longrightarrow> bv_size BV w = n"
  unfolding nv_holds_def holds_def by (metis (mono_tags, lifting) option.simps(5))

end

end
