(* ===== verification/Printing.thy ===== *)
theory Printing
  imports IR
begin

section \<open>Expressions and the text of the reports\<close>

text \<open>
  The expression class and the printing helpers of \<open>asst2/ClassicalDataflow/dataflow.cpp\<close>.
  How LLVM prints a value is a parameter, the record \<open>value_printer\<close>.
\<close>

record value_printer =
  vp_name :: "ir_value \<Rightarrow> string"
  vp_print :: "ir_value \<Rightarrow> string"
  vp_apint :: "nat \<Rightarrow> int \<Rightarrow> string"

definition WIDTH :: nat where
  "WIDTH = 60"

subsection \<open>Expressions\<close>

record expression =
  ex_v1 :: ir_value
  ex_v2 :: ir_value
  ex_op :: opcode

text \<open>
  The constructor on an instruction: its first two operands and its opcode. On anything but a
  binary operator it leaves the fields uninitialised, which is undefined to read.
\<close>

definition expression_of :: "instr \<Rightarrow> expression result" where
  "expression_of I =
     (case in_binop I of
        Some op \<Rightarrow> (case in_ops I of
            v1 # v2 # _ \<Rightarrow> Inr \<lparr>ex_v1 = v1, ex_v2 = v2, ex_op = op\<rparr>
          | _ \<Rightarrow> Inl OutOfRange)
      | None \<Rightarrow> Inl Undefined)"

definition expr_eq :: "expression \<Rightarrow> expression \<Rightarrow> bool" where
  "expr_eq e1 e2 = (ex_v1 e1 = ex_v1 e2 \<and> ex_v2 e1 = ex_v2 e2 \<and> ex_op e1 = ex_op e2)"

text \<open>\<open>operator<\<close> compares addresses of values and numbers of opcodes, which LLVM chooses.\<close>

definition expr_less ::
  "(ir_value \<Rightarrow> nat) \<Rightarrow> (opcode \<Rightarrow> nat) \<Rightarrow> expression \<Rightarrow> expression \<Rightarrow> bool" where
  "expr_less addr opnum e1 e2 =
     (if ex_v1 e1 = ex_v1 e2 then
        if ex_v2 e1 = ex_v2 e2 then
          if ex_op e1 = ex_op e2 then False else opnum (ex_op e1) < opnum (ex_op e2)
        else addr (ex_v2 e1) < addr (ex_v2 e2)
      else addr (ex_v1 e1) < addr (ex_v1 e2))"

fun op_text :: "opcode \<Rightarrow> string" where
  "op_text Add = ''+''" | "op_text FAdd = ''+''"
| "op_text Sub = ''-''" | "op_text FSub = ''-''"
| "op_text Mul = ''*''" | "op_text FMul = ''*''"
| "op_text UDiv = ''/''" | "op_text FDiv = ''/''" | "op_text SDiv = ''/''"
| "op_text URem = ''%''" | "op_text FRem = ''%''" | "op_text SRem = ''%''"
| "op_text Shl = ''<<''"
| "op_text AShr = ''>>''" | "op_text LShr = ''>>''"
| "op_text And = ''&''"
| "op_text Or = ''|''"
| "op_text Xor = ''xor''"

subsection \<open>Names of values\<close>

text \<open>\<open>s.find(c, from)\<close>: the first position at or after \<open>from\<close>, or \<open>npos\<close>.\<close>

fun find_from :: "char \<Rightarrow> string \<Rightarrow> nat \<Rightarrow> nat option" where
  "find_from c [] k = None"
| "find_from c (x # xs) 0 = (if x = c then Some 0 else map_option Suc (find_from c xs 0))"
| "find_from c (x # xs) (Suc k) = map_option Suc (find_from c xs k)"

definition substr :: "string \<Rightarrow> nat \<Rightarrow> nat \<Rightarrow> string" where
  "substr s pos len = take len (drop pos s)"

definition getShortValueName :: "value_printer \<Rightarrow> ir_value \<Rightarrow> string" where
  "getShortValueName P v =
     (if length (vp_name P v) > 0 then ''%'' @ vp_name P v
      else case v of
        VInst _ \<Rightarrow>
          (let inst = vp_print P v
           in case find_from CHR ''%'' inst 0 of
                None \<Rightarrow> [CHR 0x22] @ inst @ [CHR 0x22]
              | Some idx1 \<Rightarrow>
                  (case find_from CHR '' '' inst idx1 of
                     None \<Rightarrow> [CHR 0x22] @ inst @ [CHR 0x22]
                   | Some idx2 \<Rightarrow> substr inst idx1 (idx2 - idx1)))
      | VConst w k \<Rightarrow> vp_apint P w k
      | _ \<Rightarrow> [CHR 0x22] @ vp_print P v @ [CHR 0x22])"

definition toString :: "value_printer \<Rightarrow> expression \<Rightarrow> string" where
  "toString P e =
     getShortValueName P (ex_v1 e) @ '' '' @ op_text (ex_op e) @ '' '' @
       getShortValueName P (ex_v2 e)"

definition printValue :: "value_printer \<Rightarrow> ir_value \<Rightarrow> string" where
  "printValue P v = vp_print P v"

subsection \<open>Printing a set\<close>

text \<open>
  The loop over the domain, with the switch on the mode as an argument: the text of an element,
  or \<open>None\<close> for a mode the switch rejects. Reading bit \<open>i\<close> of a shorter vector fails.
\<close>

definition printSet_step ::
  "'bv bitvec_ops \<Rightarrow> ('d \<Rightarrow> string option) \<Rightarrow> 'bv \<Rightarrow> 'd \<times> nat \<Rightarrow> string \<times> nat \<Rightarrow>
    (string \<times> nat) result" where
  "printSet_step BV text on di st =
     (let (d, i) = di; (ss, ind) = st
      in bind_res (bv_get BV on i) (\<lambda>b.
           if b then Inr (ss @ (if ind > 0 then '','' else []) @
                         (case text d of Some t \<Rightarrow> '' '' @ t | None \<Rightarrow> []), Suc ind)
           else Inr (ss, ind)))"

definition printSet ::
  "'bv bitvec_ops \<Rightarrow> ('d \<Rightarrow> string option) \<Rightarrow> 'd list \<Rightarrow> 'bv \<Rightarrow> string result" where
  "printSet BV text domain on =
     bind_res (fold_res (printSet_step BV text on) (zip domain [0..<length domain]) (''{'', 0))
       (\<lambda>(ss, _). Inr (ss @ '' }''))"

text \<open>The printer of a vector of expressions.\<close>

fun printExprs_from :: "value_printer \<Rightarrow> bool \<Rightarrow> expression list \<Rightarrow> string" where
  "printExprs_from P first [] = []"
| "printExprs_from P first (e # es) =
     (if \<not> first then '', '' else []) @ toString P e @ printExprs_from P False es"

definition printExprs :: "value_printer \<Rightarrow> expression list \<Rightarrow> string" where
  "printExprs P x = ''{'' @ printExprs_from P True x @ ''}'' @ [CHR 0x0A]"

text \<open>\<open>std::setw(w) << std::right\<close>, and the rule between blocks.\<close>

definition pad_left :: "nat \<Rightarrow> string \<Rightarrow> string" where
  "pad_left w s = replicate (w - length s) CHR '' '' @ s"

definition rule_line :: string where
  "rule_line = ''//===--------------------------------------------------------------------------------------------------------------------------===//''"

subsection \<open>What \<open>printSet\<close> prints\<close>

text \<open>The elements of a set in domain order, each after a blank and separated by commas.\<close>

fun set_items :: "string list \<Rightarrow> string" where
  "set_items [] = []"
| "set_items [t] = '' '' @ t"
| "set_items (t # ts) = '' '' @ t @ '','' @ set_items ts"

definition set_text :: "string list \<Rightarrow> string" where
  "set_text ts = ''{'' @ set_items ts @ '' }''"

lemma set_items_snoc:
  "set_items (ts @ [t]) = set_items ts @ (if ts = [] then [] else '','') @ '' '' @ t"
  by (induction ts rule: set_items.induct) simp_all

lemma printSet_step_only_fails: "only_fails OutOfRange (printSet_step BV text on di st)"
  unfolding printSet_step_def by (intro only_fails_intros)

lemma printSet_only_fails [only_fails_intros]: "only_fails OutOfRange (printSet BV text ds on)"
  unfolding printSet_def by (intro only_fails_intros printSet_step_only_fails)

context bitvector begin

lemma printSet_loop:
  fixes f :: "'d \<Rightarrow> string"
  assumes "k \<le> bv_size BV on" and "k \<le> length ds"
  defines "ts \<equiv> \<lambda>k. map (\<lambda>i. f (ds ! i)) (filter (\<lambda>i. i \<in> bits BV on) [0..<k])"
  shows "fold_res (printSet_step BV (Some \<circ> f) on) (map (\<lambda>i. (ds ! i, i)) [0..<k]) (''{'', 0) =
    Inr (''{'' @ set_items (ts k), length (ts k))"
  using assms(1,2)
proof (induction k)
  case 0
  then show ?case by (simp add: ts_def)
next
  case (Suc k)
  have "printSet_step BV (Some \<circ> f) on (ds ! k, k) (''{'' @ set_items (ts k), length (ts k)) =
      Inr (''{'' @ set_items (ts (Suc k)), length (ts (Suc k)))"
    using Suc.prems by (auto simp: printSet_step_def bv_get_bits ts_def set_items_snoc)
  then show ?case
    using Suc by (simp add: fold_res_append o_def)
qed

lemma printSet_bits:
  assumes "length ds \<le> bv_size BV on"
  shows "printSet BV (Some \<circ> f) ds on =
    Inr (set_text (map (\<lambda>i. f (ds ! i)) (filter (\<lambda>i. i \<in> bits BV on) [0..<length ds])))"
  using printSet_loop [of "length ds" on ds f] assms
  by (simp add: printSet_def set_text_def zip_index)

text \<open>On a vector that holds a subset of the domain, the members of the subset.\<close>

lemma printSet_members:
  assumes "distinct ds" and "bv_size BV on = length ds" and "bits BV on = idx ds ` X" and "X \<subseteq> set ds"
  shows "printSet BV (Some \<circ> f) ds on = Inr (set_text (map f (filter (\<lambda>d. d \<in> X) ds)))"
proof -
  have "i \<in> bits BV on \<longleftrightarrow> ds ! i \<in> X" if "i < length ds" for i
    using idx_image_mem [OF assms(1) _ assms(4), of "ds ! i"] idx_nth [OF assms(1) that] assms(3) that
    by simp
  then have "filter (\<lambda>i. i \<in> bits BV on) [0..<length ds] = filter (\<lambda>i. ds ! i \<in> X) [0..<length ds]"
    by (intro filter_cong) simp_all
  then have "map (\<lambda>i. f (ds ! i)) (filter (\<lambda>i. i \<in> bits BV on) [0..<length ds]) =
      map f (filter (\<lambda>d. d \<in> X) ds)"
    using filter_index [of "\<lambda>d. d \<in> X" ds] by simp
  then show ?thesis
    using printSet_bits [of ds on f] assms(2) by simp
qed

text \<open>A vector shorter than the domain cannot be printed.\<close>

lemma printSet_short:
  assumes "bv_size BV on < length ds"
  shows "printSet BV text ds on = Inl OutOfRange"
proof -
  have "fold_res (printSet_step BV text on) (zip ds [0..<length ds]) s = Inl OutOfRange" for s
  proof (rule fold_res_fails)
    show "(ds ! bv_size BV on, bv_size BV on) \<in> set (zip ds [0..<length ds])"
      using assms by (auto simp: zip_index)
    show "printSet_step BV text on (ds ! bv_size BV on, bv_size BV on) s = Inl OutOfRange" for s
      by (simp add: printSet_step_def bv_get_def split: prod.splits)
  qed (use printSet_step_only_fails in \<open>metis only_fails_def\<close>)
  then show ?thesis by (simp add: printSet_def)
qed

end

end
