(* ===== verification/Liveness.thy ===== *)
theory Liveness
  imports Engine IndexSets Printing
begin

section \<open>Live variable analysis\<close>

text \<open>
  \<open>asst2/ClassicalDataflow/liveness.cpp\<close>: the transfer function of \<open>LivenessAnalysis\<close>, the
  domain \<open>runOnFunction\<close> computes, and the report it prints. The values a phi node takes from
  a predecessor go into the neighbour-specific part of the output.
\<close>

record 'bv live_state =
  lv_def :: 'bv
  lv_use :: 'bv
  lv_nv :: "(block \<times> 'bv) list"
  lv_d2i :: "(ir_value \<times> nat) list"

definition live_phi_operand ::
  "'bv bitvec_ops \<Rightarrow> nat \<Rightarrow> ir_value \<times> block \<Rightarrow> 'bv live_state \<Rightarrow> 'bv live_state result" where
  "live_phi_operand BV domainSize inc s =
     (let (val, valBlock) = inc
      in if is_tracked val
         then (let nv = (if map_of (lv_nv s) valBlock = None
                         then AList.update valBlock (bv_make BV domainSize False) (lv_nv s)
                         else lv_nv s);
                   (valInd, d2i) = map_index 0 (lv_d2i s) val
               in bind_res (bv_set BV (the (map_of nv valBlock)) valInd) (\<lambda>v.
                    Inr (s\<lparr>lv_nv := AList.update valBlock v nv, lv_d2i := d2i\<rparr>)))
         else Inr s)"

definition live_operand ::
  "'bv bitvec_ops \<Rightarrow> ir_value \<Rightarrow> 'bv live_state \<Rightarrow> 'bv live_state result" where
  "live_operand BV val s =
     (if is_tracked val
      then (let (valInd, d2i) = map_index 0 (lv_d2i s) val
            in bind_res (bv_get BV (lv_def s) valInd) (\<lambda>defined.
               if defined then Inr (s\<lparr>lv_d2i := d2i\<rparr>)
               else bind_res (bv_set BV (lv_use s) valInd) (\<lambda>u.
                      Inr (s\<lparr>lv_use := u, lv_d2i := d2i\<rparr>))))
      else Inr s)"

definition live_insn ::
  "'bv bitvec_ops \<Rightarrow> nat \<Rightarrow> instr \<Rightarrow> 'bv live_state \<Rightarrow> 'bv live_state result" where
  "live_insn BV domainSize insn s =
     bind_res (case in_phi insn of
         Some incoming \<Rightarrow> fold_res (live_phi_operand BV domainSize) incoming s
       | None \<Rightarrow> fold_res (live_operand BV) (in_ops insn) s) (\<lambda>s.
       case map_of (lv_d2i s) (self insn) of
         Some i \<Rightarrow> bind_res (bv_set BV (lv_def s) i) (\<lambda>d. Inr (s\<lparr>lv_def := d\<rparr>))
       | None \<Rightarrow> Inr s)"

definition live_transferFn ::
  "'bv bitvec_ops \<Rightarrow> 'z ir_function_scheme \<Rightarrow> 'bv \<Rightarrow> ir_value list \<Rightarrow> (ir_value \<times> nat) list \<Rightarrow>
    block \<Rightarrow> 'bv transfer_output result" where
  "live_transferFn BV F input domain domainToIndex blk =
     (let domainSize = length domainToIndex
      in bind_res (fold_res (live_insn BV domainSize) (fn_insns F blk)
           \<lparr>lv_def = bv_make BV domainSize False, lv_use = bv_make BV domainSize False,
            lv_nv = [], lv_d2i = domainToIndex\<rparr>) (\<lambda>s.
         Inr \<lparr>element = bv_or BV (bv_and BV (bv_flip BV (lv_def s)) input) (lv_use s),
              neighborVals = lv_nv s\<rparr>))"

definition livenessAnalysis ::
  "'bv bitvec_ops \<Rightarrow> 'z ir_function_scheme \<Rightarrow> (ir_value, 'bv) analysis" where
  "livenessAnalysis BV F =
     \<lparr>an_direction = BACKWARD, an_meetup_op = UNION, an_transferFn = live_transferFn BV F\<rparr>"

subsection \<open>The pass\<close>

definition push_new :: "'a \<Rightarrow> 'a list \<Rightarrow> 'a list" where
  "push_new x xs = (if x \<in> set xs then xs else xs @ [x])"

definition live_domain :: "'z ir_function_scheme \<Rightarrow> ir_value list" where
  "live_domain F =
     fold (\<lambda>insn domain.
         fold (\<lambda>val domain. if is_tracked val then push_new val domain else domain)
           (in_ops insn) domain)
       (all_insns F) []"

definition live_run ::
  "'bv bitvec_ops \<Rightarrow> 'z ir_function_scheme \<Rightarrow> (ir_value, 'bv) dataflow_result result option" where
  "live_run BV F =
     (let domain = live_domain F
      in run BV (livenessAnalysis BV F) F domain
           (bv_make BV (length domain) False) (bv_make BV (length domain) False))"

text \<open>
  The backward walk of the report over one block: the live set, the index map, and the lines
  pushed so far, last line first.
\<close>

definition live_report_insn ::
  "'bv bitvec_ops \<Rightarrow> value_printer \<Rightarrow> ir_value list \<Rightarrow> instr \<Rightarrow>
    'bv \<times> (ir_value \<times> nat) list \<times> string list \<Rightarrow>
    ('bv \<times> (ir_value \<times> nat) list \<times> string list) result" where
  "live_report_insn BV P domain insn st =
     (let (live, d2i, revOut) = st;
          revOut = revOut @ [replicate WIDTH CHR '' '' @ printValue P (self insn)]
      in case in_phi insn of
           Some _ \<Rightarrow>
             (case map_of d2i (self insn) of
                Some i \<Rightarrow> bind_res (bv_reset BV live i) (\<lambda>live. Inr (live, d2i, revOut))
              | None \<Rightarrow> Inr (live, d2i, revOut))
         | None \<Rightarrow>
             bind_res (fold_res (\<lambda>val (live, d2i).
                 if is_tracked val
                 then (let (i, d2i) = map_index 0 d2i val
                       in bind_res (bv_set BV live i) (\<lambda>live. Inr (live, d2i)))
                 else Inr (live, d2i)) (in_ops insn) (live, d2i)) (\<lambda>(live, d2i).
             bind_res (case map_of d2i (self insn) of
                 Some i \<Rightarrow> bv_reset BV live i
               | None \<Rightarrow> Inr live) (\<lambda>live.
             bind_res (printSet BV (Some \<circ> getShortValueName P) domain live) (\<lambda>text.
               Inr (live, d2i, revOut @ [pad_left WIDTH text])))))"

definition live_report_block ::
  "'bv bitvec_ops \<Rightarrow> value_printer \<Rightarrow> 'z ir_function_scheme \<Rightarrow> ir_value list \<Rightarrow>
    (ir_value, 'bv) dataflow_result \<Rightarrow> block \<Rightarrow>
    (ir_value \<times> nat) list \<times> string list \<Rightarrow> ((ir_value \<times> nat) list \<times> string list) result" where
  "live_report_block BV P F domain output blk st =
     (let (d2i, printed) = st;
          live = res_out (df_result output blk)
      in bind_res (printSet BV (Some \<circ> getShortValueName P) domain live) (\<lambda>text.
         bind_res (fold_res (live_report_insn BV P domain) (rev (fn_insns F blk))
             (live, d2i, [rule_line, pad_left WIDTH text])) (\<lambda>(live, d2i, revOut).
           Inr (d2i, printed @ rev (revOut @ [rule_line])))))"

definition live_runOnFunction ::
  "'bv bitvec_ops \<Rightarrow> value_printer \<Rightarrow> 'z ir_function_scheme \<Rightarrow> (bool \<times> string list) result option" where
  "live_runOnFunction BV P F =
     map_option (\<lambda>r. bind_res r (\<lambda>output.
         bind_res (fold_res (live_report_block BV P F (live_domain F) output) (fn_blocks F)
             (df_domainToIndex output, [])) (\<lambda>(_, printed). Inr (False, printed))))
       (live_run BV F)"

subsection \<open>What liveness means\<close>

text \<open>
  The values an instruction list reads before it defines them, the values it defines, and the
  values its phi nodes take from a predecessor \<open>p\<close>.
\<close>

definition uses :: "instr \<Rightarrow> ir_value set" where
  "uses i = (if in_phi i = None then {v \<in> set (in_ops i). is_tracked v} else {})"

fun exposed :: "instr list \<Rightarrow> ir_value set" where
  "exposed [] = {}"
| "exposed (i # is) = uses i \<union> (exposed is - {self i})"

definition defs :: "instr list \<Rightarrow> ir_value set" where
  "defs is = self ` set is"

definition phi_uses :: "instr list \<Rightarrow> block \<Rightarrow> ir_value set" where
  "phi_uses is p = {v. is_tracked v \<and> (\<exists>i\<in>set is. \<exists>inc. in_phi i = Some inc \<and> (v, p) \<in> set inc)}"

text \<open>
  A value is live at the start of a block when some path from there reaches a read of it with no
  definition in between; a phi node reads its value on the edge from the predecessor.
\<close>

inductive live_in :: "'z ir_function_scheme \<Rightarrow> block \<Rightarrow> ir_value \<Rightarrow> bool" for F where
  live_use: "v \<in> exposed (fn_insns F b) \<Longrightarrow> live_in F b v"
| live_through: "v \<notin> defs (fn_insns F b) \<Longrightarrow> s \<in> set (fn_succs F b) \<Longrightarrow> live_in F s v \<Longrightarrow>
    live_in F b v"
| live_edge: "v \<notin> defs (fn_insns F b) \<Longrightarrow> s \<in> set (fn_succs F b) \<Longrightarrow>
    v \<in> phi_uses (fn_insns F s) b \<Longrightarrow> live_in F b v"

definition live_out :: "'z ir_function_scheme \<Rightarrow> block \<Rightarrow> ir_value \<Rightarrow> bool" where
  "live_out F b v \<longleftrightarrow>
     (\<exists>s\<in>set (fn_succs F b). live_in F s v \<or> v \<in> phi_uses (fn_insns F s) b)"

lemma live_in_iff:
  "live_in F b v \<longleftrightarrow> v \<in> exposed (fn_insns F b) \<or> v \<notin> defs (fn_insns F b) \<and> live_out F b v"
  by (subst live_in.simps) (auto simp: live_out_def)

text \<open>What LLVM guarantees of phi nodes: their operands are their incoming values.\<close>

definition wf_phis :: "'z ir_function_scheme \<Rightarrow> bool" where
  "wf_phis F \<longleftrightarrow> (\<forall>i\<in>set (all_insns F). \<forall>inc. in_phi i = Some inc \<longrightarrow> in_ops i = map fst inc)"

lemma exposed_snoc: "exposed (xs @ [i]) = exposed xs \<union> (uses i - defs xs)"
  by (induction xs) (auto simp: defs_def)

lemma defs_snoc: "defs (xs @ [i]) = insert (self i) (defs xs)"
  by (auto simp: defs_def)

lemma phi_uses_snoc:
  "phi_uses (xs @ [i]) p = phi_uses xs p \<union>
     (case in_phi i of None \<Rightarrow> {} | Some inc \<Rightarrow> {v. is_tracked v \<and> (v, p) \<in> set inc})"
  by (auto simp: phi_uses_def split: option.splits)

subsection \<open>The domain\<close>

lemma push_new_set [simp]: "set (push_new x xs) = insert x (set xs)"
  by (auto simp: push_new_def)

lemma push_new_distinct [simp]: "distinct xs \<Longrightarrow> distinct (push_new x xs)"
  by (simp add: push_new_def)

lemma fold_push_new:
  fixes p :: "'a \<Rightarrow> bool"
  defines "g \<equiv> \<lambda>v ds. if p v then push_new v ds else ds"
  shows "set (fold g vs ds) = set ds \<union> {v \<in> set vs. p v}"
    and "distinct ds \<Longrightarrow> distinct (fold g vs ds)"
  by (induction vs arbitrary: ds) (auto simp: g_def)

lemma live_domain_fold:
  "set (fold (\<lambda>i. fold (\<lambda>v ds. if is_tracked v then push_new v ds else ds) (in_ops i)) is ds) =
     set ds \<union> {v. is_tracked v \<and> (\<exists>i\<in>set is. v \<in> set (in_ops i))}"
  "distinct ds \<Longrightarrow>
     distinct (fold (\<lambda>i. fold (\<lambda>v ds. if is_tracked v then push_new v ds else ds) (in_ops i)) is ds)"
  by (induction "is" arbitrary: ds) (auto simp: fold_push_new)

lemma live_domain_set:
  "set (live_domain F) = {v. is_tracked v \<and> (\<exists>i\<in>set (all_insns F). v \<in> set (in_ops i))}"
  by (simp add: live_domain_def live_domain_fold)

lemma live_domain_distinct: "distinct (live_domain F)"
  by (simp add: live_domain_def live_domain_fold)

subsection \<open>The transfer function computes exposed uses and definitions\<close>

locale live_setup = domain_bits BV "live_domain F"
  for BV :: "'bv bitvec_ops" and F :: "'z ir_function_scheme" +
  assumes wf: "wf_cfg F" and phis: "wf_phis F"
begin

abbreviation "D \<equiv> live_domain F"

lemma block_insns: "b \<in> set (fn_blocks F) \<Longrightarrow> i \<in> set (fn_insns F b) \<Longrightarrow> i \<in> set (all_insns F)"
  by (auto simp: all_insns_def)

lemma operand_in_domain:
  "i \<in> set (all_insns F) \<Longrightarrow> v \<in> set (in_ops i) \<Longrightarrow> is_tracked v \<Longrightarrow> v \<in> set D"
  by (auto simp: live_domain_set)

lemma incoming_in_domain:
  "i \<in> set (all_insns F) \<Longrightarrow> in_phi i = Some inc \<Longrightarrow> (v, p) \<in> set inc \<Longrightarrow> is_tracked v \<Longrightarrow>
    v \<in> set D"
  using phis unfolding wf_phis_def live_domain_set
  by (metis (mono_tags, lifting) fst_conv image_eqI list.set_map mem_Collect_eq)

lemma exposed_in_domain: "set is \<subseteq> set (all_insns F) \<Longrightarrow> exposed is \<subseteq> set D"
  by (induction "is") (auto simp: uses_def operand_in_domain)

lemma phi_uses_in_domain: "set is \<subseteq> set (all_insns F) \<Longrightarrow> phi_uses is p \<subseteq> set D"
  by (auto simp: phi_uses_def incoming_in_domain)

definition tracks :: "instr list \<Rightarrow> 'bv live_state \<Rightarrow> bool" where
  "tracks xs s \<longleftrightarrow> lv_d2i s = d2i \<and> holds (lv_def s) (defs xs \<inter> set D) \<and>
     holds (lv_use s) (exposed xs) \<and> nv_holds (lv_nv s) (phi_uses xs)"

lemma phi_operands_ok:
  assumes "lv_d2i s = d2i" and "nv_holds (lv_nv s) f"
    and "\<And>v p. (v, p) \<in> set inc \<Longrightarrow> is_tracked v \<Longrightarrow> v \<in> set D"
  shows "\<exists>nv. fold_res (live_phi_operand BV n) inc s = Inr (s\<lparr>lv_nv := nv\<rparr>) \<and>
    nv_holds nv (\<lambda>p. f p \<union> {v. is_tracked v \<and> (v, p) \<in> set inc})"
  using assms
proof (induction inc arbitrary: s f)
  case Nil
  then show ?case by (intro exI [of _ "lv_nv s"]) simp
next
  case (Cons vp inc)
  obtain v p where vp: "vp = (v, p)" by (cases vp)
  show ?case
  proof (cases "is_tracked v")
    case False
    then have "live_phi_operand BV n vp s = Inr s"
      by (simp add: live_phi_operand_def vp)
    moreover have "{w. is_tracked w \<and> (w, q) \<in> set (vp # inc)} = {w. is_tracked w \<and> (w, q) \<in> set inc}" for q
      using False vp by auto
    moreover have "\<exists>nv. fold_res (live_phi_operand BV n) inc s = Inr (s\<lparr>lv_nv := nv\<rparr>) \<and>
        nv_holds nv (\<lambda>p. f p \<union> {v. is_tracked v \<and> (v, p) \<in> set inc})"
      using Cons.prems by (intro Cons.IH) auto
    ultimately show ?thesis by (simp del: list.set)
  next
    case True
    then have v: "v \<in> set D" using Cons.prems(3) vp by auto
    define nv where "nv = (if map_of (lv_nv s) p = None
      then AList.update p (bv_make BV n False) (lv_nv s) else lv_nv s)"
    have nv: "nv_holds nv f" and p: "\<exists>w. map_of nv p = Some w \<and> holds w (f p)"
      using nv_holds_ensure [OF Cons.prems(2)] unfolding nv_def by blast+
    then obtain w u where w: "map_of nv p = Some w" and
      u: "bv_set BV w (ix v) = Inr u" "holds u (insert v (f p))"
      using holds_set v by blast
    let ?s = "s\<lparr>lv_nv := AList.update p u nv, lv_d2i := d2i\<rparr>"
    have "live_phi_operand BV n vp s = Inr ?s"
      using True v u(1) w by (simp add: live_phi_operand_def vp Cons.prems(1) d2i_index nv_def Let_def)
    moreover have "nv_holds (lv_nv ?s) (f(p := insert v (f p)))"
      using nv_holds_update [OF nv u(2)] by simp
    moreover have "?s\<lparr>lv_nv := nv'\<rparr> = s\<lparr>lv_nv := nv'\<rparr>" for nv'
      using Cons.prems(1) by simp
    moreover have "(\<lambda>q. (f(p := insert v (f p))) q \<union> {v. is_tracked v \<and> (v, q) \<in> set inc}) =
        (\<lambda>q. f q \<union> {v'. is_tracked v' \<and> (v', q) \<in> set (vp # inc)})"
      using True vp by (auto simp: fun_eq_iff)
    moreover have "\<exists>nv. fold_res (live_phi_operand BV n) inc ?s = Inr (?s\<lparr>lv_nv := nv\<rparr>) \<and>
        nv_holds nv (\<lambda>q. (f(p := insert v (f p))) q \<union> {v. is_tracked v \<and> (v, q) \<in> set inc})"
      using Cons.prems(3) calculation(2) by (intro Cons.IH) (simp_all del: fun_upd_apply, metis)
    ultimately show ?thesis by (simp del: list.set fun_upd_apply)
  qed
qed

lemma operands_ok:
  assumes "lv_d2i s = d2i" and "holds (lv_def s) X" and "X \<subseteq> set D" and "holds (lv_use s) U"
    and "\<And>v. v \<in> set ops \<Longrightarrow> is_tracked v \<Longrightarrow> v \<in> set D"
  shows "\<exists>u. fold_res (live_operand BV) ops s = Inr (s\<lparr>lv_use := u\<rparr>) \<and>
    holds u (U \<union> ({v \<in> set ops. is_tracked v} - X))"
  using assms
proof (induction ops arbitrary: s U)
  case Nil
  then show ?case by (intro exI [of _ "lv_use s"]) simp
next
  case (Cons v ops)
  show ?case
  proof (cases "is_tracked v")
    case False
    have "{w \<in> set (v # ops). is_tracked w} = {w \<in> set ops. is_tracked w}"
      using False by auto
    then show ?thesis
      using Cons False by (simp add: live_operand_def)
  next
    case True
    then have v: "v \<in> set D" using Cons.prems(5) by simp
    have g: "bv_get BV (lv_def s) (ix v) = Inr (v \<in> X)"
      using holds_get Cons.prems(2,3) v by blast
    obtain u where u: "bv_set BV (lv_use s) (ix v) = Inr u" "holds u (insert v U)"
      using holds_set [OF Cons.prems(4) v] by blast
    define s' where "s' = (if v \<in> X then s else s\<lparr>lv_use := u\<rparr>)"
    have "live_operand BV v s = Inr s'"
      using True g u(1) Cons.prems(1) by (simp add: live_operand_def d2i_index v s'_def)
    moreover have "\<exists>u'. fold_res (live_operand BV) ops s' = Inr (s'\<lparr>lv_use := u'\<rparr>) \<and>
        holds u' ((if v \<in> X then U else insert v U) \<union> ({v \<in> set ops. is_tracked v} - X))"
      using Cons.prems u(2) by (intro Cons.IH) (auto simp: s'_def)
    moreover have "(if v \<in> X then U else insert v U) \<union> ({v \<in> set ops. is_tracked v} - X) =
        U \<union> ({w \<in> set (v # ops). is_tracked w} - X)"
      using True by auto
    moreover have "s'\<lparr>lv_use := u'\<rparr> = s\<lparr>lv_use := u'\<rparr>" for u'
      by (simp add: s'_def)
    ultimately show ?thesis by (simp del: list.set)
  qed
qed

lemma live_insn_ok:
  assumes "tracks xs s" and i: "i \<in> set (all_insns F)" and xs: "set xs \<subseteq> set (all_insns F)"
  shows "\<exists>s'. live_insn BV n i s = Inr s' \<and> tracks (xs @ [i]) s'"
proof -
  define s1 where "s1 = (case in_phi i of
      Some inc \<Rightarrow> fold_res (live_phi_operand BV n) inc s
    | None \<Rightarrow> fold_res (live_operand BV) (in_ops i) s)"
  note t = assms(1) [unfolded tracks_def]
  have "\<exists>t. s1 = Inr t \<and> lv_d2i t = d2i \<and> holds (lv_def t) (defs xs \<inter> set D) \<and>
      holds (lv_use t) (exposed (xs @ [i])) \<and> nv_holds (lv_nv t) (phi_uses (xs @ [i]))"
  proof (cases "in_phi i")
    case None
    have "\<exists>u. fold_res (live_operand BV) (in_ops i) s = Inr (s\<lparr>lv_use := u\<rparr>) \<and>
        holds u (exposed xs \<union> ({v \<in> set (in_ops i). is_tracked v} - (defs xs \<inter> set D)))"
      using t operand_in_domain [OF i] by (intro operands_ok) auto
    moreover have "exposed xs \<union> ({v \<in> set (in_ops i). is_tracked v} - (defs xs \<inter> set D)) =
        exposed (xs @ [i])"
      using None operand_in_domain [OF i] by (auto simp: exposed_snoc uses_def)
    moreover have "phi_uses (xs @ [i]) = phi_uses xs"
      using None by (simp add: phi_uses_snoc fun_eq_iff)
    ultimately show ?thesis
      using None t by (auto simp: s1_def)
  next
    case (Some inc)
    have "\<exists>nv. fold_res (live_phi_operand BV n) inc s = Inr (s\<lparr>lv_nv := nv\<rparr>) \<and>
        nv_holds nv (\<lambda>p. phi_uses xs p \<union> {v. is_tracked v \<and> (v, p) \<in> set inc})"
      using t incoming_in_domain [OF i Some] by (intro phi_operands_ok) auto
    moreover have "(\<lambda>p. phi_uses xs p \<union> {v. is_tracked v \<and> (v, p) \<in> set inc}) = phi_uses (xs @ [i])"
      using Some by (simp add: phi_uses_snoc fun_eq_iff)
    ultimately show ?thesis
      using Some t by (auto simp: s1_def exposed_snoc uses_def)
  qed
  then obtain t where t1: "s1 = Inr t" "lv_d2i t = d2i" "holds (lv_def t) (defs xs \<inter> set D)"
      "holds (lv_use t) (exposed (xs @ [i]))" "nv_holds (lv_nv t) (phi_uses (xs @ [i]))"
    by blast
  have run: "live_insn BV n i s = (case map_of d2i (self i) of
      Some k \<Rightarrow> bind_res (bv_set BV (lv_def t) k) (\<lambda>d. Inr (t\<lparr>lv_def := d\<rparr>)) | None \<Rightarrow> Inr t)"
    unfolding live_insn_def using t1(1,2) by (simp add: s1_def split: option.splits)
  show ?thesis
  proof (cases "self i \<in> set D")
    case True
    obtain d where "bv_set BV (lv_def t) (ix (self i)) = Inr d"
        "holds d (insert (self i) (defs xs \<inter> set D))"
      using holds_set [OF t1(3) True] by blast
    then show ?thesis
      using run True t1 by (auto simp: tracks_def d2i_find defs_snoc)
  next
    case False
    then show ?thesis
      using run t1 by (auto simp: tracks_def d2i_find defs_snoc)
  qed
qed

lemma live_insns_ok:
  assumes "tracks xs s" and "set ys \<subseteq> set (all_insns F)" and "set xs \<subseteq> set (all_insns F)"
  shows "\<exists>s'. fold_res (live_insn BV n) ys s = Inr s' \<and> tracks (xs @ ys) s'"
  using assms
proof (induction ys arbitrary: xs s)
  case (Cons y ys)
  obtain t where "live_insn BV n y s = Inr t" and t: "tracks (xs @ [y]) t"
    using live_insn_ok [of xs s y] Cons.prems by auto
  then show ?case
    using Cons.IH [OF t] Cons.prems by auto
qed auto

lemma live_transferFn_ok:
  assumes "b \<in> set (fn_blocks F)"
  defines "is \<equiv> fn_insns F b"
  shows "\<exists>nv. nv_holds nv (phi_uses is) \<and> (\<forall>v. \<exists>out. live_transferFn BV F v D d2i b = Inr out \<and>
    bv_size BV (element out) = n \<and> neighborVals out = nv \<and>
    bits BV (element out) = ix ` exposed is \<union> ({..<n} \<inter> bits BV v - ix ` (defs is \<inter> set D)))"
proof -
  have "is": "set is \<subseteq> set (all_insns F)"
    using block_insns assms by blast
  let ?s0 = "\<lparr>lv_def = bv_make BV n False, lv_use = bv_make BV n False, lv_nv = [], lv_d2i = d2i\<rparr>"
  have "tracks [] ?s0"
    using holds_make by (simp add: tracks_def defs_def nv_holds_def phi_uses_def)
  then obtain s where s: "fold_res (live_insn BV n) is ?s0 = Inr s" "tracks is s"
    using live_insns_ok [of "[]" ?s0 "is"] "is" by auto
  have len: "length d2i = n"
    by (rule index_domain_length [OF live_domain_distinct])
  have sz: "bv_size BV (lv_def s) = n" "bv_size BV (lv_use s) = n"
    "bits BV (lv_def s) = ix ` (defs is \<inter> set D)" "bits BV (lv_use s) = ix ` exposed is"
    using s(2) by (simp_all add: tracks_def holds_def)
  show ?thesis
    using s sz by (intro exI [of _ "lv_nv s"])
      (auto simp: live_transferFn_def len is_def bits_simps tracks_def)
qed

subsection \<open>The run of the analysis\<close>

abbreviation "nbrs \<equiv> block_neighbors BACKWARD F"

definition live_F :: "block \<Rightarrow> nat set \<Rightarrow> nat set" where
  "live_F b X = (if b \<in> set (fn_blocks F)
     then ix ` exposed (fn_insns F b) \<union> ({..<n} \<inter> X - ix ` (defs (fn_insns F b) \<inter> set D)) else {})"

definition live_nv :: "block \<Rightarrow> (block \<times> 'bv) list" where
  "live_nv b = (if b \<in> set (fn_blocks F)
     then (case live_transferFn BV F (bv_empty BV) D d2i b of Inl _ \<Rightarrow> [] | Inr out \<Rightarrow> neighborVals out)
     else [])"

definition live_NV :: "block \<Rightarrow> nat set \<Rightarrow> block \<Rightarrow> nat set" where
  "live_NV b X p = (if b \<in> set (fn_blocks F) then ix ` phi_uses (fn_insns F b) p else {})"

definition live_res0 :: "block \<Rightarrow> 'bv block_result" where
  "live_res0 = init_result BV F (filter (fn_ret F) (fn_blocks F))
     (boundary_res BV BACKWARD (bv_make BV n False)) (interior_res BV BACKWARD (bv_make BV n False))"

lemma live_nv_ok:
  assumes "b \<in> set (fn_blocks F)"
  shows "nv_holds (live_nv b) (phi_uses (fn_insns F b))"
    and "\<exists>out. live_transferFn BV F v D d2i b = Inr out \<and> bv_size BV (element out) = n \<and>
       neighborVals out = live_nv b \<and> bits BV (element out) = live_F b (bits BV v)"
proof -
  obtain nv where nv: "nv_holds nv (phi_uses (fn_insns F b))" and
    t: "\<And>v. \<exists>out. live_transferFn BV F v D d2i b = Inr out \<and> bv_size BV (element out) = n \<and>
       neighborVals out = nv \<and> bits BV (element out) = live_F b (bits BV v)"
    using live_transferFn_ok [OF assms] assms unfolding live_F_def by auto
  have "live_nv b = nv"
    using t [of "bv_empty BV"] assms by (auto simp: live_nv_def)
  then show "nv_holds (live_nv b) (phi_uses (fn_insns F b))"
    and "\<exists>out. live_transferFn BV F v D d2i b = Inr out \<and> bv_size BV (element out) = n \<and>
       neighborVals out = live_nv b \<and> bits BV (element out) = live_F b (bits BV v)"
    using nv t [of v] by simp_all
qed

lemma block_all_insns: "b \<in> set (fn_blocks F) \<Longrightarrow> set (fn_insns F b) \<subseteq> set (all_insns F)"
  using block_insns by blast

lemma live_res0_apply:
  "live_res0 b = (if b \<in> set (fn_blocks F)
     then (if fn_ret F b then boundary_res BV BACKWARD (bv_make BV n False)
           else interior_res BV BACKWARD (bv_make BV n False))
     else empty_block_result BV)"
  by (simp add: live_res0_def init_result_def assign_all_apply)

end

text \<open>The analysis honours the engine's contract.\<close>

sublocale live_setup \<subseteq> lv: engine BV UNION n "fn_po F" nbrs "\<lambda>_. {}" "\<lambda>_. {}" live_F live_NV
  "\<lambda>b _. length (live_nv b)" "\<Sum>b\<in>set (fn_blocks F). length (live_nv b)"
  "livenessAnalysis BV F" D d2i "\<lambda>_. True" "set (fn_blocks F)" live_res0
proof (unfold_locales, goal_cases)
  case (1 X Y b)
  then show ?case by (auto simp: live_F_def)
next
  case (4 X b)
  then show ?case
    using ix_image_bounded exposed_in_domain block_all_insns by (auto simp: live_F_def)
next
  case (5 X b p)
  then show ?case
    using ix_image_bounded phi_uses_in_domain block_all_insns by (auto simp: live_NV_def)
next
  case (6 b X)
  then show ?case
    by (cases "b \<in> set (fn_blocks F)") (auto simp: live_nv_def intro: member_le_sum)
next
  case (8 b X p)
  then show ?case
    using live_nv_ok(1) [of b] by (auto simp: live_NV_def nv_holds_def)
next
  case (16 b v)
  then have b: "b \<in> set (fn_blocks F)"
    using wf reach_in_blocks by (auto simp: wf_cfg_def)
  obtain out where out: "live_transferFn BV F v D d2i b = Inr out" "bv_size BV (element out) = n"
      "neighborVals out = live_nv b" "bits BV (element out) = live_F b (bits BV v)"
    using live_nv_ok(2) [OF b] by blast
  have "nv_bits BV out = live_NV b (bits BV v)"
    using nv_holds_bits [OF live_nv_ok(1) [OF b]] b by (auto simp: nv_bits_def live_NV_def out(3))
  then show ?case
    using out live_nv_ok(1) [OF b]
    by (auto simp: livenessAnalysis_def nv_holds_def holds_def dest: spec split: option.splits)
next
  case 17
  show ?case
    using reach_in_blocks [OF _ wf] wf by (auto simp: wf_cfg_def)
next
  case (18 b)
  then show ?case
    using wf reach_in_blocks [OF _ wf] by (auto simp: wf_cfg_def block_neighbors_def)
qed (auto simp: live_NV_def is_may_def livenessAnalysis_def live_res0_apply initial_results bits_simps)

context live_setup begin

lemma po_reach: "b \<in> set (fn_po F) \<longleftrightarrow> reach F b"
  using wf by (simp add: wf_cfg_def)

lemma succ_reach: "reach F b \<Longrightarrow> s \<in> set (fn_succs F b) \<Longrightarrow> reach F s"
  by (rule reach_succ)

lemma live_run_loop:
  "live_run BV F = map_option (map_sum id (\<lambda>res.
     \<lparr>df_result = res, df_domainToIndex = d2i, df_modified = False\<rparr>)) (lv.loop live_res0)"
  by (simp add: live_run_def run_def run_engine_def boundary_blocks_def livenessAnalysis_def
      live_res0_def traversal_order_def Let_def)

definition E_spec :: "block \<Rightarrow> nat set" where
  "E_spec b = (if reach F b then ix ` {v \<in> set D. live_in F b v} else {})"

definition V_spec :: "block \<Rightarrow> block \<Rightarrow> nat set" where
  "V_spec b = (if reach F b then live_NV b {} else (\<lambda>_. {}))"

lemma meet_spec:
  assumes "reach F b"
  shows "meet_input UNION nbrs (\<lambda>_. {}) E_spec V_spec b = ix ` {v \<in> set D. live_out F b v}"
proof -
  have b: "b \<in> set (fn_blocks F)" using assms wf by (rule reach_in_blocks)
  have s: "reach F s" "s \<in> set (fn_blocks F)" "phi_uses (fn_insns F s) b \<subseteq> set D"
    if "s \<in> set (fn_succs F b)" for s
    using that assms reach_succ [OF assms that] reach_in_blocks [OF _ wf] phi_uses_in_domain
      block_all_insns by blast+
  have "meet_input UNION nbrs (\<lambda>_. {}) E_spec V_spec b =
      (\<Union>s\<in>set (fn_succs F b). E_spec s \<union> V_spec s b)"
    using b by (auto simp: meet_input_def meet_value_def is_may_def block_neighbors_def)
  also have "\<dots> = (\<Union>s\<in>set (fn_succs F b).
      ix ` {v \<in> set D. live_in F s v} \<union> ix ` phi_uses (fn_insns F s) b)"
    using s by (simp add: E_spec_def V_spec_def live_NV_def)
  also have "\<dots> = ix ` {v \<in> set D. live_out F b v}"
    using s(3) by (fastforce simp: live_out_def)
  finally show ?thesis .
qed

lemma spec_solution: "lv.solution E_spec V_spec"
proof -
  have "E_spec b = live_F b (ix ` {v \<in> set D. live_out F b v})" if "reach F b" for b
  proof -
    let ?is = "fn_insns F b"
    have b: "b \<in> set (fn_blocks F)" using that wf by (rule reach_in_blocks)
    have "{..<n} \<inter> ix ` {v \<in> set D. live_out F b v} - ix ` (defs ?is \<inter> set D) =
        ix ` ({v \<in> set D. live_out F b v} - (defs ?is \<inter> set D))"
      using ix_image_diff [of "{v \<in> set D. live_out F b v}" "defs ?is \<inter> set D"]
        ix_image_bounded [of "{v \<in> set D. live_out F b v}"] by auto
    moreover have "{v \<in> set D. live_in F b v} =
        exposed ?is \<union> ({v \<in> set D. live_out F b v} - (defs ?is \<inter> set D))"
      using exposed_in_domain [OF block_all_insns [OF b]] by (auto simp: live_in_iff [of F b])
    ultimately show ?thesis
      using that b by (simp add: E_spec_def live_F_def image_Un)
  qed
  then show ?thesis
    by (auto simp: df_solution_def po_reach meet_spec E_spec_def V_spec_def live_NV_def fun_eq_iff)
qed

lemma spec_least:
  assumes "lv.solution E V" and "live_in F b v" and "reach F b" and "v \<in> set D"
  shows "ix v \<in> E b"
  using assms(2-)
proof (induction rule: live_in.induct)
  case (live_use v b)
  have b: "b \<in> set (fn_blocks F)" using live_use.prems(1) wf by (rule reach_in_blocks)
  then show ?case
    using live_use assms(1) by (auto simp: df_solution_def po_reach live_F_def)
next
  case (live_through v b s)
  have b: "b \<in> set (fn_blocks F)" using live_through.prems(1) wf by (rule reach_in_blocks)
  have "ix v \<in> E s"
    using live_through succ_reach by blast
  then have "ix v \<in> meet_input UNION nbrs (\<lambda>_. {}) E V b"
    using live_through.hyps(2) b
    by (auto simp: meet_input_def meet_value_def is_may_def block_neighbors_def)
  then show ?case
    using live_through assms(1) b ix_bound ix_mem [of v "defs (fn_insns F b) \<inter> set D"]
    by (auto simp: df_solution_def po_reach live_F_def)
next
  case (live_edge v b s)
  have b: "b \<in> set (fn_blocks F)" using live_edge.prems(1) wf by (rule reach_in_blocks)
  have s: "reach F s" "s \<in> set (fn_blocks F)"
    using live_edge succ_reach reach_in_blocks [OF _ wf] by blast+
  then have "ix v \<in> V s b"
    using live_edge.hyps(3) assms(1) by (simp add: df_solution_def po_reach live_NV_def)
  then have "ix v \<in> meet_input UNION nbrs (\<lambda>_. {}) E V b"
    using live_edge.hyps(2) b
    by (auto simp: meet_input_def meet_value_def is_may_def block_neighbors_def)
  then show ?case
    using live_edge assms(1) b ix_bound ix_mem [of v "defs (fn_insns F b) \<inter> set D"]
    by (auto simp: df_solution_def po_reach live_F_def)
qed

theorem live_run_exact:
  "\<exists>out. live_run BV F = Some (Inr out) \<and> df_domainToIndex out = d2i \<and>
     (\<forall>b. reach F b \<longrightarrow>
        bits BV (res_in (df_result out b)) = ix ` {v \<in> set D. live_in F b v} \<and>
        bits BV (res_out (df_result out b)) = ix ` {v \<in> set D. live_out F b v} \<and>
        bv_size BV (res_out (df_result out b)) = (if fn_ret F b \<or> fn_succs F b \<noteq> [] then n else 0)) \<and>
     (\<forall>b\<in>set (fn_blocks F). \<not> reach F b \<longrightarrow>
        bv_size BV (res_out (df_result out b)) = (if fn_ret F b then n else 0))"
proof -
  obtain res where res: "lv.loop live_res0 = Some (Inr res)"
      and sol: "lv.solution (st_E (lv.ast res)) (st_V (lv.ast res))"
      and io: "\<forall>b\<in>set (fn_po F). bits BV (res_out (res b)) = lv.inp (lv.ast res) b \<and>
        bits BV (res_in (res b)) = st_E (lv.ast res) b \<and> lv.fits res b \<and>
        (nbrs b = [] \<longrightarrow> res_out (res b) = res_out (live_res0 b))"
      and least: "\<forall>E V. lv.solution E V \<longrightarrow> (\<forall>b. E b \<subseteq> {..<n}) \<longrightarrow>
        (\<forall>b. info_le UNION (st_E (lv.ast res) b) (E b))"
      and rest: "\<forall>b. b \<notin> set (fn_po F) \<longrightarrow> res b = live_res0 b"
    using lv.run_returns unfolding block_input_def block_output_def livenessAnalysis_def by auto
  have E: "st_E (lv.ast res) b = E_spec b" for b
  proof
    have "E_spec b \<subseteq> {..<n}" for b
      using ix_image_bounded by (auto simp: E_spec_def)
    then show "st_E (lv.ast res) b \<subseteq> E_spec b"
      using least [rule_format, OF spec_solution] by (simp add: info_le_def is_may_def)
    show "E_spec b \<subseteq> st_E (lv.ast res) b"
      using spec_least [OF sol] by (auto simp: E_spec_def split: if_splits)
  qed
  have V: "st_V (lv.ast res) b = V_spec b" for b
    using sol by (auto simp: df_solution_def po_reach V_spec_def live_NV_def fun_eq_iff)
  have "lv.inp (lv.ast res) b = ix ` {v \<in> set D. live_out F b v}" if "reach F b" for b
    using meet_spec [OF that] E V unfolding meet_input_def by presburger
  moreover have "bv_size BV (res_out (res b)) = (if fn_ret F b \<or> fn_succs F b \<noteq> [] then n else 0)"
    if "reach F b" for b
    using io that reach_in_blocks [OF that wf] wf unfolding lv.fits_def
    by (auto simp: po_reach block_neighbors_def block_input_def block_output_def
        livenessAnalysis_def live_res0_apply initial_results bits_simps wf_cfg_def)
  moreover have "bv_size BV (res_out (res b)) = (if fn_ret F b then n else 0)"
    if "b \<in> set (fn_blocks F)" "\<not> reach F b" for b
    using rest that by (simp add: po_reach live_res0_apply initial_results bits_simps)
  ultimately show ?thesis
    using res io E by (simp add: live_run_loop po_reach E_spec_def)
qed

end

end
