(* ===== verification/Sample.thy ===== *)
theory Sample
  imports Printing
begin

section \<open>A function the concrete instances use\<close>

text \<open>
  A counting loop, as the front end emits it:
  block 0 jumps to 1; block 1 starts with a phi node for the counter, compares it with the
  argument and branches to 2 or 3; block 2 increments the counter and jumps back; block 3
  returns it. The second function adds a block no edge leads to; in the third, block 2 also
  computes two values from the argument alone.
\<close>

definition mk_insn :: "nat \<Rightarrow> ir_value list \<Rightarrow> instr" where
  "mk_insn i ops = \<lparr>in_id = i, in_ops = ops, in_phi = None, in_binop = None, in_terminator = False,
     in_dbginfo = False, in_landingpad = False, in_sideeffects = False,
     in_speculatable = True, in_readsmem = False\<rparr>"

definition loop_insns :: "block \<Rightarrow> instr list" where
  "loop_insns b =
     (if b = 0 then [(mk_insn 10 [])\<lparr>in_terminator := True, in_speculatable := False\<rparr>]
      else if b = 1 then
        [(mk_insn 1 [VConst 32 0, VInst 3])\<lparr>in_phi := Some [(VConst 32 0, 0), (VInst 3, 2)], in_speculatable := False\<rparr>,
         mk_insn 2 [VInst 1, VArg 0],
         (mk_insn 11 [VInst 2])\<lparr>in_terminator := True, in_speculatable := False\<rparr>]
      else if b = 2 then
        [(mk_insn 3 [VInst 1, VConst 32 1])\<lparr>in_binop := Some Add\<rparr>,
         (mk_insn 12 [])\<lparr>in_terminator := True, in_speculatable := False\<rparr>]
      else if b = 3 then [(mk_insn 13 [VInst 1])\<lparr>in_terminator := True, in_speculatable := False\<rparr>]
      else if b = 4 then [(mk_insn 14 [])\<lparr>in_terminator := True, in_speculatable := False\<rparr>]
      else [])"

definition loop_succs :: "block \<Rightarrow> block list" where
  "loop_succs b = (if b = 0 then [1] else if b = 1 then [2, 3] else if b = 2 then [1] else [])"

definition loop_preds :: "block \<Rightarrow> block list" where
  "loop_preds b = (if b = 1 then [0, 2] else if b = 2 \<or> b = 3 then [1] else [])"

definition loop_names :: "ir_value \<Rightarrow> string" where
  "loop_names v =
     (if v = VInst 1 then ''i'' else if v = VInst 2 then ''cmp'' else if v = VInst 3 then ''next''
      else if v = VArg 0 then ''n'' else [])"

definition counting_loop :: ir_function where
  "counting_loop = \<lparr>fn_blocks = [0, 1, 2, 3], fn_preds = loop_preds, fn_succs = loop_succs,
     fn_ret = (\<lambda>b. b = 3), fn_rpo = [0, 1, 2, 3], fn_po = [3, 2, 1, 0],
     fn_insns = loop_insns, fn_vname = loop_names\<rparr>"

definition loop_with_dead_block :: ir_function where
  "loop_with_dead_block = counting_loop\<lparr>fn_blocks := [0, 1, 2, 3, 4]\<rparr>"

definition hoist_loop :: ir_function where
  "hoist_loop = counting_loop\<lparr>fn_insns :=
     loop_insns(4 := [], 2 := [mk_insn 4 [VArg 0, VConst 32 7], mk_insn 5 [VInst 4, VArg 0]] @ loop_insns 2)\<rparr>"

lemmas sample_defs = counting_loop_def loop_with_dead_block_def hoist_loop_def mk_insn_def loop_insns_def
  loop_succs_def loop_preds_def entry_def

text \<open>A set that holds the entry and is closed under edges holds every reachable block.\<close>

lemma reach_closed:
  assumes "entry G \<in> R" and "\<And>a b. a \<in> R \<Longrightarrow> b \<in> set (fn_succs G a) \<Longrightarrow> b \<in> R"
  shows "reach G b \<Longrightarrow> b \<in> R"
  by (induction rule: reach.induct) (use assms in auto)

lemma reach_loop:
  assumes "F = counting_loop \<or> F = loop_with_dead_block \<or> F = hoist_loop"
  shows "reach F b \<longleftrightarrow> b \<in> {0, 1, 2, 3}"
proof
  assume "reach F b"
  then show "b \<in> {0, 1, 2, 3}"
    by (rule reach_closed [rotated 2])
      (use assms in \<open>auto simp: sample_defs split: if_splits\<close>)
next
  have e: "entry F = 0" and s: "fn_succs F = loop_succs"
    using assms by (auto simp: sample_defs)
  have r0: "reach F 0" using reach_entry [of F] e by simp
  then have r1: "reach F 1" by (rule reach_succ) (simp add: s loop_succs_def)
  then have "reach F 2" and "reach F 3"
    by (auto intro!: reach_succ [OF r1] simp: s loop_succs_def)
  with r0 r1 show "b \<in> {0, 1, 2, 3} \<Longrightarrow> reach F b" by auto
qed

lemma wf_counting_loop: "wf_cfg counting_loop"
  using reach_loop [of counting_loop] by (auto simp: wf_cfg_def sample_defs)

lemma wf_hoist_loop: "wf_cfg hoist_loop"
  using reach_loop [of hoist_loop] by (auto simp: wf_cfg_def sample_defs)

lemma wf_loop_with_dead_block: "wf_cfg loop_with_dead_block"
  using reach_loop [of loop_with_dead_block] by (auto simp: wf_cfg_def sample_defs)

text \<open>A printer that names values by number.\<close>

definition sample_printer :: value_printer where
  "sample_printer = \<lparr>vp_name = (\<lambda>v. case v of VInst _ \<Rightarrow> ''i'' | VArg _ \<Rightarrow> ''a'' | _ \<Rightarrow> []),
     vp_print = (\<lambda>_. ''inst''), vp_apint = (\<lambda>_ _. ''c'')\<rparr>"

end
