(* ===== verification/LivenessReport.thy ===== *)
theory LivenessReport
  imports Liveness Sample
begin

section \<open>The liveness report\<close>

text \<open>
  \<open>runOnFunction\<close> of \<open>asst2/ClassicalDataflow/liveness.cpp\<close> walks every block backward from the
  computed \<open>out\<close> and prints the live values before each instruction. Its output is compared here
  with path liveness at every program point, and the case in which it cannot finish is stated.
\<close>

text \<open>The values live before the suffix \<open>is\<close> of block \<open>b\<close>.\<close>

definition live_at :: "'z ir_function_scheme \<Rightarrow> block \<Rightarrow> instr list \<Rightarrow> ir_value set" where
  "live_at F b is = {v \<in> set (live_domain F). v \<in> exposed is \<or> v \<notin> defs is \<and> live_out F b v}"

definition live_text :: "value_printer \<Rightarrow> 'z ir_function_scheme \<Rightarrow> ir_value set \<Rightarrow> string" where
  "live_text P F X =
     pad_left WIDTH (set_text (map (getShortValueName P) (filter (\<lambda>v. v \<in> X) (live_domain F))))"

fun report_lines ::
  "value_printer \<Rightarrow> 'z ir_function_scheme \<Rightarrow> block \<Rightarrow> instr list \<Rightarrow> string list" where
  "report_lines P F b [] = [live_text P F (live_at F b []), rule_line]"
| "report_lines P F b (i # is) =
     (if in_phi i = None then [live_text P F (live_at F b (i # is))] else []) @
     [replicate WIDTH CHR '' '' @ printValue P (self i)] @ report_lines P F b is"

text \<open>An instruction other than a phi node does not read its own value.\<close>

definition no_self_use :: "'z ir_function_scheme \<Rightarrow> bool" where
  "no_self_use F \<longleftrightarrow> (\<forall>i\<in>set (all_insns F). self i \<notin> uses i)"

lemma live_at_step:
  "self i \<notin> uses i \<Longrightarrow> uses i \<subseteq> set (live_domain F) \<Longrightarrow>
    live_at F b (i # is) = (live_at F b is \<union> uses i) - {self i}"
  by (auto simp: live_at_def defs_def)

context live_setup begin

lemma report_operands_ok:
  assumes "holds live X" and "\<And>v. v \<in> set ops \<Longrightarrow> is_tracked v \<Longrightarrow> v \<in> set D"
  shows "\<exists>live'. fold_res (\<lambda>val (live, m).
      if is_tracked val
      then (let (i, m) = map_index 0 m val in bind_res (bv_set BV live i) (\<lambda>live. Inr (live, m)))
      else Inr (live, m)) ops (live, d2i) = Inr (live', d2i) \<and>
    holds live' (X \<union> {v \<in> set ops. is_tracked v})"
  using assms
proof (induction ops arbitrary: live X)
  case (Cons v ops)
  show ?case
  proof (cases "is_tracked v")
    case True
    then have v: "v \<in> set D" using Cons.prems(2) by simp
    obtain u where u: "bv_set BV live (ix v) = Inr u" "holds u (insert v X)"
      using holds_set [OF Cons.prems(1) v] by blast
    moreover have "insert v X \<union> {w \<in> set ops. is_tracked w} = X \<union> {w \<in> set (v # ops). is_tracked w}"
      using True by auto
    ultimately show ?thesis
      using Cons.IH [OF u(2)] Cons.prems(2) True by (simp add: d2i_index v del: list.set) (meson list.set_intros)
  next
    case False
    then have "{w \<in> set (v # ops). is_tracked w} = {w \<in> set ops. is_tracked w}" by auto
    then show ?thesis
      using Cons False by (simp del: list.set) (meson list.set_intros)
  qed
qed simp

lemma report_reset_ok:
  assumes "holds live X" and "X \<subseteq> set D"
  shows "\<exists>w. (case map_of d2i v of Some i \<Rightarrow> bv_reset BV live i | None \<Rightarrow> Inr live) = Inr w \<and>
    holds w (X - {v})"
proof (cases "v \<in> set D")
  case True
  then show ?thesis using holds_reset [OF assms(1) True assms(2)] by (simp add: d2i_find)
next
  case False
  moreover have "X - {v} = X" using False assms(2) by auto
  ultimately show ?thesis using assms(1) by (simp add: d2i_find)
qed

lemma print_holds:
  "holds v X \<Longrightarrow> X \<subseteq> set D \<Longrightarrow> printSet BV (Some \<circ> f) D v = Inr (set_text (map f (filter (\<lambda>d. d \<in> X) D)))"
  by (rule printSet_members [OF live_domain_distinct]) (simp_all add: holds_def)

lemma live_at_domain: "live_at F b is \<subseteq> set D"
  by (auto simp: live_at_def)

lemma report_insn_ok:
  assumes "holds live (live_at F b is)" and i: "i \<in> set (all_insns F)" and "self i \<notin> uses i"
  shows "\<exists>live'. live_report_insn BV P D i (live, d2i, rev (report_lines P F b is)) =
      Inr (live', d2i, rev (report_lines P F b (i # is))) \<and> holds live' (live_at F b (i # is))"
proof (cases "in_phi i")
  case None
  have u: "uses i = {v \<in> set (in_ops i). is_tracked v}"
    using None by (simp add: uses_def)
  have dom: "uses i \<subseteq> set D"
    using operand_in_domain [OF i] by (auto simp: u)
  obtain l1 where l1: "fold_res (\<lambda>val (live, m).
      if is_tracked val
      then (let (i, m) = map_index 0 m val in bind_res (bv_set BV live i) (\<lambda>live. Inr (live, m)))
      else Inr (live, m)) (in_ops i) (live, d2i) = Inr (l1, d2i)"
      "holds l1 (live_at F b is \<union> uses i)"
    using report_operands_ok [OF assms(1) operand_in_domain [OF i]] unfolding u by blast
  obtain l2 where l2: "(case map_of d2i (self i) of Some k \<Rightarrow> bv_reset BV l1 k | None \<Rightarrow> Inr l1) = Inr l2"
      "holds l2 (live_at F b (i # is))"
    using report_reset_ok [OF l1(2), of "self i"] live_at_domain dom live_at_step [OF assms(3) dom]
    by auto
  then show ?thesis
    using None l1(1) print_holds [OF l2(2) live_at_domain]
    by (simp add: live_report_insn_def live_text_def Let_def)
next
  case (Some inc)
  then have u: "uses i = {}" by (simp add: uses_def)
  obtain l2 where "(case map_of d2i (self i) of Some k \<Rightarrow> bv_reset BV live k | None \<Rightarrow> Inr live) = Inr l2"
      "holds l2 (live_at F b (i # is))"
    using report_reset_ok [OF assms(1) live_at_domain, of "self i"] live_at_step [of i F b "is"] u by auto
  then show ?thesis
    using Some by (simp add: live_report_insn_def Let_def split: option.splits)
qed

lemma report_insns_ok:
  assumes "set is \<subseteq> set (all_insns F)" and "no_self_use F" and "holds live (live_at F b [])"
  shows "\<exists>live'. fold_res (live_report_insn BV P D) (rev is) (live, d2i, rev (report_lines P F b [])) =
      Inr (live', d2i, rev (report_lines P F b is)) \<and> holds live' (live_at F b is)"
  using assms(1)
proof (induction "is")
  case Nil
  then show ?case using assms(3) by simp
next
  case (Cons i "is")
  then obtain l where l: "fold_res (live_report_insn BV P D) (rev is) (live, d2i, rev (report_lines P F b [])) =
      Inr (l, d2i, rev (report_lines P F b is))" "holds l (live_at F b is)"
    by auto
  have "self i \<notin> uses i" using assms(2) Cons.prems by (auto simp: no_self_use_def)
  then show ?case
    using report_insn_ok [OF l(2), of i P] Cons.prems l(1)
    by (auto simp: fold_res_append simp del: report_lines.simps)
qed

lemma report_block_ok:
  assumes "b \<in> set (fn_blocks F)" and "no_self_use F"
    and "bits BV (res_out (df_result out b)) = ix ` {v \<in> set D. live_out F b v}"
    and "bv_size BV (res_out (df_result out b)) = n"
  shows "live_report_block BV P F D out b (d2i, printed) =
    Inr (d2i, printed @ rule_line # report_lines P F b (fn_insns F b))"
proof -
  let ?live = "res_out (df_result out b)"
  have h: "holds ?live (live_at F b [])"
    using assms(3,4) by (simp add: holds_def live_at_def defs_def)
  obtain l where "fold_res (live_report_insn BV P D) (rev (fn_insns F b))
      (?live, d2i, rev (report_lines P F b [])) = Inr (l, d2i, rev (report_lines P F b (fn_insns F b)))"
    using report_insns_ok [OF block_all_insns [OF assms(1)] assms(2) h] by blast
  then show ?thesis
    using print_holds [OF h live_at_domain] by (simp add: live_report_block_def live_text_def)
qed

lemma report_blocks_ok:
  assumes "set bs \<subseteq> set (fn_blocks F)" and "no_self_use F"
    and "\<And>b. b \<in> set bs \<Longrightarrow> bits BV (res_out (df_result out b)) = ix ` {v \<in> set D. live_out F b v} \<and>
      bv_size BV (res_out (df_result out b)) = n"
  shows "fold_res (live_report_block BV P F D out) bs (d2i, printed) =
    Inr (d2i, printed @ concat (map (\<lambda>b. rule_line # report_lines P F b (fn_insns F b)) bs))"
  using assms(1,3)
  by (induction bs arbitrary: printed) (simp_all add: report_block_ok assms(2))

theorem report_exact:
  assumes "no_self_use F" and "\<And>b. b \<in> set (fn_blocks F) \<Longrightarrow> reach F b \<and> (fn_ret F b \<or> fn_succs F b \<noteq> [])"
  shows "live_runOnFunction BV P F = Some (Inr (False,
    concat (map (\<lambda>b. rule_line # report_lines P F b (fn_insns F b)) (fn_blocks F))))"
proof -
  obtain out where run: "live_run BV F = Some (Inr out)" and d: "df_domainToIndex out = d2i"
    and r: "\<forall>b. reach F b \<longrightarrow> bits BV (res_in (df_result out b)) = ix ` {v \<in> set D. live_in F b v} \<and>
        bits BV (res_out (df_result out b)) = ix ` {v \<in> set D. live_out F b v} \<and>
        bv_size BV (res_out (df_result out b)) = (if fn_ret F b \<or> fn_succs F b \<noteq> [] then n else 0)"
    and u: "\<forall>b\<in>set (fn_blocks F). \<not> reach F b \<longrightarrow>
        bv_size BV (res_out (df_result out b)) = (if fn_ret F b then n else 0)"
    using live_run_exact by (elim exE conjE) (rule that)
  have "fold_res (live_report_block BV P F D out) (fn_blocks F) (d2i, []) = Inr (d2i,
      [] @ concat (map (\<lambda>b. rule_line # report_lines P F b (fn_insns F b)) (fn_blocks F)))"
    using r assms by (intro report_blocks_ok) auto
  then show ?thesis
    using run d by (simp add: live_runOnFunction_def)
qed

text \<open>The failures of the report are reads and writes out of range.\<close>

lemma report_block_only_fails: "only_fails OutOfRange (live_report_block BV P F ds out b st)"
  unfolding live_report_block_def live_report_insn_def by (intro only_fails_intros)

theorem report_stops:
  assumes b: "b \<in> set (fn_blocks F)" and "\<not> fn_ret F b" and "\<not> reach F b \<or> fn_succs F b = []" and "D \<noteq> []"
  shows "live_runOnFunction BV P F = Some (Inl OutOfRange)"
proof -
  obtain out where run: "live_run BV F = Some (Inr out)" and d: "df_domainToIndex out = d2i"
    and r: "\<forall>b. reach F b \<longrightarrow> bits BV (res_in (df_result out b)) = ix ` {v \<in> set D. live_in F b v} \<and>
        bits BV (res_out (df_result out b)) = ix ` {v \<in> set D. live_out F b v} \<and>
        bv_size BV (res_out (df_result out b)) = (if fn_ret F b \<or> fn_succs F b \<noteq> [] then n else 0)"
    and u: "\<forall>b\<in>set (fn_blocks F). \<not> reach F b \<longrightarrow>
        bv_size BV (res_out (df_result out b)) = (if fn_ret F b then n else 0)"
    using live_run_exact by (elim exE conjE) (rule that)
  have "bv_size BV (res_out (df_result out b)) = 0"
    using r u assms by (cases "reach F b") simp_all
  then have "printSet BV t D (res_out (df_result out b)) = Inl OutOfRange" for t
    using assms(4) by (intro printSet_short) simp
  then have fails: "live_report_block BV P F D out b st = Inl OutOfRange" for st
    by (simp add: live_report_block_def split: prod.splits)
  have "fold_res (live_report_block BV P F D out) (fn_blocks F) st = Inl OutOfRange" for st
    by (rule fold_res_fails [where f = "live_report_block BV P F D out" and x = b, OF b])
      (rule fails, rule report_block_only_fails [unfolded only_fails_def, rule_format])
  then show ?thesis
    using run by (simp add: live_runOnFunction_def)
qed

end

subsection \<open>The properties\<close>

lemma sample_live_domain:
  "live_domain counting_loop = [VInst 3, VInst 1, VArg 0, VInst 2]"
  "live_domain loop_with_dead_block = [VInst 3, VInst 1, VArg 0, VInst 2]"
  by (simp_all add: live_domain_def all_insns_def sample_defs is_tracked_def push_new_def)

lemma sample_wf_phis: "wf_phis counting_loop" "wf_phis loop_with_dead_block"
  by (auto simp: wf_phis_def all_insns_def sample_defs)

lemma sample_no_self_use: "no_self_use counting_loop"
  by (simp add: no_self_use_def all_insns_def sample_defs uses_def self_def)

interpretation sample_live: live_setup bl_ops counting_loop
  by unfold_locales (rule live_domain_distinct, rule wf_counting_loop, rule sample_wf_phis)

lemma live_setupI: "bitvector BV \<Longrightarrow> wf_cfg F \<Longrightarrow> wf_phis F \<Longrightarrow> live_setup BV F"
  by (intro live_setup.intro live_setup_axioms.intro domain_bits.intro domain_bits_axioms.intro live_domain_distinct)

text \<open>
  C1: on every well-formed function the liveness pass returns, and for every reachable block the
  vectors \<open>in\<close> and \<open>out\<close> hold exactly the values that are live there along some path: read on
  it (by an instruction, or by a phi node on the edge) before they are defined.
\<close>

theorem liveness_exact:
  assumes "bitvector BV" and "wf_cfg F" and "wf_phis F"
  shows "\<exists>out. live_run BV F = Some (Inr out) \<and>
    (\<forall>b. reach F b \<longrightarrow>
       bits BV (res_in (df_result out b)) = idx (live_domain F) ` {v \<in> set (live_domain F). live_in F b v} \<and>
       bits BV (res_out (df_result out b)) = idx (live_domain F) ` {v \<in> set (live_domain F). live_out F b v})"
  using live_setup.live_run_exact [OF live_setupI [OF assms]] by (elim ex_forward) simp

theorem liveness_exact_witness:
  "bitvector bl_ops \<and> wf_cfg counting_loop \<and> wf_phis counting_loop \<and>
   (\<exists>out. live_run bl_ops counting_loop = Some (Inr out) \<and>
     bits bl_ops (res_out (df_result out 0)) =
       idx (live_domain counting_loop) ` {v \<in> set (live_domain counting_loop). live_out counting_loop 0 v})"
proof (intro conjI bl.bitvector_axioms wf_counting_loop sample_wf_phis(1))
  show "\<exists>out. live_run bl_ops counting_loop = Some (Inr out) \<and>
     bits bl_ops (res_out (df_result out 0)) =
       idx (live_domain counting_loop) ` {v \<in> set (live_domain counting_loop). live_out counting_loop 0 v}"
    using liveness_exact [OF bl.bitvector_axioms wf_counting_loop sample_wf_phis(1)]
    by (elim ex_forward) (simp add: reach_loop)
qed

text \<open>
  C2: when every block is reachable and ends in a return or a jump, the pass prints, before each
  instruction that is not a phi node and at the end of each block, exactly the values live at
  that point; it reports that nothing was modified.
\<close>

theorem liveness_report_exact:
  assumes "bitvector BV" and "wf_cfg F" and "wf_phis F" and "no_self_use F"
    and "\<And>b. b \<in> set (fn_blocks F) \<Longrightarrow> reach F b \<and> (fn_ret F b \<or> fn_succs F b \<noteq> [])"
  shows "live_runOnFunction BV P F = Some (Inr (False,
    concat (map (\<lambda>b. rule_line # report_lines P F b (fn_insns F b)) (fn_blocks F))))"
  by (rule live_setup.report_exact [OF live_setupI [OF assms(1-3)] assms(4,5)])

theorem liveness_report_exact_witness:
  "bitvector bl_ops \<and> wf_cfg counting_loop \<and> wf_phis counting_loop \<and> no_self_use counting_loop \<and>
   live_runOnFunction bl_ops sample_printer counting_loop = Some (Inr (False,
     concat (map (\<lambda>b. rule_line # report_lines sample_printer counting_loop b (loop_insns b)) [0, 1, 2, 3])))"
proof -
  have "reach counting_loop b \<and> (fn_ret counting_loop b \<or> fn_succs counting_loop b \<noteq> [])"
    if "b \<in> set (fn_blocks counting_loop)" for b
    using that reach_loop [of counting_loop b] by (auto simp: sample_defs)
  note liveness_report_exact [OF bl.bitvector_axioms wf_counting_loop sample_wf_phis(1) sample_no_self_use this,
      of sample_printer]
  then show ?thesis
    using bl.bitvector_axioms wf_counting_loop sample_wf_phis(1) sample_no_self_use
    by (simp add: counting_loop_def)
qed

text \<open>
  C3: when the function has tracked values, a block no path reaches that does not return (or a
  reachable block that neither returns nor jumps) makes the report read past the end of an empty
  vector: the pass stops with a failed range assertion instead of reporting.
\<close>

theorem liveness_report_stops:
  assumes "bitvector BV" and "wf_cfg F" and "wf_phis F" and "live_domain F \<noteq> []"
    and "b \<in> set (fn_blocks F)" and "\<not> fn_ret F b" and "\<not> reach F b \<or> fn_succs F b = []"
  shows "live_runOnFunction BV P F = Some (Inl OutOfRange)"
  by (rule live_setup.report_stops [OF live_setupI [OF assms(1-3)] assms(5-7) assms(4)])

theorem liveness_report_stops_witness:
  "live_runOnFunction bl_ops sample_printer loop_with_dead_block = Some (Inl OutOfRange) \<and>
   (4::nat) \<in> set (fn_blocks loop_with_dead_block) \<and> \<not> reach loop_with_dead_block 4"
proof -
  have b: "4 \<in> set (fn_blocks loop_with_dead_block)" and r: "\<not> reach loop_with_dead_block 4"
    and n: "\<not> fn_ret loop_with_dead_block 4"
    using reach_loop [of loop_with_dead_block 4] by (simp_all add: sample_defs)
  have d: "live_domain loop_with_dead_block \<noteq> []" by (simp add: sample_live_domain)
  show ?thesis
    using liveness_report_stops [OF bl.bitvector_axioms wf_loop_with_dead_block sample_wf_phis(2) d b n] b r
    by simp
qed

end
