(* ===== verification/MustPaths.thy ===== *)
theory MustPaths
  imports Engine IR
begin

section \<open>Forward intersection analyses compute the meet over all paths\<close>

text \<open>
  Available expressions (\<open>asst2\<close>) and dominance (\<open>asst3\<close>) run the engine forward, with
  intersection, from the empty set at the entry and full sets elsewhere, and with a transfer
  function that adds a set and removes a set. For such an analysis the run of the engine returns
  at every reachable block the indices that every path from the entry establishes.
\<close>

inductive path :: "'z llvm_cfg_scheme \<Rightarrow> block list \<Rightarrow> block \<Rightarrow> bool" for G where
  path_entry: "path G [] (entry G)"
| path_step: "path G p a \<Longrightarrow> b \<in> set (fn_succs G a) \<Longrightarrow> path G (p @ [a]) b"

text \<open>\<open>path G p b\<close>: the blocks executed before control reaches the start of \<open>b\<close>.\<close>

lemma path_reach: "path G p b \<Longrightarrow> reach G b"
  by (induction rule: path.induct) (auto intro: reach.intros)

lemma reach_path: "reach G b \<Longrightarrow> \<exists>p. path G p b"
  by (induction rule: reach.induct) (auto intro: path.intros)

lemma path_blocks_reach: "path G p b \<Longrightarrow> a \<in> set p \<Longrightarrow> reach G a"
  by (induction rule: path.induct) (auto intro: path_reach)

lemma path_into_entry: "wf_cfg G \<Longrightarrow> path G p (entry G) \<Longrightarrow> p = []"
proof (erule path.cases)
  fix q a b
  assume wf: "wf_cfg G" and "entry G = b" "path G q a" "b \<in> set (fn_succs G a)"
  then have "a \<in> set (fn_preds G (entry G))"
    using pred_iff_succ [OF wf entry_in_blocks [OF wf]] reach_in_blocks [OF path_reach wf] by blast
  then show "p = []" using wf by (simp add: wf_cfg_def)
qed simp

lemma path_cases_pred:
  assumes wf: "wf_cfg G" and b: "reach G b" "b \<noteq> entry G"
  shows "path G q b \<longleftrightarrow> (\<exists>p a. q = p @ [a] \<and> path G p a \<and> a \<in> set (fn_preds G b))"
proof -
  have "a \<in> set (fn_preds G b) \<longleftrightarrow> b \<in> set (fn_succs G a)" if "path G p a" for p a
    using pred_iff_succ [OF wf reach_in_blocks [OF b(1) wf]] reach_in_blocks [OF path_reach [OF that] wf]
    by blast
  then show ?thesis
    using b(2) by (subst path.simps) auto
qed

text \<open>What a path establishes when block \<open>a\<close> adds \<open>gen a\<close> and removes \<open>kill a\<close>.\<close>

definition gk :: "(block \<Rightarrow> nat set) \<Rightarrow> (block \<Rightarrow> nat set) \<Rightarrow> block \<Rightarrow> nat set \<Rightarrow> nat set" where
  "gk gen kill a X = gen a \<union> (X - kill a)"

definition flow :: "(block \<Rightarrow> nat set) \<Rightarrow> (block \<Rightarrow> nat set) \<Rightarrow> block list \<Rightarrow> nat set" where
  "flow gen kill p = fold (gk gen kill) p {}"

lemma flow_simps [simp]:
  "flow gen kill [] = {}"
  "flow gen kill (p @ [a]) = gk gen kill a (flow gen kill p)"
  by (simp_all add: flow_def)

lemma gk_mono: "X \<subseteq> Y \<Longrightarrow> gk gen kill a X \<subseteq> gk gen kill a Y"
  by (auto simp: gk_def)

lemma gk_Inter: "P \<noteq> {} \<Longrightarrow> gk gen kill a (\<Inter>x\<in>P. f x) = (\<Inter>x\<in>P. gk gen kill a (f x))"
  by (auto simp: gk_def)

definition all_paths :: "'z llvm_cfg_scheme \<Rightarrow> (block \<Rightarrow> nat set) \<Rightarrow> (block \<Rightarrow> nat set) \<Rightarrow> block \<Rightarrow> nat set" where
  "all_paths G gen kill b = (\<Inter>p\<in>{p. path G p b}. flow gen kill p)"

definition must_res0 ::
  "'bv bitvec_ops \<Rightarrow> 'z llvm_cfg_scheme \<Rightarrow> nat \<Rightarrow> 'bv block_result \<Rightarrow> block \<Rightarrow> 'bv block_result" where
  "must_res0 BV G n intRes =
     init_result BV G [entry G] (boundary_res BV FORWARD (bv_make BV n False)) intRes"

locale must_setup = bitvector BV for BV :: "'bv bitvec_ops" +
  fixes G :: "'z llvm_cfg_scheme"
    and A :: "('d, 'bv) analysis"
    and domain :: "'d list"
    and gen kill :: "block \<Rightarrow> nat set"
    and intRes :: "'bv block_result"
  assumes wf: "wf_cfg G"
    and A_dir: "an_direction A = FORWARD"
    and A_meet: "an_meetup_op A = INTERSECTION"
    and gen_bounded: "b \<in> set (fn_blocks G) \<Longrightarrow> gen b \<subseteq> {..<length domain}"
    and transfer: "b \<in> set (fn_blocks G) \<Longrightarrow> bv_size BV v = length domain \<Longrightarrow>
      \<exists>out. an_transferFn A v domain (index_domain domain) b = Inr out \<and>
        bv_size BV (element out) = length domain \<and> neighborVals out = [] \<and>
        bits BV (element out) = gk gen kill b (bits BV v)"
    and intRes: "intRes = interior_res BV FORWARD (bv_make BV (length domain) True) \<or>
      intRes = interior_res_both BV FORWARD (bv_make BV (length domain) True)"
begin

abbreviation "n \<equiv> length domain"
abbreviation "nbrs \<equiv> block_neighbors FORWARD G"
abbreviation "must_E0 b \<equiv> if b \<in> set (fn_blocks G) \<and> b \<noteq> entry G then {..<n} else {}"
abbreviation "must_F b X \<equiv> if b \<in> set (fn_blocks G) then gk gen kill b X else {}"
abbreviation "res0 \<equiv> must_res0 BV G n intRes"

lemma res0_apply:
  "res0 b = (if b \<in> set (fn_blocks G)
     then (if b = entry G then boundary_res BV FORWARD (bv_make BV n False) else intRes)
     else empty_block_result BV)"
  using entry_in_blocks [OF wf] by (simp add: must_res0_def init_result_def assign_all_apply)

lemma intRes_fields:
  "transferOutput intRes = \<lparr>element = bv_make BV n True, neighborVals = []\<rparr>"
  "res_out intRes = bv_make BV n True"
  using intRes by (auto simp: initial_results)

lemma nbrs_eq: "b \<in> set (fn_blocks G) \<Longrightarrow> nbrs b = fn_preds G b"
  by (simp add: block_neighbors_def)

lemma nbrs_Nil: "reach G b \<Longrightarrow> nbrs b = [] \<longleftrightarrow> b = entry G"
  using nbrs_eq [OF reach_in_blocks [OF _ wf]] reach_pred [OF wf] wf
  by (force simp: wf_cfg_def)

lemma order_reach: "b \<in> set (fn_rpo G) \<longleftrightarrow> reach G b"
  using wf by (simp add: wf_cfg_def)

lemma entry_first: "hd (fn_rpo G) = entry G"
  using wf by (simp add: wf_cfg_def)

lemma preds_in_blocks: "b \<in> set (fn_blocks G) \<Longrightarrow> set (fn_preds G b) \<subseteq> set (fn_blocks G)"
  using pred_iff_succ [OF wf] by blast

end

sublocale must_setup \<subseteq> mu: engine BV INTERSECTION n "fn_rpo G" nbrs "\<lambda>_. {}" must_E0 must_F
  "\<lambda>_ _ _. {}" "\<lambda>_ _. 0" 0 A domain "index_domain domain" "\<lambda>v. bv_size BV v = n"
  "set (fn_blocks G)" res0
proof (unfold_locales, goal_cases)
  case (4 X b)
  then show ?case using gen_bounded by (auto simp: gk_def)
next
  case (13 b)
  then show ?case
    using nbrs_Nil [of b] reach_in_blocks [OF _ wf] by (auto simp: order_reach entry_first is_may_def)
next
  case (17 b v)
  then have "b \<in> set (fn_blocks G)" using reach_in_blocks [OF _ wf] by (simp add: order_reach)
  then show ?case
    using transfer [of b v] 17 by (auto simp: nv_bits_def fun_eq_iff)
next
  case 18
  show ?case using reach_in_blocks [OF _ wf] by (auto simp: order_reach)
next
  case (19 b)
  then show ?case
    using reach_in_blocks [OF _ wf] preds_in_blocks by (auto simp: order_reach nbrs_eq)
qed (auto simp: gk_def is_may_def A_meet A_dir res0_apply intRes_fields initial_results bits_simps
    nbrs_Nil order_reach entry_in_blocks [OF wf])

context must_setup begin

abbreviation "at_in \<equiv> all_paths G gen kill"

definition E_paths :: "block \<Rightarrow> nat set" where
  "E_paths b = (if reach G b then gk gen kill b (at_in b) else must_E0 b)"

lemma flow_bounded: "path G p b \<Longrightarrow> flow gen kill p \<subseteq> {..<n}"
proof (induction rule: path.induct)
  case (path_step p a b)
  then show ?case
    using gen_bounded [OF reach_in_blocks [OF path_reach [OF path_step.hyps(1)] wf]]
    by (auto simp: gk_def)
qed simp

lemma at_in_bounded: "reach G b \<Longrightarrow> at_in b \<subseteq> {..<n}"
  using reach_path [of G b] flow_bounded by (fastforce simp: all_paths_def)

lemma at_in_entry: "at_in (entry G) = {}"
  using path_into_entry [OF wf] path_entry [of G] by (auto simp: all_paths_def)

lemma E_paths_flow:
  "reach G b \<Longrightarrow> E_paths b = (\<Inter>p\<in>{p. path G p b}. flow gen kill (p @ [b]))"
  using reach_path [of G b] gk_Inter [of "{p. path G p b}"] by (auto simp: E_paths_def all_paths_def)

lemma E_paths_bounded: "E_paths b \<subseteq> {..<n}"
proof (cases "reach G b")
  case True
  then show ?thesis
    using at_in_bounded gen_bounded [OF reach_in_blocks [OF True wf]]
    by (auto simp: E_paths_def gk_def)
qed (simp add: E_paths_def)

lemma meet_preds:
  assumes b: "reach G b" "b \<noteq> entry G"
  shows "(\<Inter>a\<in>set (fn_preds G b). E_paths a) = at_in b"
proof
  have blk: "set (fn_preds G b) \<subseteq> set (fn_blocks G)"
    using preds_in_blocks reach_in_blocks [OF b(1) wf] by blast
  have ne: "a \<noteq> entry G" if "\<not> reach G a" for a
    using that reach_entry [of G] by blast
  show "at_in b \<subseteq> (\<Inter>a\<in>set (fn_preds G b). E_paths a)"
  proof (intro INT_greatest)
    fix a assume a: "a \<in> set (fn_preds G b)"
    show "at_in b \<subseteq> E_paths a"
    proof (cases "reach G a")
      case True
      have "path G (p @ [a]) b" if "path G p a" for p
        using path_cases_pred [OF wf b] that a by blast
      then show ?thesis
        unfolding E_paths_flow [OF True] all_paths_def by fastforce
    next
      case False
      then show ?thesis
        using at_in_bounded [OF b(1)] blk a ne by (auto simp: E_paths_def)
    qed
  qed
  show "(\<Inter>a\<in>set (fn_preds G b). E_paths a) \<subseteq> at_in b"
    using path_cases_pred [OF wf b] E_paths_flow path_reach by (fastforce simp: all_paths_def)
qed

lemma meet_paths:
  assumes "reach G b"
  shows "meet_input INTERSECTION nbrs (\<lambda>_. {}) E_paths (\<lambda>_ _. {}) b = at_in b"
proof (cases "b = entry G")
  case True
  then show ?thesis using assms nbrs_Nil at_in_entry by (simp add: meet_input_def)
next
  case False
  then show ?thesis
    using nbrs_Nil [OF assms] meet_preds [OF assms False] nbrs_eq [OF reach_in_blocks [OF assms wf]]
    by (simp add: meet_input_def meet_value_def is_may_def)
qed

lemma paths_solution: "mu.solution E_paths (\<lambda>_ _. {})"
  using reach_in_blocks [OF _ wf] by (auto simp: df_solution_def meet_paths order_reach E_paths_def)

lemma solution_V: "mu.solution E V \<Longrightarrow> V b = (\<lambda>_. {})"
  unfolding df_solution_def by (metis (no_types))

lemma paths_greatest:
  assumes "mu.solution E V" and "path G p b"
  shows "E b \<subseteq> flow gen kill (p @ [b])"
  using assms(2)
proof (induction rule: path.induct)
  case path_entry
  have "E (entry G) = gk gen kill (entry G) (meet_input INTERSECTION nbrs (\<lambda>_. {}) E V (entry G))"
    using assms(1) reach_entry [of G] entry_in_blocks [OF wf] by (simp add: df_solution_def order_reach)
  then show ?case
    using nbrs_Nil [OF reach_entry] by (simp add: meet_input_def flow_def)
next
  case (path_step p a b)
  have r: "reach G b" using path_step path_reach reach_succ by blast
  note V = solution_V [OF assms(1)]
  have a: "a \<in> set (nbrs b)"
    using path_step nbrs_eq [OF reach_in_blocks [OF r wf]] pred_iff_succ [OF wf reach_in_blocks [OF r wf]]
      reach_in_blocks [OF path_reach [OF path_step.hyps(1)] wf] by simp
  then have "meet_input INTERSECTION nbrs (\<lambda>_. {}) E V b \<subseteq> E a"
    by (auto simp: meet_input_def meet_value_def is_may_def V)
  then have "meet_input INTERSECTION nbrs (\<lambda>_. {}) E V b \<subseteq> flow gen kill (p @ [a])"
    using path_step.IH by blast
  then show ?case
    using assms(1) r reach_in_blocks [OF r wf] gk_mono
    by (subst flow_simps) (simp add: df_solution_def order_reach)
qed

text \<open>
  The run returns; at each reachable block \<open>in\<close> holds what all paths establish, and the
  vectors have the size of the domain. A block the traversal misses keeps its initial result.
\<close>

theorem must_run_exact:
  "\<exists>res. run_engine BV A G domain (boundary_res BV FORWARD (bv_make BV n False)) intRes =
     Some (Inr \<lparr>df_result = res, df_domainToIndex = index_domain domain, df_modified = False\<rparr>) \<and>
   (\<forall>b. reach G b \<longrightarrow> bits BV (res_in (res b)) = at_in b \<and> bv_size BV (res_in (res b)) = n \<and>
      bits BV (res_out (res b)) = gk gen kill b (at_in b) \<and> bv_size BV (res_out (res b)) = n) \<and>
   (\<forall>b\<in>set (fn_blocks G). \<not> reach G b \<longrightarrow> res b = intRes)"
proof -
  obtain res where run: "mu.loop res0 = Some (Inr res)"
      and rest: "\<forall>b. b \<notin> set (fn_rpo G) \<longrightarrow> res b = res0 b"
      and sol: "mu.solution (st_E (mu.ast res)) (st_V (mu.ast res))"
      and io: "\<forall>b\<in>set (fn_rpo G). bits BV (block_input FORWARD (res b)) = mu.inp (mu.ast res) b \<and>
        bits BV (block_output FORWARD (res b)) = st_E (mu.ast res) b \<and> mu.fits res b \<and>
        (nbrs b = [] \<longrightarrow> block_input FORWARD (res b) = block_input FORWARD (res0 b))"
      and great: "\<forall>E V. mu.solution E V \<longrightarrow> (\<forall>b. E b \<subseteq> {..<n}) \<longrightarrow>
        (\<forall>b. info_le INTERSECTION (st_E (mu.ast res) b) (E b))"
    using mu.run_returns unfolding A_dir by (elim exE conjE) (rule that)
  have V: "st_V (mu.ast res) = (\<lambda>_ _. {})"
    using solution_V [OF sol] by blast
  have E: "st_E (mu.ast res) = E_paths"
  proof (intro ext equalityI)
    fix b
    show "E_paths b \<subseteq> st_E (mu.ast res) b"
      using great [rule_format, OF paths_solution E_paths_bounded] by (simp add: info_le_def is_may_def)
    show "st_E (mu.ast res) b \<subseteq> E_paths b"
    proof (cases "reach G b")
      case True
      then show ?thesis
        using paths_greatest [OF sol] by (auto simp: E_paths_flow)
    next
      case False
      then show ?thesis
        using sol by (auto simp: df_solution_def order_reach E_paths_def)
    qed
  qed
  have "run_engine BV A G domain (boundary_res BV FORWARD (bv_make BV n False)) intRes =
      Some (Inr \<lparr>df_result = res, df_domainToIndex = index_domain domain, df_modified = False\<rparr>)"
    using run wf by (cases "fn_blocks G") (simp_all add: run_engine_def boundary_blocks_def A_dir must_res0_def
        entry_def traversal_order_def Let_def wf_cfg_def)
  moreover have "bv_size BV (res_in (res b)) = n" if "reach G b" for b
  proof (cases "b = entry G")
    case True
    then show ?thesis
      using io that nbrs_Nil [OF that] entry_in_blocks [OF wf]
      by (simp add: order_reach block_input_def res0_apply boundary_res_def bits_simps Let_def)
  next
    case False
    then show ?thesis
      using io that nbrs_Nil [OF that] unfolding mu.fits_def A_dir by (simp add: order_reach block_input_def)
  qed
  moreover have "bits BV (res_in (res b)) = at_in b \<and> bits BV (res_out (res b)) = gk gen kill b (at_in b) \<and>
      bv_size BV (res_out (res b)) = n" if "reach G b" for b
    using io that meet_paths [OF that] E V unfolding mu.fits_def A_dir
    by (simp add: order_reach block_input_def block_output_def E_paths_def)
  moreover have "res b = intRes" if "b \<in> set (fn_blocks G)" "\<not> reach G b" for b
    using rest that reach_entry [of G] by (auto simp: order_reach res0_apply)
  ultimately show ?thesis by (intro exI [of _ res]) simp
qed

end

end
