(* ===== verification/Available.thy ===== *)
theory Available
  imports MustPaths Sample
begin

section \<open>Available expressions\<close>

text \<open>
  \<open>asst2/ClassicalDataflow/available.cpp\<close>: the transfer function of \<open>AEAnalysis\<close>, the domain
  of expressions \<open>runOnFunction\<close> collects, and its report. The source keeps pointers to
  expression objects in the domain and compares the objects; the domain never holds two equal
  objects, so the model keeps the objects themselves.
\<close>

record 'bv avail_state =
  av_gen :: 'bv
  av_kill :: 'bv
  av_d2i :: "(expression \<times> nat) list"

text \<open>The first element of the domain equal to the expression.\<close>

definition find_match :: "expression list \<Rightarrow> expression \<Rightarrow> expression option" where
  "find_match domain expr = List.find (expr_eq expr) domain"

definition avail_gen_insn ::
  "'bv bitvec_ops \<Rightarrow> expression list \<Rightarrow> instr \<Rightarrow> 'bv avail_state \<Rightarrow> 'bv avail_state result" where
  "avail_gen_insn BV domain I s =
     (case in_binop I of
        None \<Rightarrow> Inr s
      | Some _ \<Rightarrow> bind_res (expression_of I) (\<lambda>expr.
          case find_match domain expr of
            None \<Rightarrow> Inr s
          | Some match \<Rightarrow>
              (let (valInd, d2i) = map_index 0 (av_d2i s) match
               in bind_res (bv_set BV (av_gen s) valInd) (\<lambda>g.
                    Inr (s\<lparr>av_gen := g, av_d2i := d2i\<rparr>)))))"

text \<open>\<open>op1.equals(insn) || op2.equals(insn)\<close>, by name.\<close>

definition names_operand :: "'z ir_function_scheme \<Rightarrow> string \<Rightarrow> expression \<Rightarrow> bool" where
  "names_operand F insn expr = (fn_vname F (ex_v1 expr) = insn \<or> fn_vname F (ex_v2 expr) = insn)"

definition avail_kill_expr ::
  "'bv bitvec_ops \<Rightarrow> 'z ir_function_scheme \<Rightarrow> string \<Rightarrow> expression \<Rightarrow> 'bv avail_state \<Rightarrow>
    'bv avail_state result" where
  "avail_kill_expr BV F insn expr s =
     (if names_operand F insn expr
      then (case map_of (av_d2i s) expr of
              None \<Rightarrow> Inr s
            | Some i \<Rightarrow> bind_res (bv_set BV (av_kill s) i) (\<lambda>k.
                        bind_res (bv_reset BV (av_gen s) i) (\<lambda>g.
                          Inr (s\<lparr>av_kill := k, av_gen := g\<rparr>))))
      else Inr s)"

definition avail_insn ::
  "'bv bitvec_ops \<Rightarrow> 'z ir_function_scheme \<Rightarrow> expression list \<Rightarrow> instr \<Rightarrow> 'bv avail_state \<Rightarrow>
    'bv avail_state result" where
  "avail_insn BV F domain I s =
     bind_res (avail_gen_insn BV domain I s) (\<lambda>s.
       let insn = fn_vname F (self I)
       in if insn \<noteq> [] then fold_res (avail_kill_expr BV F insn) domain s else Inr s)"

definition avail_transferFn ::
  "'bv bitvec_ops \<Rightarrow> 'z ir_function_scheme \<Rightarrow> 'bv \<Rightarrow> expression list \<Rightarrow> (expression \<times> nat) list \<Rightarrow>
    block \<Rightarrow> 'bv transfer_output result" where
  "avail_transferFn BV F input domain domainToIndex blk =
     (let domainSize = length domainToIndex
      in bind_res (fold_res (avail_insn BV F domain) (fn_insns F blk)
           \<lparr>av_gen = bv_make BV domainSize False, av_kill = bv_make BV domainSize False,
            av_d2i = domainToIndex\<rparr>) (\<lambda>s.
         Inr \<lparr>element = bv_or BV (bv_and BV (bv_flip BV (av_kill s)) input) (av_gen s),
              neighborVals = []\<rparr>))"

definition availableAnalysis ::
  "'bv bitvec_ops \<Rightarrow> 'z ir_function_scheme \<Rightarrow> (expression, 'bv) analysis" where
  "availableAnalysis BV F =
     \<lparr>an_direction = FORWARD, an_meetup_op = INTERSECTION, an_transferFn = avail_transferFn BV F\<rparr>"

subsection \<open>The pass\<close>

definition avail_collect :: "instr \<Rightarrow> expression list \<Rightarrow> expression list result" where
  "avail_collect I domain =
     (case in_binop I of
        None \<Rightarrow> Inr domain
      | Some _ \<Rightarrow> bind_res (expression_of I) (\<lambda>expr.
          if list_ex (expr_eq expr) domain then Inr domain else Inr (domain @ [expr])))"

definition avail_domain :: "'z ir_function_scheme \<Rightarrow> expression list result" where
  "avail_domain F = fold_res avail_collect (all_insns F) []"

definition avail_run ::
  "'bv bitvec_ops \<Rightarrow> 'z ir_function_scheme \<Rightarrow> expression list \<Rightarrow>
    (expression, 'bv) dataflow_result result option" where
  "avail_run BV F domain =
     run BV (availableAnalysis BV F) F domain
       (bv_make BV (length domain) False) (bv_make BV (length domain) True)"

text \<open>The forward walk of the report: the available set, the index map, the lines so far.\<close>

definition avail_report_kill ::
  "'bv bitvec_ops \<Rightarrow> 'z ir_function_scheme \<Rightarrow> (expression \<times> nat) list \<Rightarrow> string \<Rightarrow> expression \<Rightarrow> 'bv \<Rightarrow>
    'bv result" where
  "avail_report_kill BV F d2i insn expr avail =
     (if names_operand F insn expr
      then (case map_of d2i expr of None \<Rightarrow> Inr avail | Some i \<Rightarrow> bv_reset BV avail i)
      else Inr avail)"

definition avail_report_gen ::
  "'bv bitvec_ops \<Rightarrow> expression list \<Rightarrow> instr \<Rightarrow> 'bv \<times> (expression \<times> nat) list \<Rightarrow>
    ('bv \<times> (expression \<times> nat) list) result" where
  "avail_report_gen BV domain I st =
     (let (avail, d2i) = st
      in case in_binop I of
           None \<Rightarrow> Inr (avail, d2i)
         | Some _ \<Rightarrow> bind_res (expression_of I) (\<lambda>expr.
             case find_match domain expr of
               None \<Rightarrow> Inr (avail, d2i)
             | Some match \<Rightarrow>
                 (let (valInd, d2i) = map_index 0 d2i match
                  in bind_res (bv_set BV avail valInd) (\<lambda>avail. Inr (avail, d2i)))))"

definition avail_report_insn ::
  "'bv bitvec_ops \<Rightarrow> value_printer \<Rightarrow> 'z ir_function_scheme \<Rightarrow> expression list \<Rightarrow> instr \<Rightarrow>
    'bv \<times> (expression \<times> nat) list \<times> string list \<Rightarrow>
    ('bv \<times> (expression \<times> nat) list \<times> string list) result" where
  "avail_report_insn BV P F domain I st =
     (let (avail, d2i, out) = st;
          out = out @ [replicate WIDTH CHR '' '' @ printValue P (self I)]
      in bind_res (avail_report_gen BV domain I (avail, d2i)) (\<lambda>(avail, d2i).
         bind_res (let insn_str = fn_vname F (self I)
                   in if insn_str \<noteq> []
                      then fold_res (avail_report_kill BV F d2i insn_str) domain avail
                      else Inr avail) (\<lambda>avail.
           if in_phi I = None
           then bind_res (printSet BV (Some \<circ> toString P) domain avail) (\<lambda>text.
                  Inr (avail, d2i, out @ [pad_left WIDTH text]))
           else Inr (avail, d2i, out))))"

definition avail_report_block ::
  "'bv bitvec_ops \<Rightarrow> value_printer \<Rightarrow> 'z ir_function_scheme \<Rightarrow> expression list \<Rightarrow>
    (expression, 'bv) dataflow_result \<Rightarrow> block \<Rightarrow>
    (expression \<times> nat) list \<times> string list \<Rightarrow> ((expression \<times> nat) list \<times> string list) result" where
  "avail_report_block BV P F domain output blk st =
     (let (d2i, printed) = st;
          avail = res_in (df_result output blk)
      in bind_res (printSet BV (Some \<circ> toString P) domain avail) (\<lambda>text.
         bind_res (fold_res (avail_report_insn BV P F domain) (fn_insns F blk)
             (avail, d2i, [rule_line, pad_left WIDTH text @ '' :: BB Entry''])) (\<lambda>(avail, d2i, out).
           Inr (d2i, printed @ out @ [rule_line]))))"

definition avail_runOnFunction ::
  "'bv bitvec_ops \<Rightarrow> value_printer \<Rightarrow> 'z ir_function_scheme \<Rightarrow> (bool \<times> string list) result option" where
  "avail_runOnFunction BV P F =
     (case avail_domain F of
        Inl e \<Rightarrow> Some (Inl e)
      | Inr domain \<Rightarrow>
          map_option (\<lambda>r. bind_res r (\<lambda>output.
              bind_res (fold_res (avail_report_block BV P F domain output) (fn_blocks F)
                  (index_domain domain, [])) (\<lambda>(_, printed). Inr (False, printed))))
            (avail_run BV F domain))"

subsection \<open>What availability means\<close>

text \<open>
  An instruction computes its expression and invalidates the expressions that have an operand
  with its name. Along a path the instructions act one after the other.
\<close>

definition computes :: "instr \<Rightarrow> expression set" where
  "computes i = (case expression_of i of Inl _ \<Rightarrow> {} | Inr e \<Rightarrow> {e})"

definition invalidates :: "'z ir_function_scheme \<Rightarrow> instr \<Rightarrow> expression set" where
  "invalidates F i = {e. fn_vname F (self i) \<noteq> [] \<and> names_operand F (fn_vname F (self i)) e}"

definition av_insns :: "'z ir_function_scheme \<Rightarrow> instr list \<Rightarrow> expression set \<Rightarrow> expression set" where
  "av_insns F is X = fold (\<lambda>i X. (X \<union> computes i) - invalidates F i) is X"

definition av_path :: "'z ir_function_scheme \<Rightarrow> block list \<Rightarrow> expression set" where
  "av_path F p = fold (\<lambda>a. av_insns F (fn_insns F a)) p {}"

definition available_in :: "'z ir_function_scheme \<Rightarrow> block \<Rightarrow> expression set" where
  "available_in F b = {e. \<forall>p. path F p b \<longrightarrow> e \<in> av_path F p}"

text \<open>What LLVM guarantees of a \<open>BinaryOperator\<close>: it has two operands.\<close>

definition wf_binops :: "'z ir_function_scheme \<Rightarrow> bool" where
  "wf_binops F \<longleftrightarrow> (\<forall>i\<in>set (all_insns F). in_binop i \<noteq> None \<longrightarrow> length (in_ops i) = 2)"

definition killed :: "'z ir_function_scheme \<Rightarrow> instr list \<Rightarrow> expression set" where
  "killed F is = (\<Union>i\<in>set is. invalidates F i)"

lemma av_insns_simps [simp]:
  "av_insns F [] X = X"
  "av_insns F (i # is) X = av_insns F is ((X \<union> computes i) - invalidates F i)"
  "av_insns F (is @ [i]) X = (av_insns F is X \<union> computes i) - invalidates F i"
  by (simp_all add: av_insns_def)

lemma av_insns_split: "av_insns F is X = av_insns F is {} \<union> (X - killed F is)"
  by (induction "is" rule: rev_induct) (auto simp: killed_def)

lemma av_path_snoc [simp]: "av_path F [] = {}" "av_path F (p @ [a]) = av_insns F (fn_insns F a) (av_path F p)"
  by (simp_all add: av_path_def)

lemma expr_eq_iff [simp]: "expr_eq e1 e2 \<longleftrightarrow> e1 = e2"
  by (auto simp: expr_eq_def)

lemma find_match_eq: "find_match ds e = (if e \<in> set ds then Some e else None)"
  unfolding find_match_def by (induction ds) auto

lemma expression_of_total:
  "in_binop i \<noteq> None \<Longrightarrow> length (in_ops i) = 2 \<Longrightarrow> \<exists>e. expression_of i = Inr e"
  by (auto simp: expression_of_def length_Suc_conv numeral_2_eq_2 split: option.splits)

lemma expression_of_binop: "expression_of i = Inr e \<Longrightarrow> in_binop i \<noteq> None"
  by (auto simp: expression_of_def split: option.splits)

lemma computes_None: "in_binop i = None \<Longrightarrow> computes i = {}"
  by (simp add: computes_def expression_of_def)

subsection \<open>The domain\<close>

lemma avail_collect_ok:
  assumes "in_binop i \<noteq> None \<longrightarrow> length (in_ops i) = 2" and "distinct ds"
  shows "\<exists>ds'. avail_collect i ds = Inr ds' \<and> distinct ds' \<and> set ds' = set ds \<union> computes i"
proof (cases "in_binop i")
  case None
  then show ?thesis using assms(2) by (simp add: avail_collect_def computes_None)
next
  case (Some op)
  then obtain e where e: "expression_of i = Inr e"
    using expression_of_total assms(1) by blast
  then show ?thesis
    using Some assms(2) by (auto simp: avail_collect_def computes_def list_ex_iff)
qed

lemma avail_collect_fold:
  assumes "\<forall>i\<in>set is. in_binop i \<noteq> None \<longrightarrow> length (in_ops i) = 2" and "distinct ds"
  shows "\<exists>ds'. fold_res avail_collect is ds = Inr ds' \<and> distinct ds' \<and>
    set ds' = set ds \<union> (\<Union>i\<in>set is. computes i)"
  using assms
proof (induction "is" arbitrary: ds)
  case (Cons i "is")
  obtain d1 where d1: "avail_collect i ds = Inr d1" "distinct d1" "set d1 = set ds \<union> computes i"
    using avail_collect_ok Cons.prems by (meson list.set_intros(1))
  then show ?case
    using Cons.IH [OF _ d1(2)] Cons.prems(1) by auto
qed simp

lemma avail_domain_ok:
  assumes "wf_binops F"
  shows "\<exists>D. avail_domain F = Inr D \<and> distinct D \<and> set D = (\<Union>i\<in>set (all_insns F). computes i)"
  using avail_collect_fold [of "all_insns F" "[]"] assms by (simp add: avail_domain_def wf_binops_def)

locale avail_setup = bitvector BV for BV :: "'bv bitvec_ops" +
  fixes F :: "'z ir_function_scheme" and D :: "expression list"
  assumes wf: "wf_cfg F" and binops: "wf_binops F" and dom: "avail_domain F = Inr D"
begin

abbreviation "ix \<equiv> idx D"
abbreviation "d2i \<equiv> index_domain D"

lemma D_distinct: "distinct D" and D_set: "set D = (\<Union>i\<in>set (all_insns F). computes i)"
  using avail_domain_ok [OF binops] dom by auto

definition holds :: "'bv \<Rightarrow> expression set \<Rightarrow> bool" where
  "holds v X \<longleftrightarrow> bv_size BV v = length D \<and> bits BV v = ix ` X"

lemma d2i_find: "map_of d2i e = (if e \<in> set D then Some (ix e) else None)"
  by (rule index_domain_find [OF D_distinct])

lemma d2i_index: "e \<in> set D \<Longrightarrow> map_index 0 d2i e = (ix e, d2i)"
  by (simp add: map_index_present d2i_find)

lemma ix_bound: "e \<in> set D \<Longrightarrow> ix e < length D"
  by (rule index_domain_in [OF D_distinct])

lemma ix_diff: "X \<subseteq> set D \<Longrightarrow> Y \<subseteq> set D \<Longrightarrow> ix ` (X - Y) = ix ` X - ix ` Y"
  using inj_on_image_set_diff [OF idx_inj [OF D_distinct], of X Y] by auto

lemma holds_make: "holds (bv_make BV (length D) False) {}"
  by (simp add: holds_def bits_simps)

lemma holds_set:
  "holds v X \<Longrightarrow> e \<in> set D \<Longrightarrow> \<exists>w. bv_set BV v (ix e) = Inr w \<and> holds w (insert e X)"
  using bv_set_Inr [of "ix e" v] ix_bound [of e] by (auto simp: holds_def)

lemma holds_reset:
  "holds v X \<Longrightarrow> e \<in> set D \<Longrightarrow> X \<subseteq> set D \<Longrightarrow>
    \<exists>w. bv_reset BV v (ix e) = Inr w \<and> holds w (X - {e})"
  using bv_reset_Inr [of "ix e" v] ix_bound [of e] ix_diff [of X "{e}"] by (auto simp: holds_def)

lemma block_all_insns: "b \<in> set (fn_blocks F) \<Longrightarrow> set (fn_insns F b) \<subseteq> set (all_insns F)"
  by (auto simp: all_insns_def)

lemma computes_domain: "i \<in> set (all_insns F) \<Longrightarrow> computes i \<subseteq> set D"
  by (auto simp: D_set)

lemma binop_cases:
  assumes "i \<in> set (all_insns F)"
  obtains "in_binop i = None" and "computes i = {}"
  | e where "in_binop i \<noteq> None" and "expression_of i = Inr e" and "computes i = {e}" and "e \<in> set D"
proof (cases "in_binop i")
  case None
  then show ?thesis using that(1) computes_None by blast
next
  case (Some op)
  then obtain e where "expression_of i = Inr e"
    using expression_of_total binops assms by (fastforce simp: wf_binops_def)
  then show ?thesis
    using that(2) [of e] Some computes_domain [OF assms] by (simp add: computes_def)
qed

subsubsection \<open>The transfer function\<close>

definition tracks :: "instr list \<Rightarrow> 'bv avail_state \<Rightarrow> bool" where
  "tracks xs s \<longleftrightarrow> av_d2i s = d2i \<and> holds (av_gen s) (av_insns F xs {}) \<and>
     holds (av_kill s) (killed F xs \<inter> set D)"

lemma gen_insn_ok:
  assumes "av_d2i s = d2i" and "holds (av_gen s) X" and "i \<in> set (all_insns F)"
  shows "\<exists>g. avail_gen_insn BV D i s = Inr (s\<lparr>av_gen := g\<rparr>) \<and> holds g (X \<union> computes i)"
  using assms(3)
proof (cases rule: binop_cases)
  case 1
  then show ?thesis using assms(2)
    by (intro exI [of _ "av_gen s"]) (simp add: avail_gen_insn_def)
next
  case (2 e)
  then show ?thesis
    using holds_set [OF assms(2), of e] assms(1)
    by (cases s) (auto simp: avail_gen_insn_def find_match_eq d2i_index)
qed

lemma kill_fold_ok:
  assumes "av_d2i s = d2i" and "holds (av_gen s) X" and "X \<subseteq> set D" and "holds (av_kill s) Y"
    and "set ds \<subseteq> set D"
  shows "\<exists>g k. fold_res (avail_kill_expr BV F nm) ds s = Inr (s\<lparr>av_gen := g, av_kill := k\<rparr>) \<and>
    holds g (X - {e \<in> set ds. names_operand F nm e}) \<and> holds k (Y \<union> {e \<in> set ds. names_operand F nm e})"
  using assms
proof (induction ds arbitrary: s X Y)
  case Nil
  then show ?case by (intro exI [of _ "av_gen s"] exI [of _ "av_kill s"]) simp
next
  case (Cons e ds)
  show ?case
  proof (cases "names_operand F nm e")
    case False
    then have "{x \<in> set (e # ds). names_operand F nm x} = {x \<in> set ds. names_operand F nm x}" by auto
    then show ?thesis
      using Cons False by (simp add: avail_kill_expr_def)
  next
    case True
    have e: "e \<in> set D" using Cons.prems(5) by simp
    obtain k g where k: "bv_set BV (av_kill s) (ix e) = Inr k" "holds k (insert e Y)"
      and g: "bv_reset BV (av_gen s) (ix e) = Inr g" "holds g (X - {e})"
      using holds_set [OF Cons.prems(4) e] holds_reset [OF Cons.prems(2) e Cons.prems(3)] by blast
    let ?s = "s\<lparr>av_kill := k, av_gen := g\<rparr>"
    have "avail_kill_expr BV F nm e s = Inr ?s"
      using True k(1) g(1) e Cons.prems(1) by (simp add: avail_kill_expr_def d2i_find)
    moreover have "\<exists>g' k'. fold_res (avail_kill_expr BV F nm) ds ?s = Inr (?s\<lparr>av_gen := g', av_kill := k'\<rparr>) \<and>
        holds g' ((X - {e}) - {x \<in> set ds. names_operand F nm x}) \<and>
        holds k' (insert e Y \<union> {x \<in> set ds. names_operand F nm x})"
      using Cons.prems k(2) g(2) by (intro Cons.IH) auto
    moreover have "(X - {e}) - {x \<in> set ds. names_operand F nm x} = X - {x \<in> set (e # ds). names_operand F nm x}"
        "insert e Y \<union> {x \<in> set ds. names_operand F nm x} = Y \<union> {x \<in> set (e # ds). names_operand F nm x}"
      using True by auto
    ultimately show ?thesis by (simp del: list.set)
  qed
qed

lemma av_insns_domain: "set is \<subseteq> set (all_insns F) \<Longrightarrow> X \<subseteq> set D \<Longrightarrow> av_insns F is X \<subseteq> set D"
  using computes_domain by (induction "is" rule: rev_induct) auto

lemma avail_insn_ok:
  assumes t: "tracks xs s" and i: "i \<in> set (all_insns F)" and xs: "set xs \<subseteq> set (all_insns F)"
  shows "\<exists>s'. avail_insn BV F D i s = Inr s' \<and> tracks (xs @ [i]) s'"
proof -
  let ?X = "av_insns F xs {} \<union> computes i"
  obtain g where g: "avail_gen_insn BV D i s = Inr (s\<lparr>av_gen := g\<rparr>)" "holds g ?X"
    using gen_insn_ok [of s _ i] t i by (auto simp: tracks_def)
  have X: "?X \<subseteq> set D"
    using av_insns_domain [OF xs, of "{}"] computes_domain [OF i] by simp
  show ?thesis
  proof (cases "fn_vname F (self i) = []")
    case True
    then have "invalidates F i = {}" by (simp add: invalidates_def)
    then show ?thesis
      using g t True by (auto simp: avail_insn_def tracks_def killed_def)
  next
    case False
    let ?K = "{e \<in> set D. names_operand F (fn_vname F (self i)) e}"
    obtain g' k where "fold_res (avail_kill_expr BV F (fn_vname F (self i))) D (s\<lparr>av_gen := g\<rparr>) =
        Inr (s\<lparr>av_gen := g, av_gen := g', av_kill := k\<rparr>)"
      "holds g' (?X - ?K)" "holds k ((killed F xs \<inter> set D) \<union> ?K)"
      using kill_fold_ok [of "s\<lparr>av_gen := g\<rparr>" ?X "killed F xs \<inter> set D" D "fn_vname F (self i)"] g(2) X t
      by (auto simp: tracks_def)
    moreover have "?X - ?K = av_insns F (xs @ [i]) {}"
      using False X by (auto simp: invalidates_def)
    moreover have "(killed F xs \<inter> set D) \<union> ?K = killed F (xs @ [i]) \<inter> set D"
      using False by (auto simp: killed_def invalidates_def)
    ultimately show ?thesis
      using g(1) t False by (simp add: avail_insn_def tracks_def)
  qed
qed

lemma avail_insns_ok:
  assumes "tracks xs s" and "set ys \<subseteq> set (all_insns F)" and "set xs \<subseteq> set (all_insns F)"
  shows "\<exists>s'. fold_res (avail_insn BV F D) ys s = Inr s' \<and> tracks (xs @ ys) s'"
  using assms
proof (induction ys arbitrary: xs s)
  case (Cons y ys)
  obtain t where "avail_insn BV F D y s = Inr t" and t: "tracks (xs @ [y]) t"
    using avail_insn_ok [of xs s y] Cons.prems by auto
  then show ?case
    using Cons.IH [OF t] Cons.prems by auto
qed auto

abbreviation "av_gens b \<equiv> ix ` av_insns F (fn_insns F b) {}"
abbreviation "av_kills b \<equiv> ix ` (killed F (fn_insns F b) \<inter> set D)"

lemma avail_transferFn_ok:
  assumes b: "b \<in> set (fn_blocks F)" and v: "bv_size BV v = length D"
  shows "\<exists>out. avail_transferFn BV F v D d2i b = Inr out \<and> bv_size BV (element out) = length D \<and>
    neighborVals out = [] \<and> bits BV (element out) = gk av_gens av_kills b (bits BV v)"
proof -
  let ?s0 = "\<lparr>av_gen = bv_make BV (length D) False, av_kill = bv_make BV (length D) False, av_d2i = d2i\<rparr>"
  have "tracks [] ?s0"
    using holds_make by (simp add: tracks_def killed_def)
  then obtain s where s: "fold_res (avail_insn BV F D) (fn_insns F b) ?s0 = Inr s" "tracks (fn_insns F b) s"
    using avail_insns_ok [of "[]" ?s0 "fn_insns F b"] block_all_insns [OF b] by auto
  have len: "length d2i = length D"
    by (rule index_domain_length [OF D_distinct])
  have "bv_size BV (av_gen s) = length D" "bv_size BV (av_kill s) = length D"
    "bits BV (av_gen s) = av_gens b" "bits BV (av_kill s) = av_kills b"
    using s(2) by (simp_all add: tracks_def holds_def)
  then show ?thesis
    using s(1) v bits_bounded [of v] by (auto simp: avail_transferFn_def len bits_simps gk_def)
qed

end

sublocale avail_setup \<subseteq> am: must_setup BV F "availableAnalysis BV F" D av_gens av_kills
  "interior_res BV FORWARD (bv_make BV (length D) True)"
proof (unfold_locales, goal_cases)
  case (4 b)
  then show ?case using av_insns_domain [OF block_all_insns, of b "{}"] ix_bound by auto
next
  case (5 b v)
  then show ?case using avail_transferFn_ok by (simp add: availableAnalysis_def)
qed (simp_all add: wf availableAnalysis_def)

subsection \<open>The run computes availability along all paths\<close>

text \<open>The report a block should get, from the set \<open>X\<close> available before \<open>is\<close>.\<close>

definition avail_text :: "value_printer \<Rightarrow> expression list \<Rightarrow> expression set \<Rightarrow> string" where
  "avail_text P D X = pad_left WIDTH (set_text (map (toString P) (filter (\<lambda>e. e \<in> X) D)))"

fun avail_lines ::
  "value_printer \<Rightarrow> 'z ir_function_scheme \<Rightarrow> expression list \<Rightarrow> expression set \<Rightarrow> instr list \<Rightarrow> string list" where
  "avail_lines P F D X [] = [rule_line]"
| "avail_lines P F D X (i # is) =
     [replicate WIDTH CHR '' '' @ printValue P (self i)] @
     (if in_phi i = None then [avail_text P D (av_insns F [i] X)] else []) @
     avail_lines P F D (av_insns F [i] X) is"

definition avail_block_lines ::
  "value_printer \<Rightarrow> 'z ir_function_scheme \<Rightarrow> expression list \<Rightarrow> block \<Rightarrow> string list" where
  "avail_block_lines P F D b =
     [rule_line, avail_text P D (available_in F b) @ '' :: BB Entry''] @
     avail_lines P F D (available_in F b) (fn_insns F b)"

context avail_setup begin

lemma av_path_domain: "path F p b \<Longrightarrow> av_path F p \<subseteq> set D"
proof (induction rule: path.induct)
  case (path_step p a b)
  then show ?case
    using av_insns_domain [OF block_all_insns [OF reach_in_blocks [OF path_reach wf]]] by simp
qed simp

lemma flow_av_path: "path F p b \<Longrightarrow> flow av_gens av_kills p = ix ` av_path F p"
proof (induction rule: path.induct)
  case (path_step p a b)
  let ?is = "fn_insns F a"
  have d: "av_path F p \<subseteq> set D" using path_step.hyps(1) by (rule av_path_domain)
  have "ix ` av_insns F ?is (av_path F p) = ix ` av_insns F ?is {} \<union> ix ` (av_path F p - (killed F ?is \<inter> set D))"
    using d av_insns_split [of F ?is "av_path F p"] by (auto simp: image_Un)
  then show ?case
    using path_step.IH d by (simp add: gk_def ix_diff)
qed simp

lemma available_domain: "reach F b \<Longrightarrow> available_in F b \<subseteq> set D"
  using reach_path [of F b] av_path_domain by (fastforce simp: available_in_def)

lemma at_in_available:
  assumes "reach F b"
  shows "all_paths F av_gens av_kills b = ix ` available_in F b"
proof -
  have "all_paths F av_gens av_kills b = (\<Inter>p\<in>{p. path F p b}. ix ` av_path F p)"
    using flow_av_path by (simp add: all_paths_def)
  also have "\<dots> = ix ` (\<Inter>p\<in>{p. path F p b}. av_path F p)"
    using image_INT [OF idx_inj [OF D_distinct], of "{p. path F p b}" "av_path F"] reach_path [OF assms]
      av_path_domain by auto
  also have "(\<Inter>p\<in>{p. path F p b}. av_path F p) = available_in F b"
    by (auto simp: available_in_def)
  finally show ?thesis .
qed

lemma gk_available:
  assumes "reach F b"
  shows "gk av_gens av_kills b (ix ` available_in F b) = ix ` av_insns F (fn_insns F b) (available_in F b)"
proof -
  have "ix ` available_in F b - av_kills b = ix ` (available_in F b - killed F (fn_insns F b))"
    using available_domain [OF assms] ix_diff [of "available_in F b" "killed F (fn_insns F b) \<inter> set D"]
    by (simp, metis Diff_Int_distrib2 Diff_Int2 inf.absorb_iff1 inf_commute)
  then show ?thesis
    by (subst av_insns_split) (simp add: gk_def image_Un)
qed

theorem avail_run_exact:
  "\<exists>res. avail_run BV F D =
     Some (Inr \<lparr>df_result = res, df_domainToIndex = d2i, df_modified = False\<rparr>) \<and>
   (\<forall>b. reach F b \<longrightarrow> holds (res_in (res b)) (available_in F b) \<and>
      holds (res_out (res b)) (av_insns F (fn_insns F b) (available_in F b))) \<and>
   (\<forall>b\<in>set (fn_blocks F). \<not> reach F b \<longrightarrow> bv_size BV (res_in (res b)) = 0)"
proof -
  have "avail_run BV F D = run_engine BV (availableAnalysis BV F) F D
      (boundary_res BV FORWARD (bv_make BV (length D) False))
      (interior_res BV FORWARD (bv_make BV (length D) True))"
    by (simp add: avail_run_def run_def availableAnalysis_def)
  then show ?thesis
    using am.must_run_exact
    by (elim ex_forward) (simp add: holds_def at_in_available gk_available initial_results bits_simps)
qed

theorem avail_bits_exact:
  "\<exists>out. avail_run BV F D = Some (Inr out) \<and>
   (\<forall>b. reach F b \<longrightarrow> available_in F b \<subseteq> set D \<and> bits BV (res_in (df_result out b)) = ix ` available_in F b \<and>
      bits BV (res_out (df_result out b)) = ix ` av_insns F (fn_insns F b) (available_in F b))"
  using avail_run_exact available_domain by (elim exE) (simp add: holds_def)

subsubsection \<open>The report\<close>

lemma print_holds:
  "holds v X \<Longrightarrow> X \<subseteq> set D \<Longrightarrow> printSet BV (Some \<circ> f) D v = Inr (set_text (map f (filter (\<lambda>d. d \<in> X) D)))"
  by (rule printSet_members [OF D_distinct]) (simp_all add: holds_def)

lemma report_gen_ok:
  assumes "holds avail X" and "i \<in> set (all_insns F)"
  shows "\<exists>w. avail_report_gen BV D i (avail, d2i) = Inr (w, d2i) \<and> holds w (X \<union> computes i)"
  using assms(2)
proof (cases rule: binop_cases)
  case 1
  then show ?thesis using assms(1) by (simp add: avail_report_gen_def)
next
  case (2 e)
  then show ?thesis
    using holds_set [OF assms(1), of e] by (auto simp: avail_report_gen_def find_match_eq d2i_index)
qed

lemma report_kill_ok:
  assumes "holds avail X" and "X \<subseteq> set D" and "set ds \<subseteq> set D"
  shows "\<exists>w. fold_res (avail_report_kill BV F d2i nm) ds avail = Inr w \<and>
    holds w (X - {e \<in> set ds. names_operand F nm e})"
  using assms
proof (induction ds arbitrary: avail X)
  case (Cons e ds)
  show ?case
  proof (cases "names_operand F nm e")
    case True
    have e: "e \<in> set D" using Cons.prems by simp
    obtain w where w: "bv_reset BV avail (ix e) = Inr w" "holds w (X - {e})"
      using holds_reset [OF Cons.prems(1) e Cons.prems(2)] by blast
    moreover have "(X - {e}) - {x \<in> set ds. names_operand F nm x} = X - {x \<in> set (e # ds). names_operand F nm x}"
      using True by auto
    moreover have "avail_report_kill BV F d2i nm e avail = Inr w"
      using True e w(1) by (simp add: avail_report_kill_def d2i_find)
    moreover have "\<exists>u. fold_res (avail_report_kill BV F d2i nm) ds w = Inr u \<and>
        holds u ((X - {e}) - {x \<in> set ds. names_operand F nm x})"
      using Cons.prems by (intro Cons.IH [OF w(2)]) auto
    ultimately show ?thesis by (simp del: list.set)
  next
    case False
    then have "{x \<in> set (e # ds). names_operand F nm x} = {x \<in> set ds. names_operand F nm x}" by auto
    then show ?thesis
      using Cons False by (simp add: avail_report_kill_def)
  qed
qed simp

lemma report_insn_ok:
  assumes "holds avail X" and "X \<subseteq> set D" and i: "i \<in> set (all_insns F)"
  shows "\<exists>w. avail_report_insn BV P F D i (avail, d2i, out) = Inr (w, d2i, out @
      [replicate WIDTH CHR '' '' @ printValue P (self i)] @
      (if in_phi i = None then [avail_text P D (av_insns F [i] X)] else [])) \<and>
    holds w (av_insns F [i] X)"
proof -
  let ?Y = "X \<union> computes i" and ?nm = "fn_vname F (self i)"
  have Y: "?Y \<subseteq> set D" using computes_domain [OF i] assms(2) by simp
  have Z: "av_insns F [i] X \<subseteq> set D" using Y by auto
  obtain w where w: "avail_report_gen BV D i (avail, d2i) = Inr (w, d2i)" "holds w ?Y"
    using report_gen_ok [OF assms(1) i] by blast
  have "\<exists>u. (if ?nm \<noteq> [] then fold_res (avail_report_kill BV F d2i ?nm) D w else Inr w) = Inr u \<and>
      holds u (av_insns F [i] X)"
  proof (cases "?nm = []")
    case True
    then show ?thesis using w(2) by (simp add: invalidates_def)
  next
    case False
    have "?Y - {e \<in> set D. names_operand F ?nm e} = av_insns F [i] X"
      using False Y by (auto simp: invalidates_def)
    then show ?thesis
      using report_kill_ok [OF w(2) Y, of D ?nm] False by simp
  qed
  then obtain u where u: "(if ?nm \<noteq> [] then fold_res (avail_report_kill BV F d2i ?nm) D w else Inr w) = Inr u"
    "holds u (av_insns F [i] X)" by blast
  then show ?thesis
    using w(1) print_holds [OF u(2) Z, of "toString P"]
    by (simp add: avail_report_insn_def Let_def avail_text_def)
qed

lemma report_insns_ok:
  assumes "holds avail X" and "X \<subseteq> set D" and "set is \<subseteq> set (all_insns F)"
  shows "\<exists>w out'. fold_res (avail_report_insn BV P F D) is (avail, d2i, out) = Inr (w, d2i, out') \<and>
    out' @ [rule_line] = out @ avail_lines P F D X is"
  using assms
proof (induction "is" arbitrary: avail X out)
  case (Cons i "is")
  let ?line = "[replicate WIDTH CHR '' '' @ printValue P (self i)] @
      (if in_phi i = None then [avail_text P D (av_insns F [i] X)] else [])"
  obtain w where w: "avail_report_insn BV P F D i (avail, d2i, out) = Inr (w, d2i, out @ ?line)"
    "holds w (av_insns F [i] X)"
    using report_insn_ok [OF Cons.prems(1,2), of i P out] Cons.prems(3) by auto
  have "av_insns F [i] X \<subseteq> set D"
    using av_insns_domain [of "[i]"] Cons.prems by simp
  then show ?case
    using Cons.IH [OF w(2), of "out @ ?line"] w(1) Cons.prems(3) by auto
qed simp

lemma report_block_ok:
  assumes "reach F b" and "holds (res_in (df_result out b)) (available_in F b)"
  shows "avail_report_block BV P F D out b (d2i, printed) =
    Inr (d2i, printed @ avail_block_lines P F D b)"
proof -
  note d = available_domain [OF assms(1)] and i = block_all_insns [OF reach_in_blocks [OF assms(1) wf]]
  let ?start = "[rule_line, avail_text P D (available_in F b) @ '' :: BB Entry'']"
  obtain w out' where "fold_res (avail_report_insn BV P F D) (fn_insns F b)
      (res_in (df_result out b), d2i, ?start) = Inr (w, d2i, out')"
    and "out' @ [rule_line] = ?start @ avail_lines P F D (available_in F b) (fn_insns F b)"
    using report_insns_ok [OF assms(2) d i] by blast
  then show ?thesis
    using print_holds [OF assms(2) d, of "toString P"]
    by (simp add: avail_report_block_def avail_block_lines_def avail_text_def)
qed

lemma report_blocks_ok:
  assumes "\<And>b. b \<in> set bs \<Longrightarrow> reach F b \<and> holds (res_in (df_result out b)) (available_in F b)"
  shows "fold_res (avail_report_block BV P F D out) bs (d2i, printed) =
    Inr (d2i, printed @ concat (map (avail_block_lines P F D) bs))"
  using assms by (induction bs arbitrary: printed) (simp_all add: report_block_ok)

theorem avail_report_exact:
  assumes "\<And>b. b \<in> set (fn_blocks F) \<Longrightarrow> reach F b"
  shows "avail_runOnFunction BV P F =
    Some (Inr (False, concat (map (avail_block_lines P F D) (fn_blocks F))))"
proof -
  obtain res where run: "avail_run BV F D =
      Some (Inr \<lparr>df_result = res, df_domainToIndex = d2i, df_modified = False\<rparr>)"
    and r: "\<forall>b. reach F b \<longrightarrow> holds (res_in (res b)) (available_in F b) \<and>
      holds (res_out (res b)) (av_insns F (fn_insns F b) (available_in F b))"
    using avail_run_exact by (elim exE conjE) (rule that)
  let ?out = "\<lparr>df_result = res, df_domainToIndex = d2i, df_modified = False\<rparr>"
  have "fold_res (avail_report_block BV P F D ?out) (fn_blocks F) (d2i, []) =
      Inr (d2i, [] @ concat (map (avail_block_lines P F D) (fn_blocks F)))"
    using r assms by (intro report_blocks_ok) simp
  then show ?thesis
    using run by (simp add: avail_runOnFunction_def dom)
qed

end

text \<open>The failures of the report are accesses out of range.\<close>

lemma expression_of_only_fails: "in_binop i \<noteq> None \<Longrightarrow> only_fails OutOfRange (expression_of i)"
  by (auto simp: expression_of_def only_fails_def split: option.splits list.splits)

lemma avail_report_gen_only_fails: "only_fails OutOfRange (avail_report_gen BV D i st)"
  by (cases "in_binop i"; cases st)
    (auto simp: avail_report_gen_def intro!: only_fails_intros expression_of_only_fails)

lemma avail_report_block_only_fails: "only_fails OutOfRange (avail_report_block BV P F D out b st)"
  unfolding avail_report_block_def avail_report_insn_def avail_report_kill_def
  by (intro only_fails_intros avail_report_gen_only_fails)

context avail_setup begin

theorem avail_report_stops:
  assumes b: "b \<in> set (fn_blocks F)" and "\<not> reach F b" and "D \<noteq> []"
  shows "avail_runOnFunction BV P F = Some (Inl OutOfRange)"
proof -
  obtain res where run: "avail_run BV F D =
      Some (Inr \<lparr>df_result = res, df_domainToIndex = d2i, df_modified = False\<rparr>)"
    and "\<forall>b. reach F b \<longrightarrow> holds (res_in (res b)) (available_in F b) \<and>
      holds (res_out (res b)) (av_insns F (fn_insns F b) (available_in F b))"
    and u: "\<forall>b\<in>set (fn_blocks F). \<not> reach F b \<longrightarrow> bv_size BV (res_in (res b)) = 0"
    using avail_run_exact by (elim exE conjE) (rule that)
  let ?out = "\<lparr>df_result = res, df_domainToIndex = d2i, df_modified = False\<rparr>"
  have "printSet BV t D (res_in (res b)) = Inl OutOfRange" for t
    using u assms by (intro printSet_short) simp
  then have fails: "avail_report_block BV P F D ?out b st = Inl OutOfRange" for st
    by (simp add: avail_report_block_def split: prod.splits)
  have "fold_res (avail_report_block BV P F D ?out) (fn_blocks F) st = Inl OutOfRange" for st
    by (rule fold_res_fails [where f = "avail_report_block BV P F D ?out" and x = b, OF b])
      (rule fails, rule avail_report_block_only_fails [unfolded only_fails_def, rule_format])
  then show ?thesis
    using run by (simp add: avail_runOnFunction_def dom)
qed

end

subsection \<open>The properties\<close>

lemma avail_setupI:
  "bitvector BV \<Longrightarrow> wf_cfg F \<Longrightarrow> wf_binops F \<Longrightarrow> avail_domain F = Inr D \<Longrightarrow> avail_setup BV F D"
  by (intro avail_setup.intro avail_setup_axioms.intro)

lemma sample_binops: "wf_binops counting_loop" "wf_binops loop_with_dead_block"
  by (simp_all add: wf_binops_def all_insns_def sample_defs)

abbreviation sample_expr :: expression where
  "sample_expr \<equiv> \<lparr>ex_v1 = VInst 1, ex_v2 = VConst 32 1, ex_op = Add\<rparr>"

lemma sample_avail_domain:
  "avail_domain counting_loop = Inr [sample_expr]" "avail_domain loop_with_dead_block = Inr [sample_expr]"
  by (simp_all add: avail_domain_def all_insns_def sample_defs avail_collect_def expression_of_def)

interpretation sample_avail: avail_setup bl_ops counting_loop "[sample_expr]"
  by unfold_locales (rule wf_counting_loop, rule sample_binops, rule sample_avail_domain)

text \<open>
  C4: on every well-formed function the available-expressions pass returns, and for every
  reachable block the vector \<open>in\<close> holds exactly the expressions that every path from the entry
  to the block computes, with no operand's name assigned afterwards; \<open>out\<close> holds those
  available after the block's instructions.
\<close>

theorem available_exact:
  assumes "bitvector BV" and "wf_cfg F" and "wf_binops F"
  shows "\<exists>D out. avail_domain F = Inr D \<and> set D = (\<Union>i\<in>set (all_insns F). computes i) \<and>
    avail_run BV F D = Some (Inr out) \<and>
    (\<forall>b. reach F b \<longrightarrow> available_in F b \<subseteq> set D \<and> bits BV (res_in (df_result out b)) = idx D ` available_in F b \<and>
      bits BV (res_out (df_result out b)) = idx D ` av_insns F (fn_insns F b) (available_in F b))"
proof -
  obtain D where D: "avail_domain F = Inr D" "avail_setup BV F D"
    using avail_domain_ok [OF assms(3)] avail_setupI [OF assms] by blast
  show ?thesis
    by (intro exI [of _ D], use avail_setup.avail_bits_exact [OF D(2)] in \<open>elim ex_forward\<close>)
      (simp add: D(1) avail_setup.D_set [OF D(2)])
qed

theorem available_exact_witness:
  "bitvector bl_ops \<and> wf_cfg counting_loop \<and> wf_binops counting_loop \<and>
   (\<exists>out. avail_run bl_ops counting_loop [sample_expr] = Some (Inr out) \<and>
      bits bl_ops (res_in (df_result out 3)) = idx [sample_expr] ` available_in counting_loop 3)"
proof (intro conjI bl.bitvector_axioms wf_counting_loop sample_binops(1))
  obtain D out where D: "avail_domain counting_loop = Inr D"
    and o: "avail_run bl_ops counting_loop D = Some (Inr out)"
      "\<forall>b. reach counting_loop b \<longrightarrow> available_in counting_loop b \<subseteq> set D \<and>
        bits bl_ops (res_in (df_result out b)) = idx D ` available_in counting_loop b \<and>
        bits bl_ops (res_out (df_result out b)) =
          idx D ` av_insns counting_loop (fn_insns counting_loop b) (available_in counting_loop b)"
    using available_exact [OF bl.bitvector_axioms wf_counting_loop sample_binops(1)]
    by (elim exE conjE) (rule that)
  have "D = [sample_expr]" using D sample_avail_domain(1) by simp
  then show "\<exists>out. avail_run bl_ops counting_loop [sample_expr] = Some (Inr out) \<and>
      bits bl_ops (res_in (df_result out 3)) = idx [sample_expr] ` available_in counting_loop 3"
    using o reach_loop [of counting_loop 3] by auto
qed

text \<open>
  C5: when every block is reachable, the pass prints exactly the expressions available at the
  start of each block and after each instruction that is not a phi node, and modifies nothing.
\<close>

theorem available_report_exact:
  assumes "bitvector BV" and "wf_cfg F" and "wf_binops F" and "avail_domain F = Inr D"
    and "\<And>b. b \<in> set (fn_blocks F) \<Longrightarrow> reach F b"
  shows "avail_runOnFunction BV P F =
    Some (Inr (False, concat (map (avail_block_lines P F D) (fn_blocks F))))"
  by (rule avail_setup.avail_report_exact [OF avail_setupI [OF assms(1-4)] assms(5)])

theorem available_report_exact_witness:
  "wf_binops counting_loop \<and> avail_domain counting_loop = Inr [sample_expr] \<and>
   avail_runOnFunction bl_ops sample_printer counting_loop =
     Some (Inr (False, concat (map (avail_block_lines sample_printer counting_loop [sample_expr]) [0, 1, 2, 3])))"
proof -
  have "reach counting_loop b" if "b \<in> set (fn_blocks counting_loop)" for b
    using that reach_loop [of counting_loop b] by (auto simp: sample_defs)
  note available_report_exact [OF bl.bitvector_axioms wf_counting_loop sample_binops(1) sample_avail_domain(1) this,
      of sample_printer]
  then show ?thesis
    using sample_binops(1) sample_avail_domain(1) by (simp add: counting_loop_def)
qed

text \<open>
  C6: when the function has a binary operator and a block no path reaches, the report reads past
  the end of the empty vector of that block and the pass stops with a failed range assertion.
\<close>

theorem available_report_stops:
  assumes "bitvector BV" and "wf_cfg F" and "wf_binops F" and "avail_domain F = Inr D" and "D \<noteq> []"
    and "b \<in> set (fn_blocks F)" and "\<not> reach F b"
  shows "avail_runOnFunction BV P F = Some (Inl OutOfRange)"
  by (rule avail_setup.avail_report_stops [OF avail_setupI [OF assms(1-4)] assms(6,7,5)])

theorem available_report_stops_witness:
  "avail_runOnFunction bl_ops sample_printer loop_with_dead_block = Some (Inl OutOfRange) \<and>
   \<not> reach loop_with_dead_block 4"
proof -
  have b: "4 \<in> set (fn_blocks loop_with_dead_block)" and r: "\<not> reach loop_with_dead_block 4"
    using reach_loop [of loop_with_dead_block 4] by (simp_all add: sample_defs)
  show ?thesis
    using available_report_stops [OF bl.bitvector_axioms wf_loop_with_dead_block sample_binops(2)
        sample_avail_domain(2) _ b r] r by simp
qed

end
