(* ===== verification/Dominance.thy ===== *)
theory Dominance
  imports MustPaths Sample
begin

section \<open>Dominance and immediate dominators\<close>

text \<open>
  \<open>asst3/LICM/dominance.h\<close> and \<open>dominance.cpp\<close>: dominance as a forward intersection analysis,
  the query \<open>dominates\<close>, and the triple loop of \<open>computeIdom\<close>. The tree built from the result
  is in the theory on loop-invariant code motion.
\<close>

definition dom_transferFn ::
  "'bv bitvec_ops \<Rightarrow> 'bv \<Rightarrow> block list \<Rightarrow> (block \<times> nat) list \<Rightarrow> block \<Rightarrow> 'bv transfer_output result" where
  "dom_transferFn BV input domain domainToIndex blk =
     (let (i, d2i) = map_index 0 domainToIndex blk
      in bind_res (bv_set BV input i) (\<lambda>v. Inr \<lparr>element = v, neighborVals = []\<rparr>))"

definition dominanceAnalysis :: "'bv bitvec_ops \<Rightarrow> (block, 'bv) analysis" where
  "dominanceAnalysis BV =
     \<lparr>an_direction = FORWARD, an_meetup_op = INTERSECTION, an_transferFn = dom_transferFn BV\<rparr>"

definition computeDom ::
  "'bv bitvec_ops \<Rightarrow> 'z llvm_cfg_scheme \<Rightarrow> (block, 'bv) dataflow_result result option" where
  "computeDom BV G =
     (let domain = fn_blocks G; numElems = length domain
      in run_both BV (dominanceAnalysis BV) G domain (bv_make BV numElems False) (bv_make BV numElems True))"

text \<open>The result is passed by value: the entry \<open>operator[]\<close> may insert is dropped.\<close>

definition dominates ::
  "'bv bitvec_ops \<Rightarrow> block \<Rightarrow> block \<Rightarrow> (block, 'bv) dataflow_result \<Rightarrow> bool result" where
  "dominates BV X Y dres = bv_get BV (res_in (df_result dres Y)) (fst (map_index 0 (df_domainToIndex dres) X))"

text \<open>
  The vector \<open>domain\<close> rebuilt from the index map; a write out of range and a slot that stays null
  are undefined.
\<close>

definition rebuild_domain :: "(block \<times> nat) list \<Rightarrow> block option list result" where
  "rebuild_domain d2i =
     fold_res (\<lambda>(b, i) v. if i < length v then Inr (v[i := Some b]) else Inl Undefined)
       d2i (replicate (length d2i) None)"

definition block_at :: "block option list \<Rightarrow> nat \<Rightarrow> block result" where
  "block_at v i = (if i < length v then (case v ! i of None \<Rightarrow> Inl Undefined | Some b \<Rightarrow> Inr b) else Inl Undefined)"

text \<open>The innermost loop: is there a third block between \<open>A\<close> and \<open>B\<close>?\<close>

fun has_between ::
  "'bv bitvec_ops \<Rightarrow> (block, 'bv) dataflow_result \<Rightarrow> block option list \<Rightarrow> nat \<Rightarrow> block \<Rightarrow> nat \<Rightarrow> block \<Rightarrow>
    nat list \<Rightarrow> bool result" where
  "has_between BV dres v indA A indB B [] = Inr False"
| "has_between BV dres v indA A indB B (indC # is) =
     (if indC = indA \<or> indC = indB then has_between BV dres v indA A indB B is
      else bind_res (block_at v indC) (\<lambda>C.
           bind_res (dominates BV A C dres) (\<lambda>ac.
           bind_res (if ac then dominates BV C B dres else Inr False) (\<lambda>acb.
             if acb then Inr True else has_between BV dres v indA A indB B is))))"

definition idom_candidate ::
  "'bv bitvec_ops \<Rightarrow> (block, 'bv) dataflow_result \<Rightarrow> block option list \<Rightarrow> nat \<Rightarrow> block \<Rightarrow> nat \<Rightarrow>
    (block \<times> block) list \<Rightarrow> (block \<times> block) list result" where
  "idom_candidate BV dres v indB B indA idom =
     (if indA = indB then Inr idom
      else bind_res (block_at v indA) (\<lambda>A.
           bind_res (dominates BV A B dres) (\<lambda>ab.
           if \<not> ab then Inr idom
           else bind_res (has_between BV dres v indA A indB B [0..<length v]) (\<lambda>between.
             if between then Inr idom
             else if map_of idom B \<noteq> None then Inl AssertionFailed
             else Inr (AList.update B A idom)))))"

definition computeIdom ::
  "'bv bitvec_ops \<Rightarrow> (block, 'bv) dataflow_result \<Rightarrow> (block \<times> block) list result" where
  "computeIdom BV dres =
     bind_res (rebuild_domain (df_domainToIndex dres)) (\<lambda>v.
       fold_res (\<lambda>indB idom.
           bind_res (block_at v indB) (\<lambda>B.
             fold_res (idom_candidate BV dres v indB B) [0..<length v] idom))
         [0..<length v] [])"

subsection \<open>Strict dominance\<close>

definition sdom :: "'z llvm_cfg_scheme \<Rightarrow> block \<Rightarrow> block \<Rightarrow> bool" where
  "sdom G a b \<longleftrightarrow> (\<forall>p. path G p b \<longrightarrow> a \<in> set p)"

lemma path_split: "path G (p @ a # q) b \<Longrightarrow> path G p a"
proof (induction q arbitrary: b rule: rev_induct)
  case Nil
  then show ?case by (auto elim: path.cases)
next
  case (snoc c q)
  then have "path G ((p @ a # q) @ [c]) b" by simp
  then have "path G (p @ a # q) c" by (cases rule: path.cases) auto
  then show ?case by (rule snoc.IH)
qed

lemma path_splice: "path G (p @ a # q) b \<Longrightarrow> path G p' a \<Longrightarrow> path G (p' @ a # q) b"
proof (induction q arbitrary: b rule: rev_induct)
  case Nil
  then have "b \<in> set (fn_succs G a)" by (auto elim: path.cases)
  then show ?case using path_step [OF Nil.prems(2)] by simp
next
  case (snoc c q)
  then have "path G ((p @ a # q) @ [c]) b" by simp
  then have c: "path G (p @ a # q) c" "b \<in> set (fn_succs G c)"
    by (cases rule: path.cases; simp)+
  show ?case
    using path_step [OF snoc.IH [OF c(1) snoc.prems(2)] c(2)] by simp
qed

lemma sdom_trans: "sdom G a c \<Longrightarrow> sdom G c b \<Longrightarrow> sdom G a b"
  unfolding sdom_def by (metis Un_iff in_set_conv_decomp path_split set_append)

lemma sdom_reach: "reach G b \<Longrightarrow> sdom G a b \<Longrightarrow> reach G a"
  unfolding sdom_def using reach_path path_blocks_reach by metis

lemma sdom_irrefl:
  assumes "reach G b"
  shows "\<not> sdom G b b"
proof
  assume s: "sdom G b b"
  have "path G p b \<Longrightarrow> False" for p
  proof (induction "length p" arbitrary: p rule: less_induct)
    case less
    then obtain p1 p2 where "p = p1 @ b # p2" using s by (auto simp: sdom_def in_set_conv_decomp)
    then show ?case using less.hyps [of p1] less.prems path_split [of G p1 b p2 b] by simp
  qed
  then show False using reach_path [OF assms] by blast
qed

lemma sdom_chain_last:
  assumes "path G (p @ a # q) b" and "c \<notin> set q" and "sdom G c b" and "c \<noteq> a"
  shows "sdom G c a"
  unfolding sdom_def
proof (intro allI impI)
  fix p'
  assume "path G p' a"
  then have "path G (p' @ a # q) b" using assms(1) path_splice by blast
  then have "c \<in> set (p' @ a # q)" using assms(3) unfolding sdom_def by blast
  then show "c \<in> set p'" using assms(2,4) by simp
qed

lemma sdom_chain:
  assumes "reach G b" and "sdom G a b" and "sdom G c b" and "a \<noteq> c"
  shows "sdom G a c \<or> sdom G c a"
proof -
  obtain p where p: "path G p b" using reach_path [OF assms(1)] by blast
  then have "\<exists>x\<in>set p. x \<in> {a, c}" using assms(2) by (auto simp: sdom_def)
  then obtain p1 x p2 where s: "p = p1 @ x # p2" "x \<in> {a, c}" "\<forall>y\<in>set p2. y \<notin> {a, c}"
    using split_list_last_prop [of p "\<lambda>x. x \<in> {a, c}"] by blast
  then show ?thesis
    using sdom_chain_last [of G p1 x p2 b] p assms by auto
qed

lemma path_hd: "path G p b \<Longrightarrow> p \<noteq> [] \<Longrightarrow> hd p = entry G"
  by (induction rule: path.induct) (auto simp: hd_append elim: path.cases)

lemma sdom_entry:
  assumes "wf_cfg G" and "reach G b" and "b \<noteq> entry G"
  shows "sdom G (entry G) b"
  unfolding sdom_def
proof (intro allI impI)
  fix p assume p: "path G p b"
  then have "p \<noteq> []" using assms(3) by (auto elim: path.cases)
  then show "entry G \<in> set p" using path_hd [OF p] by (metis hd_in_set)
qed

text \<open>The immediate dominator: a strict dominator that all the others strictly dominate.\<close>

definition is_idom :: "'z llvm_cfg_scheme \<Rightarrow> block \<Rightarrow> block \<Rightarrow> bool" where
  "is_idom G a b \<longleftrightarrow> sdom G a b \<and> (\<forall>c. sdom G c b \<longrightarrow> c = a \<or> sdom G c a)"

lemma is_idom_between:
  assumes "reach G b" and "sdom G a b"
  shows "is_idom G a b \<longleftrightarrow> \<not> (\<exists>c. sdom G a c \<and> sdom G c b)"
proof
  assume i: "is_idom G a b"
  show "\<not> (\<exists>c. sdom G a c \<and> sdom G c b)"
  proof
    assume "\<exists>c. sdom G a c \<and> sdom G c b"
    then obtain c where c: "sdom G a c" "sdom G c b" by blast
    then have "sdom G a a" using i sdom_trans by (metis is_idom_def)
    then show False using sdom_irrefl sdom_reach [OF assms] by blast
  qed
next
  assume "\<not> (\<exists>c. sdom G a c \<and> sdom G c b)"
  then show "is_idom G a b"
    using sdom_chain [OF assms(1) _ assms(2)] assms(2) by (auto simp: is_idom_def)
qed

lemma is_idom_unique: "reach G b \<Longrightarrow> is_idom G a b \<Longrightarrow> is_idom G a' b \<Longrightarrow> a = a'"
  using sdom_irrefl sdom_trans sdom_reach unfolding is_idom_def by metis

lemma is_idom_exists:
  assumes "wf_cfg G" and "reach G b" and "b \<noteq> entry G"
  shows "\<exists>a. is_idom G a b"
proof -
  obtain p where p: "path G p b" using reach_path [OF assms(2)] by blast
  then have "\<exists>x\<in>set p. sdom G x b" using sdom_entry [OF assms] by (auto simp: sdom_def)
  then obtain p1 x p2 where s: "p = p1 @ x # p2" "sdom G x b" "\<forall>y\<in>set p2. \<not> sdom G y b"
    using split_list_last_prop [of p "\<lambda>x. sdom G x b"] by blast
  then have "is_idom G x b"
    using sdom_chain_last [of G p1 x p2 b] p by (auto simp: is_idom_def)
  then show ?thesis by blast
qed

subsection \<open>The loops of \<open>computeIdom\<close>\<close>

lemma rebuild_loop:
  "k \<le> length ds \<Longrightarrow>
    fold_res (\<lambda>(b, i) v. if i < length v then Inr (v[i := Some b]) else Inl Undefined)
      (map (\<lambda>i. (ds ! i, i)) [0..<k]) (replicate (length ds) None) =
    Inr (map Some (take k ds) @ replicate (length ds - k) None)"
proof (induction k)
  case (Suc k)
  have "(map Some (take k ds) @ replicate (length ds - k) None)[k := Some (ds ! k)] =
      map Some (take (Suc k) ds) @ replicate (length ds - Suc k) None"
    using Suc.prems by (simp add: list_update_append take_Suc_conv_app_nth Suc_diff_Suc [symmetric])
  then show ?case
    using Suc by (simp add: fold_res_append)
qed simp

lemma rebuild_domain_index: "distinct ds \<Longrightarrow> rebuild_domain (index_domain ds) = Inr (map Some ds)"
  using rebuild_loop [of "length ds" ds] by (simp add: rebuild_domain_def index_domain_zip zip_index)

text \<open>
  What the loops compute from the answers \<open>R\<close> of \<open>dominates\<close>: \<open>A\<close> is recorded for \<open>B\<close> when it
  dominates \<open>B\<close> with no third block between them.
\<close>

definition recorded :: "block list \<Rightarrow> (block \<Rightarrow> block \<Rightarrow> bool) \<Rightarrow> block \<Rightarrow> block \<Rightarrow> bool" where
  "recorded bs R A B \<longleftrightarrow> A \<noteq> B \<and> R A B \<and> \<not> (\<exists>C\<in>set bs. C \<noteq> A \<and> C \<noteq> B \<and> R A C \<and> R C B)"

locale idom_loops =
  fixes BV :: "'bv bitvec_ops" and dr :: "(block, 'bv) dataflow_result" and bs :: "block list"
    and R :: "block \<Rightarrow> block \<Rightarrow> bool"
  assumes bs_distinct: "distinct bs" and index: "df_domainToIndex dr = index_domain bs"
    and answers: "A \<in> set bs \<Longrightarrow> B \<in> set bs \<Longrightarrow> dominates BV A B dr = Inr (R A B)"
begin

abbreviation "v \<equiv> map Some bs"
abbreviation "rec \<equiv> recorded bs R"
abbreviation "inner iB \<equiv> idom_candidate BV dr v iB (bs ! iB)"

lemma block_at_ok: "i < length bs \<Longrightarrow> block_at v i = Inr (bs ! i)"
  by (simp add: block_at_def)

lemma has_between_ok:
  assumes "A \<in> set bs" and "B \<in> set bs" and "set is \<subseteq> {..<length bs}"
  shows "has_between BV dr v iA A iB B is =
    Inr (\<exists>i\<in>set is. i \<noteq> iA \<and> i \<noteq> iB \<and> R A (bs ! i) \<and> R (bs ! i) B)"
  using assms(3) by (induction "is") (auto simp: block_at_ok answers assms(1,2))

lemma candidate_ok:
  assumes "iA < length bs" and "iB < length bs"
  shows "inner iB iA idom =
    (if rec (bs ! iA) (bs ! iB)
     then if map_of idom (bs ! iB) \<noteq> None then Inl AssertionFailed
          else Inr (AList.update (bs ! iB) (bs ! iA) idom)
     else Inr idom)"
proof (cases "iA = iB")
  case True
  then show ?thesis by (simp add: idom_candidate_def recorded_def)
next
  case False
  have ne: "bs ! i \<noteq> bs ! j \<longleftrightarrow> i \<noteq> j" if "i < length bs" "j < length bs" for i j
    using bs_distinct that by (simp add: nth_eq_iff_index_eq)
  have "(\<exists>i\<in>set [0..<length bs]. i \<noteq> iA \<and> i \<noteq> iB \<and> R (bs ! iA) (bs ! i) \<and> R (bs ! i) (bs ! iB)) \<longleftrightarrow>
      (\<exists>C\<in>set bs. C \<noteq> bs ! iA \<and> C \<noteq> bs ! iB \<and> R (bs ! iA) C \<and> R C (bs ! iB))"
    unfolding bex_nth [of bs] set_upt using assms ne by (metis atLeastLessThan_iff le0)
  then show ?thesis
    using assms False
    by (auto simp: idom_candidate_def block_at_ok answers has_between_ok atLeast0LessThan recorded_def ne)
qed

lemma inner_present:
  assumes "iB < length bs" and "set is \<subseteq> {..<length bs}" and "map_of idom (bs ! iB) \<noteq> None"
  shows "fold_res (inner iB) is idom =
    (if \<exists>i\<in>set is. rec (bs ! i) (bs ! iB) then Inl AssertionFailed else Inr idom)"
  using assms(2) by (induction "is") (auto simp: candidate_ok assms(1,3))

lemma inner_absent:
  assumes "iB < length bs" and "set is \<subseteq> {..<length bs}" and "map_of idom (bs ! iB) = None"
  shows "fold_res (inner iB) is idom =
    (case filter (\<lambda>i. rec (bs ! i) (bs ! iB)) is of
       [] \<Rightarrow> Inr idom | [i] \<Rightarrow> Inr (AList.update (bs ! iB) (bs ! i) idom) | _ \<Rightarrow> Inl AssertionFailed)"
  using assms(2)
proof (induction "is")
  case (Cons i "is")
  show ?case
  proof (cases "rec (bs ! i) (bs ! iB)")
    case True
    have "fold_res (inner iB) is (AList.update (bs ! iB) (bs ! i) idom) =
        (if \<exists>i\<in>set is. rec (bs ! i) (bs ! iB) then Inl AssertionFailed
         else Inr (AList.update (bs ! iB) (bs ! i) idom))"
      using Cons.prems assms(1) by (intro inner_present) (auto simp: update_conv')
    then show ?thesis
      using True Cons.prems assms(1,3)
      by (auto simp: candidate_ok filter_empty_conv split: list.splits)
  next
    case False
    then show ?thesis using Cons assms(1) by (simp add: candidate_ok)
  qed
qed simp

definition outer :: "nat \<Rightarrow> (block \<times> block) list \<Rightarrow> (block \<times> block) list result" where
  "outer iB idom = bind_res (block_at v iB) (\<lambda>B. fold_res (idom_candidate BV dr v iB B) [0..<length v] idom)"

lemma computeIdom_outer: "computeIdom BV dr = fold_res outer [0..<length bs] []"
  by (simp add: computeIdom_def index rebuild_domain_index [OF bs_distinct] outer_def [abs_def])

lemma outer_unique:
  assumes "iB < length bs" and "map_of idom (bs ! iB) = None"
    and u: "\<And>A A'. A \<in> set bs \<Longrightarrow> A' \<in> set bs \<Longrightarrow> rec A (bs ! iB) \<Longrightarrow> rec A' (bs ! iB) \<Longrightarrow> A = A'"
  shows "\<exists>idom'. outer iB idom = Inr idom' \<and> (\<forall>B. B \<noteq> bs ! iB \<longrightarrow> map_of idom' B = map_of idom B) \<and>
    (\<forall>A\<in>set bs. map_of idom' (bs ! iB) = Some A \<longleftrightarrow> rec A (bs ! iB)) \<and>
    (\<forall>A. map_of idom' (bs ! iB) = Some A \<longrightarrow> A \<in> set bs)"
proof -
  let ?f = "filter (\<lambda>i. rec (bs ! i) (bs ! iB)) [0..<length bs]"
  have o: "outer iB idom = (case ?f of [] \<Rightarrow> Inr idom | [i] \<Rightarrow> Inr (AList.update (bs ! iB) (bs ! i) idom)
      | _ \<Rightarrow> Inl AssertionFailed)"
    using inner_absent [OF assms(1) _ assms(2), of "[0..<length bs]"] assms(1)
    by (simp add: outer_def block_at_ok atLeast0LessThan)
  have mem: "rec A (bs ! iB) \<longleftrightarrow> (\<exists>i\<in>set ?f. A = bs ! i)" if "A \<in> set bs" for A
    using that by (auto simp: in_set_conv_nth)
  consider "?f = []" | i where "?f = [i]" | i j r where "?f = i # j # r"
    by (metis list.exhaust)
  then show ?thesis
  proof cases
    case 1
    then show ?thesis using o mem assms(2) by auto
  next
    case 2
    then have "i \<in> set ?f" by simp
    then have "i < length bs" by simp
    then show ?thesis using o mem 2 by (auto simp: update_conv')
  next
    case 3
    have d: "distinct (i # j # r)" using distinct_filter [of "[0..<length bs]"] 3 by (metis distinct_upt)
    have "i \<in> set ?f" "j \<in> set ?f" using 3 by simp_all
    then have "bs ! i = bs ! j" and "i < length bs" "j < length bs" using u by auto
    then show ?thesis using d bs_distinct by (simp add: nth_eq_iff_index_eq)
  qed
qed

lemma outer_loop:
  assumes u: "\<And>A A' B. A \<in> set bs \<Longrightarrow> A' \<in> set bs \<Longrightarrow> B \<in> set bs \<Longrightarrow> rec A B \<Longrightarrow> rec A' B \<Longrightarrow> A = A'"
  shows "k \<le> length bs \<Longrightarrow> \<exists>idom. fold_res outer [0..<k] [] = Inr idom \<and>
    (\<forall>A B. map_of idom B = Some A \<longleftrightarrow> A \<in> set bs \<and> B \<in> set (take k bs) \<and> rec A B)"
proof (induction k)
  case (Suc k)
  then obtain idom where idom: "fold_res outer [0..<k] [] = Inr idom"
    "\<And>A B. map_of idom B = Some A \<longleftrightarrow> A \<in> set bs \<and> B \<in> set (take k bs) \<and> rec A B"
    by auto
  have k: "k < length bs" "set (take (Suc k) bs) = insert (bs ! k) (set (take k bs))"
    using Suc.prems by (simp_all add: take_Suc_conv_app_nth)
  have "bs ! k \<notin> set (take k bs)"
    using bs_distinct k(1) by (metis distinct_take take_Suc_conv_app_nth not_distinct_conv_prefix)
  then have "map_of idom (bs ! k) = None"
    using idom(2) by (metis not_None_eq)
  then obtain idom' where i': "outer k idom = Inr idom'" "\<forall>B. B \<noteq> bs ! k \<longrightarrow> map_of idom' B = map_of idom B"
    "\<forall>A\<in>set bs. map_of idom' (bs ! k) = Some A \<longleftrightarrow> rec A (bs ! k)"
    "\<forall>A. map_of idom' (bs ! k) = Some A \<longrightarrow> A \<in> set bs"
    using outer_unique [OF k(1), of idom] u [OF _ _ nth_mem [OF k(1)]] by blast
  have "map_of idom' B = Some A \<longleftrightarrow> A \<in> set bs \<and> B \<in> set (take (Suc k) bs) \<and> rec A B" for A B
    using idom(2) [of B A] i'(2-4) k(2) \<open>bs ! k \<notin> set (take k bs)\<close> by (cases "B = bs ! k") auto
  then show ?case
    using idom(1) i'(1) by (simp add: fold_res_append)
qed simp

theorem computeIdom_unique:
  assumes "\<And>A A' B. A \<in> set bs \<Longrightarrow> A' \<in> set bs \<Longrightarrow> B \<in> set bs \<Longrightarrow> rec A B \<Longrightarrow> rec A' B \<Longrightarrow> A = A'"
  shows "\<exists>idom. computeIdom BV dr = Inr idom \<and>
    (\<forall>A B. map_of idom B = Some A \<longleftrightarrow> A \<in> set bs \<and> B \<in> set bs \<and> rec A B)"
  using outer_loop [where k = "length bs", OF assms] by (simp add: computeIdom_outer)

lemma outer_Inl: "iB < length bs \<Longrightarrow> outer iB idom = Inl e \<Longrightarrow> e = AssertionFailed"
  by (cases "map_of idom (bs ! iB)")
    (auto simp: outer_def block_at_ok inner_present inner_absent atLeast0LessThan split: if_splits list.splits)

theorem computeIdom_assert:
  assumes "A \<in> set bs" and "A' \<in> set bs" and "A \<noteq> A'" and B: "B \<in> set bs" and "rec A B" and "rec A' B"
  shows "computeIdom BV dr = Inl AssertionFailed"
proof -
  obtain i j k where i: "i < length bs" "A = bs ! i" and j: "j < length bs" "A' = bs ! j"
    and k: "k < length bs" "B = bs ! k"
    using assms by (metis in_set_conv_nth)
  let ?f = "filter (\<lambda>i. rec (bs ! i) (bs ! k)) [0..<length bs]"
  have "{i, j} \<subseteq> set ?f" using assms(5,6) i j k by auto
  moreover have "i \<noteq> j" using assms(3) i j by auto
  ultimately obtain x y r where f: "?f = x # y # r"
    by (cases ?f rule: remdups_adj.cases) auto
  have "outer k idom = Inl AssertionFailed" for idom
  proof (cases "map_of idom (bs ! k)")
    case None
    then show ?thesis
      using inner_absent [OF k(1) _ None, of "[0..<length bs]"] k(1) f
      by (simp add: outer_def block_at_ok atLeast0LessThan)
  next
    case (Some z)
    then show ?thesis
      using inner_present [OF k(1), of "[0..<length bs]" idom] k i assms(5)
      by (auto simp: outer_def block_at_ok atLeast0LessThan)
  qed
  then show ?thesis
    unfolding computeIdom_outer using k(1) outer_Inl
    by (intro fold_res_fails [where x = k]) auto
qed

end

subsection \<open>The analysis computes strict dominance\<close>

locale dom_setup = bitvector BV for BV :: "'bv bitvec_ops" +
  fixes G :: "'z llvm_cfg_scheme"
  assumes wf: "wf_cfg G"
begin

abbreviation "ix \<equiv> idx (fn_blocks G)"
abbreviation "dom_gens b \<equiv> {ix b}"
abbreviation "no_kills b \<equiv> {} :: nat set"

lemma blocks_distinct: "distinct (fn_blocks G)"
  using wf by (simp add: wf_cfg_def)

lemma block_ix: "b \<in> set (fn_blocks G) \<Longrightarrow> ix b < length (fn_blocks G)"
  by (rule index_domain_in [OF blocks_distinct])

lemma block_index: "b \<in> set (fn_blocks G) \<Longrightarrow> map_index 0 (index_domain (fn_blocks G)) b = (ix b, index_domain (fn_blocks G))"
  by (simp add: map_index_present index_domain_in(1) [OF blocks_distinct])

end

sublocale dom_setup \<subseteq> dm: must_setup BV G "dominanceAnalysis BV" "fn_blocks G" dom_gens no_kills
  "interior_res_both BV FORWARD (bv_make BV (length (fn_blocks G)) True)"
proof (unfold_locales, goal_cases)
  case (4 b)
  then show ?case using block_ix by simp
next
  case (5 b v)
  then show ?case
    using bv_set_Inr [of "ix b" v] block_ix
    by (auto simp: dominanceAnalysis_def dom_transferFn_def block_index gk_def)
qed (simp_all add: wf dominanceAnalysis_def)

context dom_setup begin

lemma flow_path: "flow dom_gens no_kills p = ix ` set p"
  by (induction p rule: rev_induct) (auto simp: gk_def)

lemma all_paths_sdom:
  assumes "reach G b"
  shows "all_paths G dom_gens no_kills b = ix ` {a. sdom G a b}"
proof -
  have sub: "set p \<subseteq> set (fn_blocks G)" if "path G p b" for p
    using path_blocks_reach [OF that] reach_in_blocks [OF _ wf] by blast
  have "all_paths G dom_gens no_kills b = (\<Inter>p\<in>{p. path G p b}. ix ` set p)"
    by (simp add: all_paths_def flow_path)
  also have "\<dots> = ix ` (\<Inter>p\<in>{p. path G p b}. set p)"
    using image_INT [OF idx_inj [OF blocks_distinct], of "{p. path G p b}" set] reach_path [OF assms] sub
    by auto
  also have "(\<Inter>p\<in>{p. path G p b}. set p) = {a. sdom G a b}"
    by (auto simp: sdom_def)
  finally show ?thesis .
qed

theorem computeDom_exact:
  "\<exists>dr. computeDom BV G = Some (Inr dr) \<and> df_domainToIndex dr = index_domain (fn_blocks G) \<and>
     (\<forall>a\<in>set (fn_blocks G). \<forall>b\<in>set (fn_blocks G). dominates BV a b dr = Inr (reach G b \<longrightarrow> sdom G a b))"
proof -
  obtain res where run: "run_engine BV (dominanceAnalysis BV) G (fn_blocks G)
        (boundary_res BV FORWARD (bv_make BV (length (fn_blocks G)) False))
        (interior_res_both BV FORWARD (bv_make BV (length (fn_blocks G)) True)) =
      Some (Inr \<lparr>df_result = res, df_domainToIndex = index_domain (fn_blocks G), df_modified = False\<rparr>)"
    and r: "\<forall>b. reach G b \<longrightarrow> bits BV (res_in (res b)) = all_paths G dom_gens no_kills b \<and>
      bv_size BV (res_in (res b)) = length (fn_blocks G) \<and>
      bits BV (res_out (res b)) = gk dom_gens no_kills b (all_paths G dom_gens no_kills b) \<and>
      bv_size BV (res_out (res b)) = length (fn_blocks G)"
    and u: "\<forall>b\<in>set (fn_blocks G). \<not> reach G b \<longrightarrow>
      res b = interior_res_both BV FORWARD (bv_make BV (length (fn_blocks G)) True)"
    using dm.must_run_exact by (elim exE conjE) (rule that)
  let ?dr = "\<lparr>df_result = res, df_domainToIndex = index_domain (fn_blocks G), df_modified = False\<rparr>"
  have "dominates BV a b ?dr = Inr (reach G b \<longrightarrow> sdom G a b)"
    if a: "a \<in> set (fn_blocks G)" and b: "b \<in> set (fn_blocks G)" for a b
  proof (cases "reach G b")
    case True
    have "{a. sdom G a b} \<subseteq> set (fn_blocks G)"
      using sdom_reach [OF True] reach_in_blocks [OF _ wf] by blast
    then have "ix a \<in> bits BV (res_in (res b)) \<longleftrightarrow> sdom G a b"
      using r True all_paths_sdom [OF True] idx_image_mem [OF blocks_distinct a] by simp
    then show ?thesis
      using True r block_ix [OF a] a bv_get_bits [of "ix a" "res_in (res b)"]
      by (simp add: dominates_def block_index)
  next
    case False
    then have "res_in (res b) = bv_make BV (length (fn_blocks G)) True"
      using u b by (simp add: initial_results)
    then show ?thesis
      using False block_ix [OF a] a bv_get_bits [of "ix a" "res_in (res b)"]
      by (simp add: dominates_def block_index bits_simps)
  qed
  then show ?thesis
    using run by (intro exI [of _ ?dr]) (simp add: computeDom_def run_both_def Let_def dominanceAnalysis_def)
qed

lemma recorded_idom:
  assumes "reach G B"
  shows "recorded (fn_blocks G) (\<lambda>a b. reach G b \<longrightarrow> sdom G a b) A B \<longleftrightarrow> is_idom G A B"
proof -
  have irr: "C \<noteq> D" if "sdom G C D" "reach G D" for C D
    using sdom_irrefl that by blast
  have blk: "C \<in> set (fn_blocks G) \<and> reach G C" if "sdom G C B" for C
    using sdom_reach [OF assms that] reach_in_blocks [OF _ wf] by blast
  show ?thesis
  proof (cases "sdom G A B")
    case True
    show ?thesis
      unfolding recorded_def is_idom_between [OF assms True] using True assms irr blk by metis
  next
    case False
    then show ?thesis using assms by (simp add: recorded_def is_idom_def)
  qed
qed

lemma idom_loopsI:
  assumes "df_domainToIndex dr = index_domain (fn_blocks G)"
    and "\<forall>a\<in>set (fn_blocks G). \<forall>b\<in>set (fn_blocks G). dominates BV a b dr = Inr (reach G b \<longrightarrow> sdom G a b)"
  shows "idom_loops BV dr (fn_blocks G) (\<lambda>a b. reach G b \<longrightarrow> sdom G a b)"
  using assms blocks_distinct by unfold_locales auto

theorem idom_exact:
  assumes "\<And>b. b \<in> set (fn_blocks G) \<Longrightarrow> reach G b"
  shows "\<exists>dr idom. computeDom BV G = Some (Inr dr) \<and> computeIdom BV dr = Inr idom \<and>
    (\<forall>A B. map_of idom B = Some A \<longleftrightarrow> B \<in> set (fn_blocks G) \<and> is_idom G A B)"
proof -
  obtain dr where dr: "computeDom BV G = Some (Inr dr)" "df_domainToIndex dr = index_domain (fn_blocks G)"
    "\<forall>a\<in>set (fn_blocks G). \<forall>b\<in>set (fn_blocks G). dominates BV a b dr = Inr (reach G b \<longrightarrow> sdom G a b)"
    using computeDom_exact by (elim exE conjE) (rule that)
  note loops = idom_loopsI [OF dr(2,3)]
  have "\<exists>idom. computeIdom BV dr = Inr idom \<and>
      (\<forall>A B. map_of idom B = Some A \<longleftrightarrow> A \<in> set (fn_blocks G) \<and> B \<in> set (fn_blocks G) \<and>
        recorded (fn_blocks G) (\<lambda>a b. reach G b \<longrightarrow> sdom G a b) A B)"
    using recorded_idom assms is_idom_unique by (intro idom_loops.computeIdom_unique [OF loops]) blast
  moreover have "A \<in> set (fn_blocks G)" if "is_idom G A B" "B \<in> set (fn_blocks G)" for A B
    using sdom_reach [OF assms [OF that(2)]] that(1) reach_in_blocks [OF _ wf] by (simp add: is_idom_def)
  ultimately show ?thesis
    using dr(1) recorded_idom assms by (elim exE) (intro exI [of _ dr], blast)
qed

theorem idom_asserts:
  assumes U: "U \<in> set (fn_blocks G)" "\<not> reach G U"
    and only: "\<And>b. b \<in> set (fn_blocks G) \<Longrightarrow> b \<noteq> U \<Longrightarrow> reach G b"
    and leaves: "A \<noteq> A'" "reach G A" "reach G A'" "\<And>b. reach G b \<Longrightarrow> \<not> sdom G A b \<and> \<not> sdom G A' b"
  shows "\<exists>dr. computeDom BV G = Some (Inr dr) \<and> computeIdom BV dr = Inl AssertionFailed"
proof -
  obtain dr where dr: "computeDom BV G = Some (Inr dr)" "df_domainToIndex dr = index_domain (fn_blocks G)"
    "\<forall>a\<in>set (fn_blocks G). \<forall>b\<in>set (fn_blocks G). dominates BV a b dr = Inr (reach G b \<longrightarrow> sdom G a b)"
    using computeDom_exact by (elim exE conjE) (rule that)
  have "recorded (fn_blocks G) (\<lambda>a b. reach G b \<longrightarrow> sdom G a b) X U" if "X = A \<or> X = A'" for X
    using that leaves U only by (auto simp: recorded_def)
  then have "computeIdom BV dr = Inl AssertionFailed"
    using reach_in_blocks [OF _ wf] leaves U
    by (intro idom_loops.computeIdom_assert [OF idom_loopsI [OF dr(2,3)], of A A' U]) auto
  then show ?thesis using dr(1) by blast
qed

end

subsection \<open>The properties\<close>

lemma dom_setupI: "bitvector BV \<Longrightarrow> wf_cfg G \<Longrightarrow> dom_setup BV G"
  by (intro dom_setup.intro dom_setup_axioms.intro)

interpretation sample_dom: dom_setup bl_ops counting_loop
  by unfold_locales (rule wf_counting_loop)

text \<open>
  C7: the dominance analysis returns on every well-formed function, and \<open>dominates(X, Y)\<close> of its
  result is strict dominance at every reachable \<open>Y\<close>: \<open>X\<close> is executed before \<open>Y\<close> is first
  reached on every path from the entry. At a block no path reaches the answer is always yes.
\<close>

theorem dominance_exact:
  assumes "bitvector BV" and "wf_cfg G"
  shows "\<exists>dr. computeDom BV G = Some (Inr dr) \<and>
     (\<forall>a\<in>set (fn_blocks G). \<forall>b\<in>set (fn_blocks G). dominates BV a b dr = Inr (reach G b \<longrightarrow> sdom G a b))"
  using dom_setup.computeDom_exact [OF dom_setupI [OF assms]] by (elim ex_forward) simp

theorem dominance_exact_witness:
  "\<exists>dr. computeDom bl_ops counting_loop = Some (Inr dr) \<and>
     dominates bl_ops 1 3 dr = Inr (sdom counting_loop 1 3)"
  using dominance_exact [OF bl.bitvector_axioms wf_counting_loop] reach_loop [of counting_loop 3]
  by (elim ex_forward) (simp add: sample_defs)

text \<open>
  C8: when every block is reachable, \<open>computeIdom\<close> returns without its assertion failing, and its
  map gives each block exactly its immediate dominator: the strict dominator that every other
  strict dominator of the block strictly dominates. Only the entry has none.
\<close>

theorem idom_map_exact:
  assumes "bitvector BV" and "wf_cfg G" and "\<And>b. b \<in> set (fn_blocks G) \<Longrightarrow> reach G b"
  shows "\<exists>dr idom. computeDom BV G = Some (Inr dr) \<and> computeIdom BV dr = Inr idom \<and>
    (\<forall>A B. map_of idom B = Some A \<longleftrightarrow> B \<in> set (fn_blocks G) \<and> is_idom G A B) \<and>
    (\<forall>B\<in>set (fn_blocks G). map_of idom B = None \<longleftrightarrow> B = entry G)"
proof -
  obtain dr idom where i: "computeDom BV G = Some (Inr dr)" "computeIdom BV dr = Inr idom"
    "\<forall>A B. map_of idom B = Some A \<longleftrightarrow> B \<in> set (fn_blocks G) \<and> is_idom G A B"
    using dom_setup.idom_exact [OF dom_setupI [OF assms(1,2)] assms(3)] by blast
  have "\<not> sdom G A (entry G)" for A
    using path_entry [of G] by (force simp: sdom_def)
  then have "map_of idom B = None \<longleftrightarrow> B = entry G" if "B \<in> set (fn_blocks G)" for B
    using i(3) is_idom_exists [OF assms(2) assms(3) [OF that]] that
    by (metis is_idom_def not_None_eq)
  then show ?thesis using i by blast
qed

theorem idom_map_exact_witness:
  "\<exists>dr idom. computeDom bl_ops counting_loop = Some (Inr dr) \<and> computeIdom bl_ops dr = Inr idom \<and>
    map_of idom 0 = None \<and> (\<exists>A. map_of idom 3 = Some A \<and> is_idom counting_loop A 3)"
proof -
  have "reach counting_loop b" if "b \<in> set (fn_blocks counting_loop)" for b
    using that reach_loop [of counting_loop b] by (auto simp: sample_defs)
  from idom_map_exact [OF bl.bitvector_axioms wf_counting_loop this]
  obtain dr idom where i: "computeDom bl_ops counting_loop = Some (Inr dr)" "computeIdom bl_ops dr = Inr idom"
    "\<forall>A B. map_of idom B = Some A \<longleftrightarrow> B \<in> set (fn_blocks counting_loop) \<and> is_idom counting_loop A B"
    "\<forall>B\<in>set (fn_blocks counting_loop). map_of idom B = None \<longleftrightarrow> B = entry counting_loop"
    by blast
  have "map_of idom 0 = None" "map_of idom 3 \<noteq> None"
    using i(4) by (simp_all add: sample_defs)
  then show ?thesis using i(1-3) by blast
qed

text \<open>
  C9: one block that no path reaches is enough for \<open>computeIdom\<close> to stop at its \<open>assert(0)\<close>, as
  soon as two reachable blocks strictly dominate nothing (as the two ways out of a branch do):
  every block dominates the unreachable one, so each of the two counts as its immediate
  dominator.
\<close>

theorem idom_assertion_fails:
  assumes "bitvector BV" and "wf_cfg G" and "U \<in> set (fn_blocks G)" and "\<not> reach G U"
    and "\<And>b. b \<in> set (fn_blocks G) \<Longrightarrow> b \<noteq> U \<Longrightarrow> reach G b"
    and "A \<noteq> A'" and "reach G A" and "reach G A'" and "\<And>b. reach G b \<Longrightarrow> \<not> sdom G A b \<and> \<not> sdom G A' b"
  shows "\<exists>dr. computeDom BV G = Some (Inr dr) \<and> computeIdom BV dr = Inl AssertionFailed"
  by (rule dom_setup.idom_asserts [OF dom_setupI [OF assms(1,2)] assms(3-9)])

lemma sample_leaves:
  assumes "reach loop_with_dead_block b"
  shows "\<not> sdom loop_with_dead_block 2 b \<and> \<not> sdom loop_with_dead_block 3 b"
proof -
  let ?G = loop_with_dead_block
  have e: "entry ?G = 0" and s: "fn_succs ?G = loop_succs" by (simp_all add: sample_defs)
  have p0: "path ?G [] 0" using path_entry [of ?G] e by simp
  have p1: "path ?G [0] 1" using path_step [OF p0, of 1] by (simp add: s loop_succs_def)
  have p2: "path ?G [0, 1] 2" "path ?G [0, 1] 3"
    using path_step [OF p1, of 2] path_step [OF p1, of 3] by (simp_all add: s loop_succs_def)
  show ?thesis
    using assms reach_loop [of ?G b] p0 p1 p2 by (auto simp: sdom_def)
qed

theorem idom_assertion_fails_witness:
  "\<exists>dr. computeDom bl_ops loop_with_dead_block = Some (Inr dr) \<and> computeIdom bl_ops dr = Inl AssertionFailed"
proof -
  have "4 \<in> set (fn_blocks loop_with_dead_block)" "\<not> reach loop_with_dead_block 4"
    "b \<in> set (fn_blocks loop_with_dead_block) \<Longrightarrow> b \<noteq> 4 \<Longrightarrow> reach loop_with_dead_block b" for b
    using reach_loop [of loop_with_dead_block] by (auto simp: sample_defs)
  then show ?thesis
    using reach_loop [of loop_with_dead_block] sample_leaves
    by (intro idom_assertion_fails [OF bl.bitvector_axioms wf_loop_with_dead_block, of 4 2 3]) auto
qed

end
