(* ===== verification/LICM.thy ===== *)
theory LICM
  imports Dominance
begin

section \<open>Loop-invariant code motion\<close>

text \<open>
  \<open>asst3/LICM/LoopInvariantCodeMotion.cpp\<close> with the dominator tree of \<open>dominance.cpp\<close>. A loop is
  what LLVM's \<open>LoopInfo\<close> tells the pass: an identity, its blocks with the header first, and its
  preheader if it has one; \<open>loopFor\<close> gives the innermost loop of a block. Instruction pointers
  are instruction numbers.
\<close>

record llvm_loop =
  lp_id :: nat
  lp_blocks :: "block list"
  lp_preheader :: "block option"

subsection \<open>The dominator tree\<close>

text \<open>
  Every node is made for a key of the table \<open>lookup\<close>, so nodes are addressed by that key; the
  key \<open>None\<close> is the null block the header gets as parent.
\<close>

record dom_tree_node =
  nd_children :: "block option list"
  nd_parent :: "block option option"

record dom_tree =
  dt_lookup :: "(block option \<times> dom_tree_node) list"
  dt_nodes :: "block option list"
  dt_root :: "block option"

definition new_node :: dom_tree_node where
  "new_node = \<lparr>nd_children = [], nd_parent = None\<rparr>"

definition ensure_node ::
  "block option \<Rightarrow> (block option \<times> dom_tree_node) list \<Rightarrow> (block option \<times> dom_tree_node) list" where
  "ensure_node k lookup = (if map_of lookup k \<noteq> None then lookup else AList.update k new_node lookup)"

definition tree_step ::
  "block \<Rightarrow> block \<Rightarrow> (block \<times> block option) list \<times> (block option \<times> dom_tree_node) list \<times> block option list \<Rightarrow>
    (block \<times> block option) list \<times> (block option \<times> dom_tree_node) list \<times> block option list" where
  "tree_step header b st =
     (let (idom, lookup, nodes) = st;
          (p, idom) = (if b = header then (None, idom) else map_index None idom b);
          lookup = ensure_node p (ensure_node (Some b) lookup);
          lookup = AList.update (Some b) ((the (map_of lookup (Some b)))\<lparr>nd_parent := Some p\<rparr>) lookup;
          pn = the (map_of lookup p);
          lookup = AList.update p (pn\<lparr>nd_children := nd_children pn @ [Some b]\<rparr>) lookup
      in (idom, lookup, nodes @ [Some b]))"

definition getDominanceTree :: "(block \<times> block) list \<Rightarrow> llvm_loop \<Rightarrow> dom_tree" where
  "getDominanceTree idom L =
     (let blocks = lp_blocks L; header = hd blocks;
          (_, lookup, nodes) = fold (tree_step header) blocks (map (map_prod id Some) idom, [], [])
      in \<lparr>dt_lookup = lookup, dt_nodes = nodes, dt_root = Some header\<rparr>)"

definition children :: "dom_tree \<Rightarrow> block option \<Rightarrow> block option list" where
  "children t k = (case map_of (dt_lookup t) k of None \<Rightarrow> [] | Some nd \<Rightarrow> nd_children nd)"

text \<open>\<open>idom[BBs[i]]->getName()\<close> on a block without an entry reads through a null pointer.\<close>

definition printIdom ::
  "(block \<Rightarrow> string) \<Rightarrow> (block \<times> block) list \<Rightarrow> llvm_loop \<Rightarrow> string list result" where
  "printIdom bname idom L =
     fold_res (\<lambda>b out. case map_of idom b of
         None \<Rightarrow> Inl NullDereference
       | Some p \<Rightarrow> Inr (out @ [bname b @ '' idom '' @ bname p]))
       (lp_blocks L) [''New Loop'']"

subsection \<open>Invariant instructions\<close>

definition parent_of :: "'z ir_function_scheme \<Rightarrow> nat \<Rightarrow> block option" where
  "parent_of F k = List.find (\<lambda>b. list_ex (\<lambda>i. in_id i = k) (fn_insns F b)) (fn_blocks F)"

definition contains :: "'z ir_function_scheme \<Rightarrow> llvm_loop \<Rightarrow> nat \<Rightarrow> bool" where
  "contains F L k = (case parent_of F k of None \<Rightarrow> False | Some b \<Rightarrow> b \<in> set (lp_blocks L))"

definition isInvariant :: "'z ir_function_scheme \<Rightarrow> llvm_loop \<Rightarrow> nat list \<Rightarrow> instr \<Rightarrow> bool" where
  "isInvariant F L invStmts inst =
     (if \<not> in_speculatable inst \<or> in_readsmem inst \<or> in_landingpad inst then False
      else list_all (\<lambda>v. case v of
               VInst k \<Rightarrow> \<not> (contains F L k \<and> k \<notin> set invStmts)
             | _ \<Rightarrow> True) (in_ops inst))"

definition scan_block :: "'z ir_function_scheme \<Rightarrow> llvm_loop \<Rightarrow> block \<Rightarrow> nat list \<Rightarrow> nat list" where
  "scan_block F L b invStmts =
     fold (\<lambda>inst inv. if isInvariant F L inv inst then inv @ [in_id inst] else inv) (fn_insns F b) invStmts"

text \<open>
  The traversal, with the top of the stack first. The inner \<open>None\<close> is the \<open>return false\<close> on a
  block whose innermost loop is not this one (a null block is in no loop); the outer \<open>None\<close> is a
  traversal that never ends.
\<close>

partial_function (option) licm_walk ::
  "dom_tree \<Rightarrow> (block \<Rightarrow> bool) \<Rightarrow> (block \<Rightarrow> nat list \<Rightarrow> nat list) \<Rightarrow> block option list \<Rightarrow> nat list \<Rightarrow>
    nat list option option" where
  "licm_walk t own scan worklist invStmts =
     (case worklist of
        [] \<Rightarrow> Some (Some invStmts)
      | n # ws \<Rightarrow>
          (case n of
             None \<Rightarrow> Some None
           | Some b \<Rightarrow>
               if \<not> own b then Some None
               else licm_walk t own scan (rev (children t n) @ ws) (scan b invStmts)))"

subsection \<open>Moving instructions to the preheader\<close>

definition move_before :: "block \<Rightarrow> nat \<Rightarrow> 'z ir_function_scheme \<Rightarrow> 'z ir_function_scheme result" where
  "move_before ph k F =
     (case parent_of F k of
        None \<Rightarrow> Inl Undefined
      | Some b \<Rightarrow>
          (case (List.find (\<lambda>i. in_id i = k) (fn_insns F b), fn_insns F ph) of
             (Some inst, _ # _) \<Rightarrow>
               if in_id (last (fn_insns F ph)) = k then Inr F
               else (let ins = (fn_insns F)(b := filter (\<lambda>i. in_id i \<noteq> k) (fn_insns F b))
                     in Inr (F\<lparr>fn_insns := ins(ph := butlast (ins ph) @ [inst, last (ins ph)])\<rparr>))
           | _ \<Rightarrow> Inl Undefined))"

definition runOnLoop ::
  "'bv bitvec_ops \<Rightarrow> (block \<Rightarrow> nat option) \<Rightarrow> (block \<Rightarrow> string) \<Rightarrow> llvm_loop \<Rightarrow> 'z ir_function_scheme \<Rightarrow>
    (bool \<times> 'z ir_function_scheme) result option" where
  "runOnLoop BV loopFor bname L F =
     (case lp_preheader L of
        None \<Rightarrow> Some (Inr (False, F))
      | Some preheader \<Rightarrow>
          if lp_blocks L = [] then Some (Inl Undefined)
          else case computeDom BV F of
            None \<Rightarrow> None
          | Some r \<Rightarrow>
              (case bind_res r (\<lambda>dominanceResult.
                    bind_res (computeIdom BV dominanceResult) (\<lambda>idom.
                    bind_res (printIdom bname idom L) (\<lambda>_. Inr (getDominanceTree idom L)))) of
                 Inl e \<Rightarrow> Some (Inl e)
               | Inr tree \<Rightarrow>
                   (case licm_walk tree (\<lambda>b. loopFor b = Some (lp_id L)) (scan_block F L) [dt_root tree] [] of
                      None \<Rightarrow> None
                    | Some None \<Rightarrow> Some (Inr (False, F))
                    | Some (Some invStmts) \<Rightarrow>
                        Some (bind_res (fold_res (move_before preheader) invStmts F) (\<lambda>F'.
                          Inr (invStmts \<noteq> [], F'))))))"

end
