(* ===== verification/LICMProofs.thy ===== *)
theory LICMProofs
  imports LICM
begin

section \<open>What loop-invariant code motion moves\<close>

text \<open>
  The tree built from the immediate dominators, the traversal that visits every block of the loop
  once and after its dominators, and what follows: the collected statements are exactly the
  loop-invariant ones, each after the ones it depends on.
\<close>

subsection \<open>The children of a node\<close>

definition kids :: "(block option \<times> dom_tree_node) list \<Rightarrow> block option \<Rightarrow> block option list" where
  "kids lookup k = (case map_of lookup k of None \<Rightarrow> [] | Some nd \<Rightarrow> nd_children nd)"

definition tree_parent :: "block \<Rightarrow> (block \<times> block) list \<Rightarrow> block \<Rightarrow> block option" where
  "tree_parent header idom b = (if b = header then None else map_of idom b)"

lemma ensure_node_kids: "kids (ensure_node k lookup) j = kids lookup j"
  by (auto simp: kids_def ensure_node_def new_node_def update_conv')

lemma ensure_node_present: "map_of (ensure_node k lookup) k \<noteq> None"
  "map_of lookup j \<noteq> None \<Longrightarrow> map_of (ensure_node k lookup) j \<noteq> None"
  by (auto simp: ensure_node_def update_conv')

lemma set_parent_kids:
  "map_of lookup k = Some nd \<Longrightarrow> kids (AList.update k (nd\<lparr>nd_parent := p\<rparr>) lookup) j = kids lookup j"
  by (auto simp: kids_def update_conv')

lemma add_child_kids:
  "map_of lookup k = Some nd \<Longrightarrow>
    kids (AList.update k (nd\<lparr>nd_children := nd_children nd @ [c]\<rparr>) lookup) j =
      kids lookup j @ (if j = k then [c] else [])"
  by (auto simp: kids_def update_conv')

lemma tree_step_kids:
  assumes "tree_step h b (idom, lookup, nodes) = (idom', lookup', nodes')"
    and inv: "\<And>c. (case map_of idom c of None \<Rightarrow> None | Some p \<Rightarrow> p) = map_of idom0 c"
  shows "\<And>c. (case map_of idom' c of None \<Rightarrow> None | Some p \<Rightarrow> p) = map_of idom0 c"
    and "\<And>k. kids lookup' k = kids lookup k @ (if tree_parent h idom0 b = k then [Some b] else [])"
proof -
  define p where "p = tree_parent h idom0 b"
  define l1 where "l1 = ensure_node p (ensure_node (Some b) lookup)"
  define l2 where "l2 = AList.update (Some b) ((the (map_of l1 (Some b)))\<lparr>nd_parent := Some p\<rparr>) l1"
  define pn where "pn = the (map_of l2 p)"
  have p: "fst (if b = h then (None, idom) else map_index None idom b) = p"
    using inv [of b] by (auto simp: map_index_def p_def tree_parent_def split: option.splits)
  have d: "idom' = snd (if b = h then (None, idom) else map_index None idom b)"
    "lookup' = AList.update p (pn\<lparr>nd_children := nd_children pn @ [Some b]\<rparr>) l2"
    using assms(1) p unfolding tree_step_def l1_def l2_def pn_def
    by (auto simp: Let_def split: prod.splits)
  show "(case map_of idom' c of None \<Rightarrow> None | Some p \<Rightarrow> p) = map_of idom0 c" for c
    using inv [of c] inv [of b] unfolding d(1) by (auto simp: map_index_def update_conv' split: option.splits)
  obtain nb where nb: "map_of l1 (Some b) = Some nb"
    using ensure_node_present by (metis l1_def not_None_eq)
  have "map_of l1 p \<noteq> None"
    using ensure_node_present by (metis l1_def)
  then obtain np where np: "map_of l2 p = Some np"
    using nb by (cases "p = Some b") (auto simp: l2_def update_conv')
  have "kids l2 k = kids lookup k" for k
    using nb set_parent_kids [OF nb, of "Some p" k] by (simp add: l2_def l1_def ensure_node_kids)
  then show "kids lookup' k = kids lookup k @ (if tree_parent h idom0 b = k then [Some b] else [])" for k
    using add_child_kids [OF np, of "Some b" k] np by (simp add: d(2) pn_def p_def)
qed

lemma tree_fold_kids:
  assumes "\<And>c. (case map_of idom c of None \<Rightarrow> None | Some p \<Rightarrow> p) = map_of idom0 c"
    and "fold (tree_step h) bs (idom, lookup, nodes) = (idom', lookup', nodes')"
  shows "kids lookup' k = kids lookup k @ map Some (filter (\<lambda>b. tree_parent h idom0 b = k) bs)"
  using assms
proof (induction bs arbitrary: idom lookup nodes)
  case (Cons b bs)
  obtain i1 l1 n1 where s: "tree_step h b (idom, lookup, nodes) = (i1, l1, n1)"
    by (metis prod_cases3)
  show ?case
    using Cons.IH [of i1 l1 n1] tree_step_kids [OF s Cons.prems(1)] Cons.prems(2) s by simp
qed simp

lemma children_tree:
  "children (getDominanceTree idom L) k =
     map Some (filter (\<lambda>b. tree_parent (hd (lp_blocks L)) idom b = k) (lp_blocks L))"
proof -
  have "(case map_of (map (map_prod id Some) idom) c of None \<Rightarrow> None | Some p \<Rightarrow> p) = map_of idom c" for c
    by (induction idom) auto
  then show ?thesis
    using tree_fold_kids [of "map (map_prod id Some) idom" idom "hd (lp_blocks L)" "lp_blocks L" "[]" "[]"]
    by (simp add: children_def getDominanceTree_def Let_def kids_def split: prod.splits)
qed

lemma root_tree: "dt_root (getDominanceTree idom L) = Some (hd (lp_blocks L))"
  by (simp add: getDominanceTree_def Let_def split: prod.splits)

subsection \<open>The traversal\<close>

text \<open>
  What LLVM guarantees of a natural loop: its header dominates its blocks and is its only entry,
  and the preheader is outside.
\<close>

definition wf_loop :: "'z llvm_cfg_scheme \<Rightarrow> llvm_loop \<Rightarrow> bool" where
  "wf_loop G L \<longleftrightarrow> lp_blocks L \<noteq> [] \<and> distinct (lp_blocks L) \<and> set (lp_blocks L) \<subseteq> set (fn_blocks G) \<and>
     hd (lp_blocks L) \<noteq> entry G \<and>
     (\<forall>b\<in>set (lp_blocks L). b \<noteq> hd (lp_blocks L) \<longrightarrow>
        sdom G (hd (lp_blocks L)) b \<and> set (fn_preds G b) \<subseteq> set (lp_blocks L)) \<and>
     (\<forall>p. lp_preheader L = Some p \<longrightarrow> p \<in> set (fn_blocks G) - set (lp_blocks L))"

locale loop_tree =
  fixes G :: "'z llvm_cfg_scheme" and L :: llvm_loop and idom :: "(block \<times> block) list"
  assumes wf: "wf_cfg G" and all_reach: "\<And>b. b \<in> set (fn_blocks G) \<Longrightarrow> reach G b" and loop: "wf_loop G L"
    and idom: "\<And>A B. map_of idom B = Some A \<longleftrightarrow> B \<in> set (fn_blocks G) \<and> is_idom G A B"
begin

abbreviation "h \<equiv> hd (lp_blocks L)"
abbreviation "LB \<equiv> set (lp_blocks L)"
abbreviation "t \<equiv> getDominanceTree idom L"

lemma header: "h \<in> LB"
  using loop by (simp add: wf_loop_def)

lemma loop_block: "b \<in> LB \<Longrightarrow> b \<in> set (fn_blocks G)" "b \<in> LB \<Longrightarrow> reach G b"
  using loop all_reach by (auto simp: wf_loop_def)

lemma header_sdom: "b \<in> LB \<Longrightarrow> b \<noteq> h \<Longrightarrow> sdom G h b"
  using loop by (simp add: wf_loop_def)

lemma last_header:
  assumes "path G p b" and "b \<in> LB" and "b \<noteq> h"
  shows "\<exists>p1 p2. p = p1 @ h # p2 \<and> set p2 \<subseteq> LB - {h}"
  using assms
proof (induction p arbitrary: b rule: rev_induct)
  case Nil
  then have "b = entry G" by (auto elim: path.cases)
  then show ?case using header_sdom [OF Nil.prems(2,3)] path_entry [of G] by (force simp: sdom_def)
next
  case (snoc a p)
  then have a: "path G p a" "b \<in> set (fn_succs G a)" by (auto elim: path.cases)
  have "a \<in> set (fn_preds G b)"
    using pred_iff_succ [OF wf loop_block(1) [OF snoc.prems(2)]] a reach_in_blocks [OF path_reach wf] by blast
  then have "a \<in> LB" using loop snoc.prems(2,3) by (auto simp: wf_loop_def)
  show ?case
  proof (cases "a = h")
    case True
    then show ?thesis by (intro exI [of _ p] exI [of _ "[]"]) simp
  next
    case False
    then obtain p1 p2 where "p = p1 @ h # p2" "set p2 \<subseteq> LB - {h}"
      using snoc.IH [OF a(1) \<open>a \<in> LB\<close>] by blast
    then show ?thesis
      using False \<open>a \<in> LB\<close> by (intro exI [of _ p1] exI [of _ "p2 @ [a]"]) simp
  qed
qed

lemma idom_in_loop:
  assumes "b \<in> LB" and "b \<noteq> h" and "is_idom G c b"
  shows "c \<in> LB"
proof (rule ccontr)
  assume c: "c \<notin> LB"
  obtain p where p: "path G p b" using reach_path [OF loop_block(2) [OF assms(1)]] by blast
  then obtain p1 p2 where s: "p = p1 @ h # p2" "set p2 \<subseteq> LB - {h}"
    using last_header assms(1,2) by blast
  have ch: "c \<noteq> h" using c header by blast
  have "sdom G c h"
    using sdom_chain_last [of G p1 h p2 b c] p s c ch assms(3) by (auto simp: is_idom_def)
  moreover have "sdom G h c"
    using assms(3) header_sdom [OF assms(1,2)] ch by (auto simp: is_idom_def)
  ultimately show False
    using sdom_trans sdom_irrefl [OF loop_block(2) [OF header]] by blast
qed

definition idm :: "block \<Rightarrow> block" where
  "idm b = the (map_of idom b)"

lemma idm: "b \<in> LB \<Longrightarrow> map_of idom b = Some (idm b) \<and> is_idom G (idm b) b"
proof -
  assume b: "b \<in> LB"
  have "b \<noteq> entry G"
  proof (cases "b = h")
    case True
    then show ?thesis using loop by (simp add: wf_loop_def)
  next
    case False
    show ?thesis
    proof
      assume "b = entry G"
      then show False using header_sdom [OF b False] path_entry [of G] by (force simp: sdom_def)
    qed
  qed
  then obtain a where "is_idom G a b" using is_idom_exists [OF wf loop_block(2) [OF b]] by blast
  then show ?thesis
    using idom [of b a] loop_block(1) [OF b] by (simp add: idm_def)
qed

lemma idm_in_loop: "b \<in> LB \<Longrightarrow> b \<noteq> h \<Longrightarrow> idm b \<in> LB"
  using idom_in_loop idm by blast

lemma children_loop:
  "children t (Some n) = map Some (filter (\<lambda>b. b \<noteq> h \<and> idm b = n) (lp_blocks L))"
proof -
  have "tree_parent h idom b = Some n \<longleftrightarrow> b \<noteq> h \<and> idm b = n" if "b \<in> LB" for b
    using idm [OF that] by (simp add: tree_parent_def)
  then have "filter (\<lambda>b. tree_parent h idom b = Some n) (lp_blocks L) =
      filter (\<lambda>b. b \<noteq> h \<and> idm b = n) (lp_blocks L)"
    by (intro filter_cong) simp_all
  then show ?thesis by (simp add: children_tree)
qed

lemma sdoms_smaller:
  assumes "b \<in> LB" and "is_idom G c b"
  shows "card {a. sdom G a c} < card {a. sdom G a b}"
proof (rule psubset_card_mono)
  obtain p where "path G p b" using reach_path [OF loop_block(2) [OF assms(1)]] by blast
  then show "finite {a. sdom G a b}" by (auto simp: sdom_def intro: finite_subset [of _ "set p"])
  have "sdom G c b" using assms(2) by (simp add: is_idom_def)
  then show "{a. sdom G a c} \<subset> {a. sdom G a b}"
    using sdom_trans sdom_irrefl sdom_reach [OF loop_block(2) [OF assms(1)]] by blast
qed

text \<open>A set of blocks closed under immediate dominators holds every dominator in the loop.\<close>

lemma dominators_in:
  assumes "S \<subseteq> LB" and "\<And>n. n \<in> S \<Longrightarrow> n \<noteq> h \<Longrightarrow> idm n \<in> S" and "a \<in> LB"
  shows "b \<in> S \<Longrightarrow> sdom G a b \<Longrightarrow> a \<in> S"
proof (induction "card {a. sdom G a b}" arbitrary: b rule: less_induct)
  case less
  have b: "b \<in> LB" using less.prems(1) assms(1) by blast
  have "b \<noteq> h"
  proof
    assume bh: "b = h"
    then have "a \<noteq> h" using sdom_irrefl [OF loop_block(2) [OF b]] less.prems(2) by blast
    then have "sdom G h a" using header_sdom assms(3) by blast
    then show False using less.prems(2) bh sdom_trans sdom_irrefl [OF loop_block(2) [OF b]] by blast
  qed
  then have c: "idm b \<in> S" "is_idom G (idm b) b" using assms(2) less.prems(1) idm [OF b] by auto
  then show ?case
    using less.hyps [OF sdoms_smaller [OF b c(2)] c(1)] less.prems(2) by (auto simp: is_idom_def)
qed

lemma all_visited:
  assumes "V \<subseteq> LB" and "h \<in> V" and "\<And>b. b \<in> LB \<Longrightarrow> b \<noteq> h \<Longrightarrow> idm b \<in> V \<Longrightarrow> b \<in> V"
  shows "V = LB"
proof -
  have "b \<in> LB \<Longrightarrow> b \<in> V" for b
  proof (induction "card {a. sdom G a b}" arbitrary: b rule: less_induct)
    case less
    show ?case
    proof (cases "b = h")
      case False
      then show ?thesis
        using less.hyps [OF sdoms_smaller [OF less.prems] idm_in_loop [OF less.prems False]]
          idm [OF less.prems] assms(3) [OF less.prems False] by blast
    qed (simp add: assms(2))
  qed
  then show ?thesis using assms(1) by blast
qed

text \<open>The state of the traversal: the visited blocks and the stack.\<close>

definition wst :: "block set \<Rightarrow> block list \<Rightarrow> bool" where
  "wst V ws \<longleftrightarrow> distinct ws \<and> set ws \<inter> V = {} \<and> V \<union> set ws \<subseteq> LB \<and> h \<in> V \<union> set ws \<and>
     (\<forall>n\<in>V \<union> set ws. n \<noteq> h \<longrightarrow> idm n \<in> V) \<and>
     (\<forall>b\<in>LB. b \<noteq> h \<longrightarrow> idm b \<in> V \<longrightarrow> b \<in> V \<union> set ws)"

abbreviation "below n \<equiv> filter (\<lambda>b. b \<noteq> h \<and> idm b = n) (lp_blocks L)"

lemma wst_step:
  assumes w: "wst V (b # ws)"
  shows "wst (insert b V) (rev (below b) @ ws)"
proof -
  have b: "b \<in> LB" "b \<notin> V" and ws: "distinct ws" "b \<notin> set ws" "set ws \<inter> V = {}"
    and sub: "V \<subseteq> LB" "set ws \<subseteq> LB"
    and top: "h \<in> V \<union> set (b # ws)"
    using w unfolding wst_def by simp_all
  have up: "n \<in> V \<Longrightarrow> n \<noteq> h \<Longrightarrow> idm n \<in> V" "n \<in> set ws \<Longrightarrow> n \<noteq> h \<Longrightarrow> idm n \<in> V"
    "b \<noteq> h \<Longrightarrow> idm b \<in> V" for n
    using w unfolding wst_def by auto
  have down: "x \<in> LB \<Longrightarrow> x \<noteq> h \<Longrightarrow> idm x \<in> V \<Longrightarrow> x \<in> V \<or> x = b \<or> x \<in> set ws" for x
    using w unfolding wst_def by auto
  define N where "N = set (below b)"
  have N: "x \<in> N \<longleftrightarrow> x \<in> LB \<and> x \<noteq> h \<and> idm x = b" for x
    by (simp add: N_def)
  have ne: "idm b \<noteq> b"
    using idm [OF b(1)] sdom_irrefl [OF loop_block(2) [OF b(1)]] by (auto simp: is_idom_def)
  have new: "N \<inter> V = {}" "N \<inter> set ws = {}" "b \<notin> N"
    using up(1) up(2) b(2) ne by (auto simp: N)
  have "distinct (below b)" using loop by (simp add: wf_loop_def)
  then have dist: "distinct (rev (below b) @ ws)" using ws(1) new(2) by (simp add: N_def)
  have set': "set (rev (below b) @ ws) = N \<union> set ws" by (simp add: N_def)
  have disj: "(N \<union> set ws) \<inter> insert b V = {}" and sub': "insert b V \<union> (N \<union> set ws) \<subseteq> LB"
    and top': "h \<in> insert b V \<union> (N \<union> set ws)"
    using new ws b sub top N by auto
  have up': "\<forall>n\<in>insert b V \<union> (N \<union> set ws). n \<noteq> h \<longrightarrow> idm n \<in> insert b V"
    using up by (auto simp: N)
  have down': "\<forall>x\<in>LB. x \<noteq> h \<longrightarrow> idm x \<in> insert b V \<longrightarrow> x \<in> insert b V \<union> (N \<union> set ws)"
    using down by (auto simp: N)
  show ?thesis
    unfolding wst_def set' by (intro conjI dist disj sub' top' up' down')
qed

fun follows :: "block set \<Rightarrow> block list \<Rightarrow> bool" where
  "follows V [] = True"
| "follows V (b # bs) = ((b \<noteq> h \<longrightarrow> idm b \<in> V) \<and> follows (insert b V) bs)"

theorem walk_ok:
  assumes "wst V ws"
  shows "(\<exists>b\<in>LB - V. \<not> own b) \<and> licm_walk t own scan (map Some ws) acc = Some None \<or>
    (\<forall>b\<in>LB - V. own b) \<and> (\<exists>order. distinct order \<and> set order = LB - V \<and> follows V order \<and>
      licm_walk t own scan (map Some ws) acc = Some (Some (fold scan order acc)))"
  using assms
proof (induction "card (LB - V)" arbitrary: V ws acc rule: less_induct)
  case less
  show ?case
  proof (cases ws)
    case Nil
    then have "V = LB" using less.prems by (intro all_visited) (auto simp: wst_def)
    moreover have "licm_walk t own scan (map Some ws) acc = Some (Some (fold scan [] acc))"
      using Nil by (subst licm_walk.simps) simp
    ultimately show ?thesis
      by (intro disjI2 conjI exI [of _ "[]"]) simp_all
  next
    case (Cons b ws')
    have b: "b \<in> LB - V" "b \<noteq> h \<longrightarrow> idm b \<in> V"
      using less.prems Cons by (auto simp: wst_def)
    have step: "licm_walk t own scan (map Some ws) acc =
        (if \<not> own b then Some None
         else licm_walk t own scan (map Some (rev (below b) @ ws')) (scan b acc))"
      using Cons by (subst licm_walk.simps) (simp add: children_loop rev_map)
    have "LB - insert b V \<subset> LB - V" using b by blast
    then have lt: "card (LB - insert b V) < card (LB - V)" by (simp add: psubset_card_mono)
    show ?thesis
    proof (cases "own b")
      case False
      then show ?thesis using step b(1) by auto
    next
      case True
      have w: "wst (insert b V) (rev (below b) @ ws')"
        using wst_step less.prems Cons by blast
      have sets: "LB - V = insert b (LB - insert b V)" using b by blast
      from less.hyps [OF lt w, of "scan b acc"] show ?thesis
      proof
        assume "(\<exists>x\<in>LB - insert b V. \<not> own x) \<and>
          licm_walk t own scan (map Some (rev (below b) @ ws')) (scan b acc) = Some None"
        then show ?thesis unfolding step sets using True by (intro disjI1) simp
      next
        assume r: "(\<forall>b\<in>LB - insert b V. own b) \<and> (\<exists>order. distinct order \<and> set order = LB - insert b V \<and>
          follows (insert b V) order \<and>
          licm_walk t own scan (map Some (rev (below b) @ ws')) (scan b acc) =
            Some (Some (fold scan order (scan b acc))))"
        then obtain order where "distinct order" "set order = LB - insert b V" "follows (insert b V) order"
          "licm_walk t own scan (map Some (rev (below b) @ ws')) (scan b acc) =
            Some (Some (fold scan order (scan b acc)))" by blast
        then show ?thesis
          unfolding step sets using True b r by (intro disjI2 conjI exI [of _ "b # order"]) simp_all
      qed
    qed
  qed
qed

lemma walk_from_root:
  "(\<exists>b\<in>LB. \<not> own b) \<and> licm_walk t own scan [dt_root t] acc = Some None \<or>
    (\<forall>b\<in>LB. own b) \<and> (\<exists>order. distinct order \<and> set order = LB \<and> follows {} order \<and>
      licm_walk t own scan [dt_root t] acc = Some (Some (fold scan order acc)))"
  using walk_ok [of "{}" "[h]" own scan acc] header by (simp add: wst_def root_tree)

end

end
