(* ===== verification/LICMCorrect.thy ===== *)
theory LICMCorrect
  imports LICMProofs "HOL-Library.Multiset"
begin

section \<open>Correctness of loop-invariant code motion\<close>

text \<open>
  What \<open>runOnLoop\<close> of \<open>asst3/LICM/LoopInvariantCodeMotion.cpp\<close> hoists, in which order, and what
  the function looks like afterwards.
\<close>

subsection \<open>Instructions and their blocks\<close>

lemma find_SomeD: "List.find P xs = Some x \<Longrightarrow> x \<in> set xs \<and> P x"
  by (auto simp: find_Some_iff)

lemma find_ex: "x \<in> set xs \<Longrightarrow> P x \<Longrightarrow> \<exists>y. List.find P xs = Some y \<and> y \<in> set xs \<and> P y"
  using find_SomeD [of P xs] by (cases "List.find P xs") (auto simp: find_None_iff)

text \<open>An instruction belongs to one block, and the operands of an instruction dominate it.\<close>

definition wf_ids :: "'z ir_function_scheme \<Rightarrow> bool" where
  "wf_ids F \<longleftrightarrow>
     (\<forall>a b. \<forall>i\<in>set (fn_insns F a). \<forall>j\<in>set (fn_insns F b). in_id i = in_id j \<longrightarrow> a = b \<and> i = j) \<and>
     (\<forall>b. distinct (fn_insns F b)) \<and> (\<forall>b. b \<notin> set (fn_blocks F) \<longrightarrow> fn_insns F b = [])"

definition wf_ssa :: "'z ir_function_scheme \<Rightarrow> bool" where
  "wf_ssa F \<longleftrightarrow> (\<forall>b\<in>set (fn_blocks F). \<forall>xs i ys. fn_insns F b = xs @ i # ys \<longrightarrow>
     (in_phi i \<noteq> None \<longrightarrow> \<not> in_speculatable i) \<and>
     (in_phi i = None \<longrightarrow> (\<forall>k. VInst k \<in> set (in_ops i) \<longrightarrow>
        k \<in> in_id ` set xs \<or> (\<exists>a. parent_of F k = Some a \<and> sdom F a b))))"

text \<open>Loop invariance: the instruction may move, and its operands in the loop are invariant.\<close>

inductive linv :: "'z ir_function_scheme \<Rightarrow> llvm_loop \<Rightarrow> nat \<Rightarrow> bool" for F L where
  linvI: "b \<in> set (lp_blocks L) \<Longrightarrow> i \<in> set (fn_insns F b) \<Longrightarrow> in_speculatable i \<Longrightarrow>
    \<not> in_readsmem i \<Longrightarrow> \<not> in_landingpad i \<Longrightarrow>
    (\<And>k. VInst k \<in> set (in_ops i) \<Longrightarrow> contains F L k \<Longrightarrow> linv F L k) \<Longrightarrow> linv F L (in_id i)"

lemma wf_idsD:
  assumes "wf_ids F"
  shows "i \<in> set (fn_insns F a) \<Longrightarrow> j \<in> set (fn_insns F b) \<Longrightarrow> in_id i = in_id j \<Longrightarrow> a = b \<and> i = j"
    and "distinct (fn_insns F b)" and "b \<notin> set (fn_blocks F) \<Longrightarrow> fn_insns F b = []"
  using assms unfolding wf_ids_def by blast+

lemma parent_of_Some:
  assumes "parent_of F k = Some b"
  shows "b \<in> set (fn_blocks F) \<and> (\<exists>i\<in>set (fn_insns F b). in_id i = k)"
  using find_SomeD [OF assms [unfolded parent_of_def]] by (auto simp: list_ex_iff)

lemma parent_of_in:
  assumes "wf_ids F" and "i \<in> set (fn_insns F b)"
  shows "parent_of F (in_id i) = Some b"
proof -
  have "b \<in> set (fn_blocks F)"
    using wf_idsD(3) [OF assms(1)] assms(2) by fastforce
  then have "parent_of F (in_id i) \<noteq> None"
    using assms(2) by (auto simp: parent_of_def find_None_iff list_ex_iff)
  then show ?thesis
    using parent_of_Some [of F "in_id i"] wf_idsD(1) [OF assms(1) assms(2)] by fastforce
qed

lemma contains_iff:
  "wf_ids F \<Longrightarrow> contains F L k \<longleftrightarrow> (\<exists>b\<in>set (lp_blocks L). \<exists>i\<in>set (fn_insns F b). in_id i = k)"
proof
  assume "contains F L k"
  then obtain b where "parent_of F k = Some b" "b \<in> set (lp_blocks L)"
    by (auto simp: contains_def split: option.splits)
  then show "\<exists>b\<in>set (lp_blocks L). \<exists>i\<in>set (fn_insns F b). in_id i = k"
    using parent_of_Some [of F k b] by blast
qed (auto simp: contains_def parent_of_in)

lemma linv_iff:
  assumes "wf_ids F" and "b \<in> set (lp_blocks L)" and "i \<in> set (fn_insns F b)"
  shows "linv F L (in_id i) \<longleftrightarrow> in_speculatable i \<and> \<not> in_readsmem i \<and> \<not> in_landingpad i \<and>
    (\<forall>k. VInst k \<in> set (in_ops i) \<longrightarrow> contains F L k \<longrightarrow> linv F L k)"
proof
  assume "linv F L (in_id i)"
  then show "in_speculatable i \<and> \<not> in_readsmem i \<and> \<not> in_landingpad i \<and>
      (\<forall>k. VInst k \<in> set (in_ops i) \<longrightarrow> contains F L k \<longrightarrow> linv F L k)"
  proof (cases rule: linv.cases)
    case (linvI c j)
    then have "j = i" using wf_idsD(1) [OF assms(1)] assms(3) by metis
    with linvI show ?thesis by blast
  qed
qed (use assms(2,3) in \<open>blast intro: linv.linvI\<close>)

lemma linv_in_loop: "wf_ids F \<Longrightarrow> linv F L k \<Longrightarrow> contains F L k"
  by (erule linv.cases) (auto simp: contains_iff)

lemma isInvariant_iff:
  "isInvariant F L acc i \<longleftrightarrow> in_speculatable i \<and> \<not> in_readsmem i \<and> \<not> in_landingpad i \<and>
     (\<forall>k. VInst k \<in> set (in_ops i) \<longrightarrow> contains F L k \<longrightarrow> k \<in> set acc)"
  unfolding isInvariant_def list_all_iff by (auto split: ir_value.splits)

subsection \<open>The collected statements\<close>

text \<open>
  After a set \<open>K\<close> of instructions has been looked at, the collected list holds the invariant ones,
  once each, and each after its operands in the loop.
\<close>

definition deps_before :: "'z ir_function_scheme \<Rightarrow> llvm_loop \<Rightarrow> nat list \<Rightarrow> bool" where
  "deps_before F L acc \<longleftrightarrow> (\<forall>p i q. acc = p @ in_id i # q \<longrightarrow> (\<exists>b. i \<in> set (fn_insns F b)) \<longrightarrow>
     (\<forall>k. VInst k \<in> set (in_ops i) \<longrightarrow> contains F L k \<longrightarrow> k \<in> set p))"

definition collected :: "'z ir_function_scheme \<Rightarrow> llvm_loop \<Rightarrow> nat set \<Rightarrow> nat list \<Rightarrow> bool" where
  "collected F L K acc \<longleftrightarrow> set acc = {k \<in> K. linv F L k} \<and> distinct acc \<and> deps_before F L acc"

lemma deps_before_snoc:
  assumes "wf_ids F" and "deps_before F L acc" and "i \<in> set (fn_insns F b)" and "isInvariant F L acc i"
  shows "deps_before F L (acc @ [in_id i])"
  unfolding deps_before_def
proof (intro allI impI)
  fix p j q k
  assume s: "acc @ [in_id i] = p @ in_id j # q" and j: "\<exists>b. j \<in> set (fn_insns F b)"
    and k: "VInst k \<in> set (in_ops j)" "contains F L k"
  show "k \<in> set p"
  proof (cases q rule: rev_cases)
    case Nil
    then have "in_id j = in_id i" and p: "p = acc" using s by auto
    then have "j = i" using wf_idsD(1) [OF assms(1)] j assms(3) by metis
    then show ?thesis using assms(4) k p by (simp add: isInvariant_iff)
  next
    case (snoc q' x)
    then have "acc = p @ in_id j # q'" using s by auto
    then show ?thesis using assms(2) j k unfolding deps_before_def by blast
  qed
qed

context loop_tree begin

text \<open>One block, after its dominators in the loop.\<close>

lemma scan_insns:
  fixes F :: "'y ir_function_scheme"
  assumes ids: "wf_ids F" and b: "b \<in> LB" and K: "\<And>k. k \<in> K \<Longrightarrow> k \<notin> in_id ` set (fn_insns F b)"
    and ops: "\<And>xs i ys k. fn_insns F b = xs @ i # ys \<Longrightarrow> in_speculatable i \<Longrightarrow> VInst k \<in> set (in_ops i) \<Longrightarrow>
      contains F L k \<Longrightarrow> k \<in> in_id ` set xs \<or> k \<in> K"
  shows "fn_insns F b = xs @ ys \<Longrightarrow> collected F L (K \<union> in_id ` set xs) acc \<Longrightarrow>
    collected F L (K \<union> in_id ` set (fn_insns F b))
      (fold (\<lambda>inst inv. if isInvariant F L inv inst then inv @ [in_id inst] else inv) ys acc)"
proof (induction ys arbitrary: xs acc)
  case (Cons i ys)
  have i: "i \<in> set (fn_insns F b)" "i \<notin> set xs"
    using Cons.prems(1) wf_idsD(2) [OF ids, of b] by auto
  have c: "set acc = {k \<in> K \<union> in_id ` set xs. linv F L k}" "distinct acc" "deps_before F L acc"
    using Cons.prems(2) by (simp_all add: collected_def)
  have new: "in_id i \<notin> set acc"
  proof
    assume "in_id i \<in> set acc"
    then have "in_id i \<in> in_id ` set xs" using c(1) K i(1) by auto
    then obtain j where "j \<in> set xs" "in_id j = in_id i" by auto
    then show False using wf_idsD(1) [OF ids, of j b i b] Cons.prems(1) i by auto
  qed
  have eq: "isInvariant F L acc i \<longleftrightarrow> linv F L (in_id i)"
    unfolding isInvariant_iff linv_iff [OF ids b i(1)] using ops [OF Cons.prems(1)] c(1) by auto
  have "collected F L (K \<union> in_id ` set (xs @ [i])) (if isInvariant F L acc i then acc @ [in_id i] else acc)"
    using c new eq deps_before_snoc [OF ids c(3) i(1)] by (auto simp: collected_def)
  then show ?case
    using Cons.IH [of "xs @ [i]"] Cons.prems(1) by simp
qed simp

end

locale licm_setup = loop_tree F L idom for F :: "'z ir_function_scheme" and L idom +
  assumes ids: "wf_ids F" and ssa: "wf_ssa F"
begin

definition ids_of :: "block set \<Rightarrow> nat set" where
  "ids_of V = (\<Union>a\<in>V. in_id ` set (fn_insns F a))"

lemma operand_seen:
  assumes b: "b \<in> LB" and V: "V \<subseteq> LB" "\<And>n. n \<in> V \<Longrightarrow> n \<noteq> h \<Longrightarrow> idm n \<in> V" "b \<noteq> h \<Longrightarrow> idm b \<in> V"
    and s: "fn_insns F b = xs @ i # ys" "in_speculatable i" "VInst k \<in> set (in_ops i)" "contains F L k"
  shows "k \<in> in_id ` set xs \<or> k \<in> ids_of V"
proof (rule disjCI)
  assume "k \<notin> ids_of V"
  show "k \<in> in_id ` set xs"
  proof (rule ccontr)
    assume nx: "k \<notin> in_id ` set xs"
    have "in_phi i = None"
      using ssa s(1,2) loop_block(1) [OF b] unfolding wf_ssa_def by blast
    then obtain a where a: "parent_of F k = Some a" "sdom F a b"
      using ssa s(1,3) nx loop_block(1) [OF b] unfolding wf_ssa_def by blast
    have "a \<in> LB" using s(4) a(1) by (simp add: contains_def)
    have "a \<in> insert b V"
    proof (rule dominators_in [of "insert b V" a b])
      show "insert b V \<subseteq> LB" using b V(1) by blast
      show "idm n \<in> insert b V" if "n \<in> insert b V" "n \<noteq> h" for n using that V(2,3) by blast
    qed (simp_all add: \<open>a \<in> LB\<close> a(2))
    moreover have "a \<noteq> b" using a(2) sdom_irrefl [OF loop_block(2) [OF b]] by blast
    ultimately have "a \<in> V" by blast
    then show False
      using parent_of_Some [OF a(1)] \<open>k \<notin> ids_of V\<close> by (auto simp: ids_of_def)
  qed
qed

lemma scan_block_ok:
  assumes b: "b \<in> LB" "b \<notin> V" and V: "V \<subseteq> LB" "\<And>n. n \<in> V \<Longrightarrow> n \<noteq> h \<Longrightarrow> idm n \<in> V" "b \<noteq> h \<Longrightarrow> idm b \<in> V"
    and c: "collected F L (ids_of V) acc"
  shows "collected F L (ids_of (insert b V)) (scan_block F L b acc)"
proof -
  have K: "k \<notin> in_id ` set (fn_insns F b)" if "k \<in> ids_of V" for k
    using that b(2) wf_idsD(1) [OF ids] unfolding ids_of_def by blast
  have "ids_of (insert b V) = ids_of V \<union> in_id ` set (fn_insns F b)"
    by (auto simp: ids_of_def)
  moreover have "collected F L (ids_of V \<union> in_id ` set (fn_insns F b))
      (fold (\<lambda>inst inv. if isInvariant F L inv inst then inv @ [in_id inst] else inv) (fn_insns F b) acc)"
    using c operand_seen [OF b(1) V] by (intro scan_insns [OF ids b(1) K, of _ "[]"]) simp_all
  ultimately show ?thesis by (simp add: scan_block_def)
qed

lemma scan_order:
  assumes "follows V order" and "distinct order" and "set order \<inter> V = {}" and "V \<union> set order \<subseteq> LB"
    and "\<And>n. n \<in> V \<Longrightarrow> n \<noteq> h \<Longrightarrow> idm n \<in> V" and "collected F L (ids_of V) acc"
  shows "collected F L (ids_of (V \<union> set order)) (fold (scan_block F L) order acc)"
  using assms
proof (induction order arbitrary: V acc)
  case (Cons b order)
  have up: "b \<noteq> h \<Longrightarrow> idm b \<in> V" using Cons.prems(1) by simp
  have "collected F L (ids_of (insert b V)) (scan_block F L b acc)"
    using Cons.prems up by (intro scan_block_ok) auto
  then have "collected F L (ids_of (insert b V \<union> set order)) (fold (scan_block F L) order (scan_block F L b acc))"
    using Cons.prems up by (intro Cons.IH) auto
  then show ?case by simp
qed simp

lemma walk_collects:
  assumes "\<forall>b\<in>LB. own b"
  shows "\<exists>acc. licm_walk t own (scan_block F L) [dt_root t] [] = Some (Some acc) \<and>
    set acc = {k. linv F L k} \<and> distinct acc \<and> deps_before F L acc"
proof -
  obtain order where o: "distinct order" "set order = LB" "follows {} order"
    "licm_walk t own (scan_block F L) [dt_root t] [] = Some (Some (fold (scan_block F L) order []))"
    using walk_from_root [of own "scan_block F L" "[]"] assms by auto
  have "collected F L (ids_of ({} \<union> set order)) (fold (scan_block F L) order [])"
    using o by (intro scan_order) (auto simp: collected_def deps_before_def ids_of_def)
  moreover have "{k \<in> ids_of LB. linv F L k} = {k. linv F L k}"
    using linv_in_loop [OF ids] contains_iff [OF ids] by (fastforce simp: ids_of_def)
  ultimately show ?thesis using o by (simp add: collected_def)
qed

end

subsection \<open>The function after the motion\<close>

definition insn_of :: "'z ir_function_scheme \<Rightarrow> nat \<Rightarrow> instr" where
  "insn_of F k = the (List.find (\<lambda>i. in_id i = k) (all_insns F))"

definition hoisted :: "'z ir_function_scheme \<Rightarrow> block \<Rightarrow> nat list \<Rightarrow> 'z ir_function_scheme" where
  "hoisted F ph ks = F\<lparr>fn_insns := \<lambda>b.
     if b = ph then butlast (fn_insns F ph) @ map (insn_of F) ks @ [last (fn_insns F ph)]
     else filter (\<lambda>i. in_id i \<notin> set ks) (fn_insns F b)\<rparr>"

lemma insn_of_id:
  assumes "wf_ids F" and "i \<in> set (fn_insns F b)"
  shows "insn_of F (in_id i) = i"
proof -
  have b: "b \<in> set (fn_blocks F)" using wf_idsD(3) [OF assms(1)] assms(2) by fastforce
  then have "i \<in> set (all_insns F)" using assms(2) by (auto simp: all_insns_def)
  then obtain j where j: "List.find (\<lambda>j. in_id j = in_id i) (all_insns F) = Some j" "j \<in> set (all_insns F)"
      "in_id j = in_id i"
    using find_ex [of i "all_insns F" "\<lambda>j. in_id j = in_id i"] by auto
  then obtain a where "j \<in> set (fn_insns F a)" by (auto simp: all_insns_def)
  then have "j = i" using wf_idsD(1) [OF assms(1)] assms(2) j(3) by blast
  then show ?thesis using j by (simp add: insn_of_def)
qed

lemma find_in_block:
  assumes "wf_ids F" and "i \<in> set (fn_insns F b)" and "in_id i \<notin> set ks"
  shows "List.find (\<lambda>j. in_id j = in_id i) (filter (\<lambda>i. in_id i \<notin> set ks) (fn_insns F b)) = Some i"
proof -
  let ?l = "filter (\<lambda>i. in_id i \<notin> set ks) (fn_insns F b)"
  obtain j where j: "List.find (\<lambda>j. in_id j = in_id i) ?l = Some j" "j \<in> set ?l" "in_id j = in_id i"
    using find_ex [of i ?l "\<lambda>j. in_id j = in_id i"] assms(2,3) by auto
  then have "j = i" using wf_idsD(1) [OF assms(1), of j b i b] assms(2) by simp
  then show ?thesis using j by simp
qed

lemma parent_in_hoisted:
  assumes ids: "wf_ids F" and i: "i \<in> set (fn_insns F b)" and b: "b \<noteq> ph" and k: "in_id i \<notin> set ks"
    and ks: "\<And>j. j \<in> set ks \<Longrightarrow> \<exists>x a. x \<in> set (fn_insns F a) \<and> in_id x = j" and ph: "fn_insns F ph \<noteq> []"
  shows "parent_of (hoisted F ph ks) (in_id i) = Some b"
proof -
  let ?H = "hoisted F ph ks"
  have blk: "b \<in> set (fn_blocks F)" using wf_idsD(3) [OF ids] i by fastforce
  have "list_ex (\<lambda>x. in_id x = in_id i) (fn_insns ?H b)"
    using i b k by (auto simp: hoisted_def list_ex_iff)
  then obtain a where a: "parent_of ?H (in_id i) = Some a"
    using find_ex [of b "fn_blocks ?H" "\<lambda>b. list_ex (\<lambda>x. in_id x = in_id i) (fn_insns ?H b)"] blk
    by (auto simp: parent_of_def hoisted_def)
  then obtain x where x: "x \<in> set (fn_insns ?H a)" "in_id x = in_id i"
    using parent_of_Some by blast
  have "a = b"
  proof (cases "a = ph")
    case True
    then have "x \<in> set (fn_insns F ph) \<or> x \<in> insn_of F ` set ks"
      using x(1) ph by (auto simp: hoisted_def dest: in_set_butlastD)
    then show ?thesis
    proof
      assume "x \<in> set (fn_insns F ph)"
      then show ?thesis using wf_idsD(1) [OF ids] x(2) i True by blast
    next
      assume "x \<in> insn_of F ` set ks"
      then obtain j where j: "j \<in> set ks" "x = insn_of F j" by blast
      then have "in_id x = j" using ks insn_of_id [OF ids] by metis
      then show ?thesis using j(1) k x(2) by simp
    qed
  next
    case False
    then show ?thesis using x i wf_idsD(1) [OF ids] by (auto simp: hoisted_def)
  qed
  then show ?thesis using a by simp
qed

lemma move_before_eq:
  assumes "parent_of F k = Some b" and "List.find (\<lambda>j. in_id j = k) (fn_insns F b) = Some i"
    and "fn_insns F ph \<noteq> []" and "in_id (last (fn_insns F ph)) \<noteq> k" and "b \<noteq> ph"
  shows "move_before ph k F = Inr (F\<lparr>fn_insns := (fn_insns F)(b := filter (\<lambda>j. in_id j \<noteq> k) (fn_insns F b),
    ph := butlast (fn_insns F ph) @ [i, last (fn_insns F ph)])\<rparr>)"
  using assms by (simp add: move_before_def split: list.splits)

lemma hoisted_upd: "(hoisted F ph ks)\<lparr>fn_insns := fn_insns (hoisted F ph ks')\<rparr> = hoisted F ph ks'"
  by (simp add: hoisted_def)

lemma move_hoisted:
  assumes ids: "wf_ids F" and i: "i \<in> set (fn_insns F b)" and b: "b \<noteq> ph" and k: "in_id i \<notin> set ks"
    and ks: "\<And>j. j \<in> set ks \<Longrightarrow> \<exists>x a. x \<in> set (fn_insns F a) \<and> in_id x = j" and ph: "fn_insns F ph \<noteq> []"
  shows "move_before ph (in_id i) (hoisted F ph ks) = Inr (hoisted F ph (ks @ [in_id i]))"
proof -
  let ?H = "hoisted F ph ks"
  note p = parent_in_hoisted [OF assms]
  have f: "List.find (\<lambda>j. in_id j = in_id i) (fn_insns ?H b) = Some i"
    using find_in_block [OF ids i k] b by (simp add: hoisted_def)
  have l: "fn_insns ?H ph \<noteq> []" "in_id (last (fn_insns ?H ph)) \<noteq> in_id i"
    using wf_idsD(1) [OF ids i, of "last (fn_insns F ph)" ph] b ph by (auto simp: hoisted_def)
  have other: "filter (\<lambda>j. in_id j \<notin> set (ks @ [in_id i])) (fn_insns F a) =
      filter (\<lambda>j. in_id j \<notin> set ks) (fn_insns F a)" if "a \<noteq> b" for a
    using wf_idsD(1) [OF ids i, of _ a] that by (intro filter_cong) (simp, metis empty_iff empty_set insert_iff list.set(2) set_append Un_iff)
  have "(fn_insns ?H)(b := filter (\<lambda>j. in_id j \<noteq> in_id i) (fn_insns ?H b),
      ph := butlast (fn_insns ?H ph) @ [i, last (fn_insns ?H ph)]) = fn_insns (hoisted F ph (ks @ [in_id i]))"
    using b other insn_of_id [OF ids i]
    by (auto simp: hoisted_def fun_eq_iff butlast_append intro: filter_cong)
  then show ?thesis
    using move_before_eq [OF p f l b] hoisted_upd by metis
qed

lemma hoist_all:
  assumes ids: "wf_ids F" and ph: "fn_insns F ph \<noteq> []"
    and ks: "\<And>k. k \<in> set ks \<Longrightarrow> \<exists>b. b \<noteq> ph \<and> k \<in> in_id ` set (fn_insns F b)" and "distinct ks"
  shows "fold_res (move_before ph) ks F = Inr (hoisted F ph ks)"
proof -
  have "fold_res (move_before ph) q (hoisted F ph p) = Inr (hoisted F ph (p @ q))"
    if "distinct (p @ q)" "set (p @ q) \<subseteq> set ks" for p q
    using that
  proof (induction q arbitrary: p)
    case (Cons k q)
    obtain b i where bi: "b \<noteq> ph" "i \<in> set (fn_insns F b)" "k = in_id i"
      using ks [of k] Cons.prems(2) by auto
    have "\<exists>x a. x \<in> set (fn_insns F a) \<and> in_id x = j" if "j \<in> set p" for j
      using ks [of j] that Cons.prems(2) by auto
    moreover have "in_id i \<notin> set p" using Cons.prems(1) bi(3) by simp
    ultimately have "move_before ph k (hoisted F ph p) = Inr (hoisted F ph (p @ [k]))"
      unfolding bi(3) by (intro move_hoisted [OF ids bi(2,1)] ph)
    then show ?case using Cons.IH [of "p @ [k]"] Cons.prems by simp
  qed simp
  from this [of "[]" ks] have "fold_res (move_before ph) ks (hoisted F ph []) = Inr (hoisted F ph ks)"
    using assms(4) by simp
  moreover have "hoisted F ph [] = F"
    using ph by (cases F) (auto simp: hoisted_def fun_eq_iff)
  ultimately show ?thesis by simp
qed

text \<open>Hoisting permutes the instructions: every one is still in exactly one place.\<close>

lemma hoisted_insns:
  assumes ids: "wf_ids F" and ph: "fn_insns F ph \<noteq> []"
    and ks: "\<And>k. k \<in> set ks \<Longrightarrow> \<exists>b. b \<noteq> ph \<and> k \<in> in_id ` set (fn_insns F b)"
  shows "i \<in> set (fn_insns (hoisted F ph ks) b) \<longleftrightarrow>
    (\<exists>a. i \<in> set (fn_insns F a) \<and> b = (if in_id i \<in> set ks then ph else a))"
proof -
  have hoistedI: "insn_of F ` set ks = {i. in_id i \<in> set ks \<and> (\<exists>a. i \<in> set (fn_insns F a))}"
  proof safe
    fix k assume k: "k \<in> set ks"
    then obtain a i where i: "i \<in> set (fn_insns F a)" "k = in_id i" using ks by blast
    then show "in_id (insn_of F k) \<in> set ks" "\<exists>a. insn_of F k \<in> set (fn_insns F a)"
      using k insn_of_id [OF ids i(1)] by auto
  next
    fix i a assume "in_id i \<in> set ks" "i \<in> set (fn_insns F a)"
    then show "i \<in> insn_of F ` set ks" using insn_of_id [OF ids, of i a] by (metis image_eqI)
  qed
  have phk: "in_id j \<notin> set ks" if "j \<in> set (fn_insns F ph)" for j
  proof
    assume "in_id j \<in> set ks"
    then obtain b x where "b \<noteq> ph" "x \<in> set (fn_insns F b)" "in_id j = in_id x" using ks by blast
    then show False using wf_idsD(1) [OF ids that, of x b] by blast
  qed
  have set_ph: "set (fn_insns F ph) = insert (last (fn_insns F ph)) (set (butlast (fn_insns F ph)))"
    using ph by (metis append_butlast_last_id list.set(2) list.simps(15) rotate1.simps(2) set_rotate1)
  show ?thesis
  proof (cases "b = ph")
    case True
    have "set (fn_insns (hoisted F ph ks) ph) = set (fn_insns F ph) \<union> insn_of F ` set ks"
      unfolding set_ph by (auto simp: hoisted_def)
    then show ?thesis using True phk hoistedI by auto
  next
    case False
    then show ?thesis by (auto simp: hoisted_def)
  qed
qed

lemma hoisted_distinct:
  assumes ids: "wf_ids F" and ph: "fn_insns F ph \<noteq> []" and "distinct ks"
    and ks: "\<And>k. k \<in> set ks \<Longrightarrow> \<exists>b. b \<noteq> ph \<and> k \<in> in_id ` set (fn_insns F b)"
  shows "distinct (fn_insns (hoisted F ph ks) b)"
proof (cases "b = ph")
  case True
  have id: "in_id (insn_of F k) = k" "insn_of F k \<notin> set (fn_insns F ph)" if "k \<in> set ks" for k
  proof -
    from ks [OF that] obtain a i where i: "a \<noteq> ph" "i \<in> set (fn_insns F a)" "k = in_id i" by blast
    then show "in_id (insn_of F k) = k" "insn_of F k \<notin> set (fn_insns F ph)"
      using insn_of_id [OF ids i(2)] wf_idsD(1) [OF ids i(2), of i ph] by auto
  qed
  have "inj_on (insn_of F) (set ks)" using id(1) by (metis inj_onI)
  then have "distinct (map (insn_of F) ks)" using assms(3) by (simp add: distinct_map)
  moreover obtain xs l where xs: "fn_insns F ph = xs @ [l]" using ph by (metis append_butlast_last_id)
  moreover have "distinct (xs @ [l])" using wf_idsD(2) [OF ids, of ph] xs by simp
  moreover have "set (map (insn_of F) ks) \<inter> set (xs @ [l]) = {}" using id(2) xs by auto
  ultimately show ?thesis using True by (auto simp: hoisted_def)
next
  case False
  then show ?thesis using wf_idsD(2) [OF ids, of b] by (simp add: hoisted_def)
qed

lemma hoisted_wf_ids:
  assumes ids: "wf_ids F" and ph: "fn_insns F ph \<noteq> []" and "distinct ks"
    and ks: "\<And>k. k \<in> set ks \<Longrightarrow> \<exists>b. b \<noteq> ph \<and> k \<in> in_id ` set (fn_insns F b)"
  shows "wf_ids (hoisted F ph ks)"
proof -
  have mem: "i \<in> set (fn_insns (hoisted F ph ks) b) \<longleftrightarrow>
      (\<exists>a. i \<in> set (fn_insns F a) \<and> b = (if in_id i \<in> set ks then ph else a))" for i b
    by (rule hoisted_insns [OF ids ph ks])
  have "a = b \<and> i = j" if "i \<in> set (fn_insns (hoisted F ph ks) a)" "j \<in> set (fn_insns (hoisted F ph ks) b)"
    "in_id i = in_id j" for a b i j
  proof -
    from that(1,2) obtain a' b' where "i \<in> set (fn_insns F a')" "a = (if in_id i \<in> set ks then ph else a')"
      "j \<in> set (fn_insns F b')" "b = (if in_id j \<in> set ks then ph else b')"
      unfolding mem by blast
    then show ?thesis using wf_idsD(1) [OF ids, of i a' j b'] that(3) by simp
  qed
  moreover have "ph \<in> set (fn_blocks F)" using wf_idsD(3) [OF ids] ph by blast
  then have "fn_insns (hoisted F ph ks) b = []" if "b \<notin> set (fn_blocks (hoisted F ph ks))" for b
    using that wf_idsD(3) [OF ids, of b] by (auto simp: hoisted_def)
  ultimately show ?thesis
    unfolding wf_ids_def using hoisted_distinct [OF assms] by blast
qed

subsection \<open>The pass on a loop\<close>

lemma printIdom_ok:
  assumes "\<And>b. b \<in> set (lp_blocks L) \<Longrightarrow> map_of idom b \<noteq> None"
  shows "\<exists>out. printIdom bname idom L = Inr out"
proof -
  let ?f = "\<lambda>b out. case map_of idom b of None \<Rightarrow> Inl NullDereference
    | Some p \<Rightarrow> Inr (out @ [bname b @ '' idom '' @ bname p])"
  have "\<exists>out. fold_res ?f (lp_blocks L) [''New Loop''] = Inr out \<and> True"
  proof (rule fold_res_total)
    show "\<exists>t'. ?f b t = Inr t' \<and> True" if "b \<in> set (lp_blocks L)" for b t
      using assms [OF that] by auto
  qed simp
  then show ?thesis by (simp add: printIdom_def)
qed

lemma loop_idom:
  assumes "bitvector BV" and "wf_cfg F" and "\<And>b. b \<in> set (fn_blocks F) \<Longrightarrow> reach F b" and "wf_loop F L"
    and "lp_preheader L = Some ph"
  obtains idom where "loop_tree F L idom"
    and "runOnLoop BV loopFor bname L F =
      (case licm_walk (getDominanceTree idom L) (\<lambda>b. loopFor b = Some (lp_id L)) (scan_block F L)
          [dt_root (getDominanceTree idom L)] [] of
         None \<Rightarrow> None
       | Some None \<Rightarrow> Some (Inr (False, F))
       | Some (Some invStmts) \<Rightarrow>
           Some (bind_res (fold_res (move_before ph) invStmts F) (\<lambda>F'. Inr (invStmts \<noteq> [], F'))))"
proof -
  obtain dr idom where i: "computeDom BV F = Some (Inr dr)" "computeIdom BV dr = Inr idom"
    "\<forall>A B. map_of idom B = Some A \<longleftrightarrow> B \<in> set (fn_blocks F) \<and> is_idom F A B"
    using dom_setup.idom_exact [OF dom_setupI [OF assms(1,2)] assms(3)] by blast
  have lt: "loop_tree F L idom"
    using assms(2-4) i(3) by unfold_locales auto
  have "\<exists>out. printIdom bname idom L = Inr out"
    using loop_tree.idm [OF lt] by (intro printIdom_ok) fastforce
  then show ?thesis
    using that [OF lt] i(1,2) assms(4,5) by (auto simp: runOnLoop_def wf_loop_def)
qed

lemma linv_source:
  assumes "wf_ids F" and "wf_loop F L" and "lp_preheader L = Some ph" and "linv F L k"
  shows "\<exists>b. b \<noteq> ph \<and> k \<in> in_id ` set (fn_insns F b)"
proof -
  have "ph \<notin> set (lp_blocks L)" using assms(2,3) by (simp add: wf_loop_def)
  moreover obtain b i where "b \<in> set (lp_blocks L)" "i \<in> set (fn_insns F b)" "in_id i = k"
    using contains_iff [OF assms(1), of L k] linv_in_loop [OF assms(1,4)] by blast
  ultimately show ?thesis by (intro exI [of _ b]) auto
qed

lemma licm_result:
  assumes "bitvector BV" and "wf_cfg F" and "wf_ids F" and "wf_ssa F"
    and "\<And>b. b \<in> set (fn_blocks F) \<Longrightarrow> reach F b" and "wf_loop F L" and "lp_preheader L = Some ph"
    and "fn_insns F ph \<noteq> []" and "\<And>b. b \<in> set (lp_blocks L) \<Longrightarrow> loopFor b = Some (lp_id L)"
  shows "\<exists>ks. runOnLoop BV loopFor bname L F = Some (Inr (ks \<noteq> [], hoisted F ph ks)) \<and>
    set ks = {k. linv F L k} \<and> distinct ks \<and> deps_before F L ks"
proof -
  obtain idom where lt: "loop_tree F L idom" and run: "runOnLoop BV loopFor bname L F =
      (case licm_walk (getDominanceTree idom L) (\<lambda>b. loopFor b = Some (lp_id L)) (scan_block F L)
          [dt_root (getDominanceTree idom L)] [] of
         None \<Rightarrow> None
       | Some None \<Rightarrow> Some (Inr (False, F))
       | Some (Some invStmts) \<Rightarrow>
           Some (bind_res (fold_res (move_before ph) invStmts F) (\<lambda>F'. Inr (invStmts \<noteq> [], F'))))"
    using loop_idom [OF assms(1,2,5,6,7)] .
  have ls: "licm_setup F L idom"
    using lt assms(3,4) by (intro licm_setup.intro licm_setup_axioms.intro)
  obtain ks where ks: "licm_walk (getDominanceTree idom L) (\<lambda>b. loopFor b = Some (lp_id L)) (scan_block F L)
          [dt_root (getDominanceTree idom L)] [] = Some (Some ks)"
      "set ks = {k. linv F L k}" "distinct ks" "deps_before F L ks"
    using licm_setup.walk_collects [OF ls, of "\<lambda>b. loopFor b = Some (lp_id L)"] assms(9) by auto
  have "\<exists>b. b \<noteq> ph \<and> k \<in> in_id ` set (fn_insns F b)" if "k \<in> set ks" for k
    using that ks(2) linv_source [OF assms(3,6,7)] by simp
  then have "fold_res (move_before ph) ks F = Inr (hoisted F ph ks)"
    using ks(3) by (intro hoist_all assms(3,8))
  then show ?thesis using run ks by auto
qed

subsection \<open>A concrete loop\<close>

definition sample_loop :: llvm_loop where
  "sample_loop = \<lparr>lp_id = 7, lp_blocks = [1, 2], lp_preheader = Some 0\<rparr>"

lemma sample_path_last:
  assumes "path hoist_loop p b" and "b \<noteq> 0"
  shows "(b = 2 \<or> b = 3 \<longrightarrow> 1 \<in> set p) \<and> 0 \<in> set p"
  using assms
proof (induction rule: path.induct)
  case (path_step p a b)
  then show ?case by (auto simp: sample_defs split: if_splits)
qed (simp add: sample_defs)

lemma sample_sdom: "b \<noteq> 0 \<Longrightarrow> sdom hoist_loop 0 b" "sdom hoist_loop 1 2" "sdom hoist_loop 1 3"
  using sample_path_last by (auto simp: sdom_def)

lemma sample_wf_loop: "wf_loop hoist_loop sample_loop"
  using sample_sdom by (auto simp: wf_loop_def sample_loop_def sample_defs)

lemma sample_wf_ids: "wf_ids hoist_loop"
  by (auto simp: wf_ids_def sample_defs)

lemma sample_parents:
  "parent_of hoist_loop 1 = Some 1" "parent_of hoist_loop 2 = Some 1" "parent_of hoist_loop 4 = Some 2"
  by (simp_all add: parent_of_def sample_defs)

lemma sample_wf_ssa: "wf_ssa hoist_loop"
  using sample_sdom sample_parents
  by (auto simp: wf_ssa_def sample_defs Cons_eq_append_conv)

lemma sample_reach: "b \<in> set (fn_blocks hoist_loop) \<Longrightarrow> reach hoist_loop b"
  using reach_loop [of hoist_loop b] by (auto simp: sample_defs)

lemma sample_invariant: "linv hoist_loop sample_loop 4" "linv hoist_loop sample_loop 5"
proof -
  note iff = linv_iff [OF sample_wf_ids, of 2 sample_loop]
  show four: "linv hoist_loop sample_loop 4"
    using iff [of "mk_insn 4 [VArg 0, VConst 32 7]"] by (simp add: sample_loop_def sample_defs)
  show "linv hoist_loop sample_loop 5"
    using iff [of "mk_insn 5 [VInst 4, VArg 0]"] four by (simp add: sample_loop_def sample_defs)
qed

lemma sample_sdom_iff:
  "\<not> sdom hoist_loop a 0" "sdom hoist_loop a 1 \<longleftrightarrow> a = 0"
  "sdom hoist_loop a 2 \<longleftrightarrow> a = 0 \<or> a = 1" "sdom hoist_loop a 3 \<longleftrightarrow> a = 0 \<or> a = 1"
proof -
  have p0: "path hoist_loop [] 0" using path_entry [of hoist_loop] by (simp add: sample_defs)
  have p1: "path hoist_loop [0] 1" using path_step [OF p0, of 1] by (simp add: sample_defs)
  have p2: "path hoist_loop [0, 1] 2" "path hoist_loop [0, 1] 3"
    using path_step [OF p1, of 2] path_step [OF p1, of 3] by (simp_all add: sample_defs)
  have on: "sdom hoist_loop a b \<Longrightarrow> path hoist_loop p b \<Longrightarrow> a \<in> set p" for b p
    by (simp add: sdom_def)
  show "\<not> sdom hoist_loop a 0" using on [OF _ p0] by auto
  show "sdom hoist_loop a 1 \<longleftrightarrow> a = 0" using on [OF _ p1] sample_sdom(1) [of 1] by auto
  show "sdom hoist_loop a 2 \<longleftrightarrow> a = 0 \<or> a = 1" using on [OF _ p2(1)] sample_sdom by auto
  show "sdom hoist_loop a 3 \<longleftrightarrow> a = 0 \<or> a = 1" using on [OF _ p2(2)] sample_sdom by auto
qed

lemma sample_idom:
  "B \<in> set (fn_blocks hoist_loop) \<and> is_idom hoist_loop A B \<longleftrightarrow>
    A = 0 \<and> B = 1 \<or> A = 1 \<and> (B = 2 \<or> B = 3)"
proof -
  have "\<not> is_idom hoist_loop A 0"
    by (simp add: is_idom_def sample_sdom_iff)
  moreover have "is_idom hoist_loop A 1 \<longleftrightarrow> A = 0"
    unfolding is_idom_def sample_sdom_iff(2) by (intro iffI conjI) simp_all
  moreover have "is_idom hoist_loop A b \<longleftrightarrow> A = 1" if "b = 2 \<or> b = 3" for b
  proof -
    have b: "sdom hoist_loop c b \<longleftrightarrow> c = 0 \<or> c = 1" for c
      using that sample_sdom_iff(3,4) by blast
    show ?thesis
    proof
      assume "is_idom hoist_loop A b"
      then have "A = 0 \<or> A = 1" "1 = A \<or> sdom hoist_loop 1 A"
        using b by (simp_all add: is_idom_def)
      then show "A = 1" using sample_sdom_iff(1) [of 1] by fastforce
    next
      assume "A = 1"
      then show "is_idom hoist_loop A b"
        unfolding is_idom_def b using sample_sdom_iff(2) by simp
    qed
  qed
  moreover have "B \<in> set (fn_blocks hoist_loop) \<longleftrightarrow> B = 0 \<or> B = 1 \<or> B = 2 \<or> B = 3"
    by (simp add: sample_defs)
  ultimately show ?thesis by metis
qed

interpretation sample_tree: licm_setup hoist_loop sample_loop "[(1, 0), (2, 1), (3, 1)]"
proof (unfold_locales, goal_cases)
  case (4 A B)
  then show ?case unfolding sample_idom by auto
qed (simp_all add: wf_hoist_loop sample_reach sample_wf_loop sample_wf_ids sample_wf_ssa)

text \<open>
  C10: on an innermost loop (every block of it belongs to no inner loop) of a well-formed function
  whose blocks are all reachable, the pass returns, and the instructions it moves are exactly the
  loop-invariant ones, each moved once and after the loop instructions it reads. Afterwards the
  preheader holds them in that order before its terminator, and they are gone from the loop.
\<close>

theorem licm_exact:
  assumes "bitvector BV" and "wf_cfg F" and "wf_ids F" and "wf_ssa F"
    and "\<And>b. b \<in> set (fn_blocks F) \<Longrightarrow> reach F b" and "wf_loop F L" and "lp_preheader L = Some ph"
    and "fn_insns F ph \<noteq> []" and "\<And>b. b \<in> set (lp_blocks L) \<Longrightarrow> loopFor b = Some (lp_id L)"
  shows "\<exists>ks. runOnLoop BV loopFor bname L F = Some (Inr (ks \<noteq> [], hoisted F ph ks)) \<and>
    set ks = {k. linv F L k} \<and> distinct ks \<and> deps_before F L ks"
  by (rule licm_result [OF assms])

theorem licm_exact_witness:
  "\<exists>ks. runOnLoop bl_ops (\<lambda>b. if b = 1 \<or> b = 2 then Some 7 else None) (\<lambda>_. ''bb'') sample_loop hoist_loop =
      Some (Inr (True, hoisted hoist_loop 0 ks)) \<and> {4, 5} \<subseteq> set ks"
proof -
  let ?lf = "\<lambda>b. if b = 1 \<or> b = 2 then Some 7 else (None :: nat option)"
  have own: "?lf b = Some (lp_id sample_loop)" if "b \<in> set (lp_blocks sample_loop)" for b
    using that by (auto simp: sample_loop_def)
  have "\<exists>ks. runOnLoop bl_ops ?lf (\<lambda>_. ''bb'') sample_loop hoist_loop = Some (Inr (ks \<noteq> [], hoisted hoist_loop 0 ks)) \<and>
      set ks = {k. linv hoist_loop sample_loop k} \<and> distinct ks \<and> deps_before hoist_loop sample_loop ks"
    by (rule licm_exact [OF bl.bitvector_axioms wf_hoist_loop sample_wf_ids sample_wf_ssa sample_reach sample_wf_loop])
      (use own in \<open>simp_all add: sample_loop_def sample_defs\<close>)
  then show ?thesis using sample_invariant by (elim ex_forward) auto
qed

text \<open>
  C14: as soon as one block of the loop belongs to an inner loop, the pass gives up on the whole
  loop: it moves nothing out of it.
\<close>

theorem licm_gives_up_on_nests:
  assumes "bitvector BV" and "wf_cfg F" and "\<And>b. b \<in> set (fn_blocks F) \<Longrightarrow> reach F b" and "wf_loop F L"
    and "b \<in> set (lp_blocks L)" and "loopFor b \<noteq> Some (lp_id L)"
  shows "runOnLoop BV loopFor bname L F = Some (Inr (False, F))"
proof (cases "lp_preheader L")
  case None
  then show ?thesis by (simp add: runOnLoop_def)
next
  case (Some ph)
  obtain idom where lt: "loop_tree F L idom" and run: "runOnLoop BV loopFor bname L F =
      (case licm_walk (getDominanceTree idom L) (\<lambda>b. loopFor b = Some (lp_id L)) (scan_block F L)
          [dt_root (getDominanceTree idom L)] [] of
         None \<Rightarrow> None
       | Some None \<Rightarrow> Some (Inr (False, F))
       | Some (Some invStmts) \<Rightarrow>
           Some (bind_res (fold_res (move_before ph) invStmts F) (\<lambda>F'. Inr (invStmts \<noteq> [], F'))))"
    using loop_idom [OF assms(1-4) Some] .
  have n: "\<not> (\<forall>b\<in>set (lp_blocks L). loopFor b = Some (lp_id L))"
    using assms(5,6) by blast
  have "licm_walk (getDominanceTree idom L) (\<lambda>b. loopFor b = Some (lp_id L)) (scan_block F L)
      [dt_root (getDominanceTree idom L)] [] = Some None"
    using loop_tree.walk_from_root [OF lt, of "\<lambda>b. loopFor b = Some (lp_id L)" "scan_block F L" "[]"] n
    by (elim disjE conjE) simp_all
  then show ?thesis using run by simp
qed

theorem licm_gives_up_on_nests_witness:
  "runOnLoop bl_ops (\<lambda>b. if b = 1 then Some 7 else Some 8) (\<lambda>_. ''bb'') sample_loop hoist_loop =
     Some (Inr (False, hoist_loop)) \<and> linv hoist_loop sample_loop 4"
proof
  show "runOnLoop bl_ops (\<lambda>b. if b = 1 then Some 7 else Some 8) (\<lambda>_. ''bb'') sample_loop hoist_loop =
      Some (Inr (False, hoist_loop))"
    by (rule licm_gives_up_on_nests [OF bl.bitvector_axioms wf_hoist_loop sample_reach sample_wf_loop, of 2])
      (simp_all add: sample_loop_def)
qed (rule sample_invariant)

text \<open>
  C13: the motion neither loses nor copies an instruction: afterwards every instruction of the
  function is in exactly one block again, the moved ones in the preheader and the others where
  they were, and the blocks and edges are the same.
\<close>

theorem licm_keeps_instructions:
  assumes "bitvector BV" and "wf_cfg F" and "wf_ids F" and "wf_ssa F"
    and "\<And>b. b \<in> set (fn_blocks F) \<Longrightarrow> reach F b" and "wf_loop F L" and "lp_preheader L = Some ph"
    and "fn_insns F ph \<noteq> []" and "\<And>b. b \<in> set (lp_blocks L) \<Longrightarrow> loopFor b = Some (lp_id L)"
  shows "\<exists>m F'. runOnLoop BV loopFor bname L F = Some (Inr (m, F')) \<and> wf_ids F' \<and>
    fn_blocks F' = fn_blocks F \<and> fn_succs F' = fn_succs F \<and>
    (\<forall>i b. i \<in> set (fn_insns F' b) \<longleftrightarrow>
       (\<exists>a. i \<in> set (fn_insns F a) \<and> b = (if linv F L (in_id i) then ph else a)))"
proof -
  have "\<exists>ks. runOnLoop BV loopFor bname L F = Some (Inr (ks \<noteq> [], hoisted F ph ks)) \<and>
      set ks = {k. linv F L k} \<and> distinct ks \<and> deps_before F L ks"
    by (rule licm_result [OF assms])
  then obtain ks where ks: "runOnLoop BV loopFor bname L F = Some (Inr (ks \<noteq> [], hoisted F ph ks))"
    "set ks = {k. linv F L k}" "distinct ks" by (elim exE conjE) (rule that)
  note src = linv_source [OF assms(3,6,7)]
  have k: "\<exists>b. b \<noteq> ph \<and> k \<in> in_id ` set (fn_insns F b)" if "k \<in> set ks" for k
    using src that ks(2) by simp
  have "wf_ids (hoisted F ph ks)" using hoisted_wf_ids [OF assms(3,8) ks(3)] k by blast
  moreover have "i \<in> set (fn_insns (hoisted F ph ks) b) \<longleftrightarrow>
      (\<exists>a. i \<in> set (fn_insns F a) \<and> b = (if linv F L (in_id i) then ph else a))" for i b
    using hoisted_insns [OF assms(3,8) k, of ks i b] ks(2) by simp
  ultimately show ?thesis
    using ks(1) by (intro exI [of _ "ks \<noteq> []"] exI [of _ "hoisted F ph ks"]) (simp add: hoisted_def)
qed

theorem licm_keeps_instructions_witness:
  "\<exists>m F'. runOnLoop bl_ops (\<lambda>b. Some 7) (\<lambda>_. ''bb'') sample_loop hoist_loop = Some (Inr (m, F')) \<and> wf_ids F' \<and>
     mk_insn 4 [VArg 0, VConst 32 7] \<in> set (fn_insns F' 0)"
proof -
  have "\<exists>m F'. runOnLoop bl_ops (\<lambda>b. Some 7) (\<lambda>_. ''bb'') sample_loop hoist_loop = Some (Inr (m, F')) \<and> wf_ids F' \<and>
      fn_blocks F' = fn_blocks hoist_loop \<and> fn_succs F' = fn_succs hoist_loop \<and>
      (\<forall>i b. i \<in> set (fn_insns F' b) \<longleftrightarrow>
         (\<exists>a. i \<in> set (fn_insns hoist_loop a) \<and> b = (if linv hoist_loop sample_loop (in_id i) then 0 else a)))"
    by (rule licm_keeps_instructions [OF bl.bitvector_axioms wf_hoist_loop sample_wf_ids sample_wf_ssa sample_reach
          sample_wf_loop]) (simp_all add: sample_loop_def sample_defs)
  moreover have "mk_insn 4 [VArg 0, VConst 32 7] \<in> set (fn_insns hoist_loop 2)"
    and "in_id (mk_insn 4 [VArg 0, VConst 32 7]) = 4" by (simp_all add: sample_defs)
  ultimately show ?thesis using sample_invariant(1) by (elim ex_forward) auto
qed

end
