(* ===== verification/DCE.thy ===== *)
theory DCE
  imports Engine IndexSets Sample
begin

section \<open>Dead code elimination\<close>

text \<open>
  \<open>asst3/LICM/DeadCodeElimination.cpp\<close>: the transfer function of \<open>DCEAnalysis\<close>, which
  marks the instructions that are strongly live, and the pass that erases the others. Terminators,
  debug intrinsics, landing pads and instructions with side effects are live in themselves; an
  operand is live when the instruction that reads it is.
\<close>

definition is_root :: "instr \<Rightarrow> bool" where
  "is_root i \<longleftrightarrow> in_terminator i \<or> in_dbginfo i \<or> in_landingpad i \<or> in_sideeffects i"

record 'bv dce_state =
  dc_def :: 'bv
  dc_use :: 'bv
  dc_nv :: "(block \<times> 'bv) list"
  dc_d2i :: "(ir_value \<times> nat) list"

definition dce_mark_root ::
  "'bv bitvec_ops \<Rightarrow> instr \<Rightarrow> 'bv dce_state \<Rightarrow> 'bv dce_state result" where
  "dce_mark_root BV insn s =
     (if is_root insn
      then (case map_of (dc_d2i s) (self insn) of
              Some valInd \<Rightarrow> bind_res (bv_set BV (dc_use s) valInd) (\<lambda>u. Inr (s\<lparr>dc_use := u\<rparr>))
            | None \<Rightarrow> Inr s)
      else Inr s)"

definition dce_phi_operand ::
  "'bv bitvec_ops \<Rightarrow> nat \<Rightarrow> ir_value \<times> block \<Rightarrow> 'bv dce_state \<Rightarrow> 'bv dce_state result" where
  "dce_phi_operand BV domainSize inc s =
     (let (val, valBlock) = inc
      in if is_instruction val
         then (let nv = (if map_of (dc_nv s) valBlock = None
                         then AList.update valBlock (bv_make BV domainSize False) (dc_nv s)
                         else dc_nv s);
                   (valInd, d2i) = map_index 0 (dc_d2i s) val
               in bind_res (bv_set BV (the (map_of nv valBlock)) valInd) (\<lambda>v.
                    Inr (s\<lparr>dc_nv := AList.update valBlock v nv, dc_d2i := d2i\<rparr>)))
         else Inr s)"

definition dce_operand ::
  "'bv bitvec_ops \<Rightarrow> ir_value \<Rightarrow> 'bv dce_state \<Rightarrow> 'bv dce_state result" where
  "dce_operand BV val s =
     (if is_instruction val
      then (let (valInd, d2i) = map_index 0 (dc_d2i s) val
            in bind_res (bv_set BV (dc_use s) valInd) (\<lambda>u.
                 Inr (s\<lparr>dc_use := u, dc_d2i := d2i\<rparr>)))
      else Inr s)"

definition dce_insn ::
  "'bv bitvec_ops \<Rightarrow> nat \<Rightarrow> instr \<Rightarrow> 'bv dce_state \<Rightarrow> 'bv dce_state result" where
  "dce_insn BV domainSize insn s =
     (case map_of (dc_d2i s) (self insn) of
        None \<Rightarrow> Inr s
      | Some valInd \<Rightarrow>
          bind_res (bv_get BV (dc_use s) valInd) (\<lambda>live.
            if \<not> live then Inr s
            else bind_res (case in_phi insn of
                Some incoming \<Rightarrow> fold_res (dce_phi_operand BV domainSize) incoming s
              | None \<Rightarrow> fold_res (dce_operand BV) (in_ops insn) s) (\<lambda>s.
              case map_of (dc_d2i s) (self insn) of
                Some i \<Rightarrow> bind_res (bv_set BV (dc_def s) i) (\<lambda>d. Inr (s\<lparr>dc_def := d\<rparr>))
              | None \<Rightarrow> Inr s)))"

definition dce_transferFn ::
  "'bv bitvec_ops \<Rightarrow> 'z ir_function_scheme \<Rightarrow> 'bv \<Rightarrow> ir_value list \<Rightarrow> (ir_value \<times> nat) list \<Rightarrow>
    block \<Rightarrow> 'bv transfer_output result" where
  "dce_transferFn BV F input domain domainToIndex blk =
     (let domainSize = length domainToIndex
      in bind_res (fold_res (dce_mark_root BV) (fn_insns F blk)
           \<lparr>dc_def = bv_make BV domainSize False, dc_use = input,
            dc_nv = [], dc_d2i = domainToIndex\<rparr>) (\<lambda>s.
         bind_res (fold_res (dce_insn BV domainSize) (rev (fn_insns F blk)) s) (\<lambda>s.
         Inr \<lparr>element = bv_or BV (bv_and BV (bv_flip BV (dc_def s)) input) (dc_use s),
              neighborVals = dc_nv s\<rparr>)))"

definition dceAnalysis ::
  "'bv bitvec_ops \<Rightarrow> 'z ir_function_scheme \<Rightarrow> (ir_value, 'bv) analysis" where
  "dceAnalysis BV F =
     \<lparr>an_direction = BACKWARD, an_meetup_op = UNION, an_transferFn = dce_transferFn BV F\<rparr>"

subsection \<open>The pass\<close>

definition dce_domain :: "'z ir_function_scheme \<Rightarrow> ir_value list" where
  "dce_domain F =
     fold (\<lambda>insn domain. if self insn \<in> set domain then domain else domain @ [self insn])
       (all_insns F) []"

definition dce_run ::
  "'bv bitvec_ops \<Rightarrow> 'z ir_function_scheme \<Rightarrow> (ir_value, 'bv) dataflow_result result option" where
  "dce_run BV F =
     (let domain = dce_domain F
      in run_both BV (dceAnalysis BV F) F domain
           (bv_make BV (length domain) False) (bv_make BV (length domain) False))"

text \<open>
  One instruction of the scan of a block, from the last to the first: the instructions to delete
  so far, the index map and \<open>modified\<close>.
\<close>

definition dce_select ::
  "'bv bitvec_ops \<Rightarrow> ir_value list \<Rightarrow> 'bv \<Rightarrow> instr \<Rightarrow> instr list \<times> (ir_value \<times> nat) list \<times> bool \<Rightarrow>
    (instr list \<times> (ir_value \<times> nat) list \<times> bool) result" where
  "dce_select BV domain SLV I st =
     (let (deleteSet, d2i, modified) = st
      in if is_root I then Inr st
         else if self I \<in> set domain
         then (let (valInd, d2i) = map_index 0 d2i (self I)
               in bind_res (bv_get BV SLV valInd) (\<lambda>live.
                    if live then Inr (deleteSet, d2i, modified)
                    else Inr (deleteSet @ [I], d2i, True)))
         else Inr st)"

definition use_empty :: "'z ir_function_scheme \<Rightarrow> instr \<Rightarrow> bool" where
  "use_empty F I \<longleftrightarrow> (\<forall>J\<in>set (all_insns F). self I \<notin> set (in_ops J))"

definition eraseFromParent :: "block \<Rightarrow> instr \<Rightarrow> 'z ir_function_scheme \<Rightarrow> 'z ir_function_scheme" where
  "eraseFromParent blk I F =
     F\<lparr>fn_insns := (fn_insns F)(blk := filter (\<lambda>J. self J \<noteq> self I) (fn_insns F blk))\<rparr>"

definition dce_delete :: "block \<Rightarrow> instr \<Rightarrow> 'z ir_function_scheme \<Rightarrow> 'z ir_function_scheme" where
  "dce_delete blk I F = (if \<not> use_empty F I then F else eraseFromParent blk I F)"

definition dce_block ::
  "'bv bitvec_ops \<Rightarrow> ir_value list \<Rightarrow> (ir_value, 'bv) dataflow_result \<Rightarrow> block \<Rightarrow>
    'z ir_function_scheme \<times> (ir_value \<times> nat) list \<times> bool \<Rightarrow>
    ('z ir_function_scheme \<times> (ir_value \<times> nat) list \<times> bool) result" where
  "dce_block BV domain output blk st =
     (let (F, d2i, modified) = st;
          SLV = res_in (df_result output blk)
      in bind_res (fold_res (dce_select BV domain SLV) (rev (fn_insns F blk)) ([], d2i, modified))
           (\<lambda>(deleteSet, d2i, modified). Inr (fold (dce_delete blk) deleteSet F, d2i, modified)))"

definition dce_runOnFunction ::
  "'bv bitvec_ops \<Rightarrow> 'z ir_function_scheme \<Rightarrow> ('z ir_function_scheme \<times> bool) result option" where
  "dce_runOnFunction BV F =
     map_option (\<lambda>r. bind_res r (\<lambda>output.
         bind_res (fold_res (dce_block BV (dce_domain F) output) (fn_po F)
             (F, df_domainToIndex output, False)) (\<lambda>(F', _, modified). Inr (F', modified))))
       (dce_run BV F)"

subsection \<open>Strong liveness\<close>

text \<open>
  The instructions a block needs, itself or in a block that control may reach from it: the roots,
  what a needed instruction reads, and what a needed phi node takes along the edge.
\<close>

inductive needed :: "'z ir_function_scheme \<Rightarrow> block \<Rightarrow> ir_value \<Rightarrow> bool" for F where
  needed_root: "i \<in> set (fn_insns F b) \<Longrightarrow> is_root i \<Longrightarrow> needed F b (self i)"
| needed_operand: "i \<in> set (fn_insns F b) \<Longrightarrow> in_phi i = None \<Longrightarrow> needed F b (self i) \<Longrightarrow>
    v \<in> set (in_ops i) \<Longrightarrow> is_instruction v \<Longrightarrow> needed F b v"
| needed_through: "s \<in> set (fn_succs F b) \<Longrightarrow> needed F s v \<Longrightarrow> needed F b v"
| needed_edge: "s \<in> set (fn_succs F b) \<Longrightarrow> i \<in> set (fn_insns F s) \<Longrightarrow> in_phi i = Some inc \<Longrightarrow>
    needed F s (self i) \<Longrightarrow> (v, b) \<in> set inc \<Longrightarrow> is_instruction v \<Longrightarrow> needed F b v"

text \<open>
  What LLVM guarantees of the instructions of a function: no instruction occurs twice, phi nodes
  come first in their block and their operands are their incoming values, and an operand that is
  an instruction is one of the function. A reachable block reads of itself only what comes
  before.
\<close>

definition wf_insns :: "'z ir_function_scheme \<Rightarrow> bool" where
  "wf_insns F \<longleftrightarrow>
     distinct (map in_id (all_insns F)) \<and>
     (\<forall>i\<in>set (all_insns F). \<forall>v\<in>set (in_ops i). is_instruction v \<longrightarrow> v \<in> self ` set (all_insns F)) \<and>
     (\<forall>i\<in>set (all_insns F). \<forall>inc. in_phi i = Some inc \<longrightarrow> in_ops i = map fst inc) \<and>
     (\<forall>b. reach F b \<longrightarrow> (\<forall>xs i ys. fn_insns F b = xs @ i # ys \<longrightarrow>
        (if in_phi i = None then set (in_ops i) \<inter> self ` set (i # ys) = {}
         else \<forall>j\<in>set xs. in_phi j \<noteq> None)))"

subsection \<open>The walk over a block\<close>

definition instr_ops :: "instr \<Rightarrow> ir_value set" where
  "instr_ops i = {v \<in> set (in_ops i). is_instruction v}"

text \<open>What the backward walk adds to the use set, and what its phi nodes take from \<open>p\<close>.\<close>

fun marked :: "instr list \<Rightarrow> ir_value set \<Rightarrow> ir_value set" where
  "marked [] U = U"
| "marked (i # is) U =
     (let W = marked is U in if self i \<in> W \<and> in_phi i = None then W \<union> instr_ops i else W)"

definition roots :: "instr list \<Rightarrow> ir_value set" where
  "roots is = self ` {i \<in> set is. is_root i}"

definition phi_needs :: "instr list \<Rightarrow> ir_value set \<Rightarrow> block \<Rightarrow> ir_value set" where
  "phi_needs is W p =
     {v. is_instruction v \<and> (\<exists>i\<in>set is. \<exists>inc. in_phi i = Some inc \<and> self i \<in> W \<and> (v, p) \<in> set inc)}"

lemma marked_append: "marked (xs @ ys) U = marked xs (marked ys U)"
  by (induction xs) (simp_all add: Let_def)

lemma marked_phis: "\<forall>i\<in>set xs. in_phi i \<noteq> None \<Longrightarrow> marked xs U = U"
  by (induction xs) (auto simp: Let_def)

lemma marked_mono: "U \<subseteq> V \<Longrightarrow> marked is U \<subseteq> marked is V"
  by (induction "is") (auto simp: Let_def)

lemma marked_incr: "U \<subseteq> marked is U"
  by (induction "is") (auto simp: Let_def)

lemma marked_bounded: "(\<And>i. i \<in> set is \<Longrightarrow> instr_ops i \<subseteq> A) \<Longrightarrow> U \<subseteq> A \<Longrightarrow> marked is U \<subseteq> A"
  by (induction "is") (auto simp: Let_def)

text \<open>The walk adds nothing beyond a set closed under the operands of its members.\<close>

lemma marked_least:
  assumes "U \<subseteq> W" and "\<And>i. i \<in> set is \<Longrightarrow> in_phi i = None \<Longrightarrow> self i \<in> W \<Longrightarrow> instr_ops i \<subseteq> W"
  shows "marked is U \<subseteq> W"
  using assms(2) by (induction "is") (use assms(1) in \<open>auto simp: Let_def\<close>)

text \<open>One walk is enough: where operands come first its result is closed.\<close>

lemma marked_closed:
  assumes "\<And>xs i ys. is = xs @ i # ys \<Longrightarrow> in_phi i = None \<Longrightarrow> set (in_ops i) \<inter> self ` set (i # ys) = {}"
    and "j \<in> set is" and "in_phi j = None" and "self j \<in> marked is U"
  shows "instr_ops j \<subseteq> marked is U"
  using assms
proof (induction "is" arbitrary: j)
  case (Cons i "is")
  have ord: "set (in_ops k) \<inter> self ` set (k # ys) = {}" if "is = xs @ k # ys" "in_phi k = None" for xs k ys
    using Cons.prems(1) [of "i # xs" k ys] that by simp
  have i: "in_phi i = None \<Longrightarrow> set (in_ops i) \<inter> self ` set (i # is) = {}"
    using Cons.prems(1) [of "[]" i "is"] by simp
  have self: "self k \<in> marked is U" if "self k \<in> marked (i # is) U" "k \<in> set (i # is)" for k
    using that i by (auto simp: Let_def instr_ops_def split: if_splits)
  show ?case
  proof (cases "j \<in> set is")
    case True
    have "instr_ops j \<subseteq> marked is U"
      using True Cons.prems(2-4) self by (intro Cons.IH) (use ord in \<open>simp_all del: list.set\<close>)
    then show ?thesis by (auto simp: Let_def)
  next
    case False
    then have "j = i" using Cons.prems(2) by simp
    then show ?thesis
      using self [of i] Cons.prems(3,4) by (auto simp: Let_def)
  qed
qed simp

lemma phi_needs_mono: "W \<subseteq> W' \<Longrightarrow> phi_needs is W p \<subseteq> phi_needs is W' p"
  by (auto simp: phi_needs_def)

definition phi_sources :: "instr list \<Rightarrow> ir_value set \<Rightarrow> block set" where
  "phi_sources is W = {p. phi_needs is W p \<noteq> {}}"

lemma phi_sources_mono: "W \<subseteq> W' \<Longrightarrow> phi_sources is W \<subseteq> phi_sources is W'"
  using phi_needs_mono [of W W' "is"] unfolding phi_sources_def by blast

lemma phi_sources_finite: "finite (phi_sources is W)"
proof (rule finite_subset)
  show "phi_sources is W \<subseteq> snd ` (\<Union>i\<in>set is. \<Union>inc\<in>set_option (in_phi i). set inc)"
  proof
    fix p
    assume "p \<in> phi_sources is W"
    then obtain v i inc where "i \<in> set is" "in_phi i = Some inc" "(v, p) \<in> set inc"
      by (auto simp: phi_sources_def phi_needs_def)
    then have "(v, p) \<in> (\<Union>i\<in>set is. \<Union>inc\<in>set_option (in_phi i). set inc)" by force
    then show "p \<in> snd ` (\<Union>i\<in>set is. \<Union>inc\<in>set_option (in_phi i). set inc)" by (rule rev_image_eqI) simp
  qed
qed simp

subsection \<open>The domain\<close>

lemma dce_domain_fold:
  "distinct (map self is) \<Longrightarrow> self ` set is \<inter> set ds = {} \<Longrightarrow>
   fold (\<lambda>insn domain. if self insn \<in> set domain then domain else domain @ [self insn]) is ds =
     ds @ map self is"
  by (induction "is" arbitrary: ds) auto

lemma wf_insns_distinct: "wf_insns F \<Longrightarrow> distinct (map self (all_insns F))"
  by (auto simp: wf_insns_def distinct_map self_def inj_on_def)

lemma dce_domain_eq: "wf_insns F \<Longrightarrow> dce_domain F = map self (all_insns F)"
  by (simp add: dce_domain_def dce_domain_fold wf_insns_distinct)

lemma dce_domain_distinct: "wf_insns F \<Longrightarrow> distinct (dce_domain F)"
  by (simp add: dce_domain_eq wf_insns_distinct)

end
