(* ===== verification/DCECorrect.thy ===== *)
theory DCECorrect
  imports DCE
begin

section \<open>What dead code elimination marks and erases\<close>

text \<open>
  The analysis honours the engine's contract, so its run ends at the least solution, which is
  strong liveness; the pass then erases instructions nothing reads.
\<close>

locale dce_setup = domain_bits BV "dce_domain F"
  for BV :: "'bv bitvec_ops" and F :: "'z ir_function_scheme" +
  assumes wf: "wf_cfg F" and insns: "wf_insns F"
begin

abbreviation "D \<equiv> dce_domain F"

lemma self_in_domain: "i \<in> set (all_insns F) \<Longrightarrow> self i \<in> set D"
  by (simp add: dce_domain_eq [OF insns])

lemma instr_ops_domain: "i \<in> set (all_insns F) \<Longrightarrow> instr_ops i \<subseteq> set D"
  using insns by (auto simp: instr_ops_def wf_insns_def dce_domain_eq [OF insns])

lemma incoming_in_domain:
  assumes "i \<in> set (all_insns F)" and "in_phi i = Some inc" and "(v, p) \<in> set inc" and "is_instruction v"
  shows "v \<in> set D"
proof -
  have "in_ops i = map fst inc" using insns assms(1,2) by (simp add: wf_insns_def)
  then have "v \<in> set (in_ops i)" using assms(3) by force
  then show ?thesis using instr_ops_domain [OF assms(1)] assms(4) by (auto simp: instr_ops_def)
qed

lemma block_all_insns: "b \<in> set (fn_blocks F) \<Longrightarrow> set (fn_insns F b) \<subseteq> set (all_insns F)"
  by (auto simp: all_insns_def)

lemma roots_bounded: "set is \<subseteq> set (all_insns F) \<Longrightarrow> roots is \<subseteq> set D"
  using self_in_domain by (auto simp: roots_def)

lemma marked_in_domain: "set is \<subseteq> set (all_insns F) \<Longrightarrow> U \<subseteq> set D \<Longrightarrow> marked is U \<subseteq> set D"
  using instr_ops_domain by (intro marked_bounded) auto

lemma phi_needs_in_domain: "set is \<subseteq> set (all_insns F) \<Longrightarrow> phi_needs is W p \<subseteq> set D"
  using incoming_in_domain by (auto simp: phi_needs_def)

subsection \<open>The transfer function\<close>

lemma roots_ok:
  assumes "dc_d2i s = d2i" and "holds (dc_use s) U" and "set is \<subseteq> set (all_insns F)"
  shows "\<exists>u. fold_res (dce_mark_root BV) is s = Inr (s\<lparr>dc_use := u\<rparr>) \<and> holds u (U \<union> roots is)"
  using assms
proof (induction "is" arbitrary: s U)
  case Nil
  then show ?case by (intro exI [of _ "dc_use s"]) (simp add: roots_def)
next
  case (Cons i "is")
  show ?case
  proof (cases "is_root i")
    case False
    then have "roots (i # is) = roots is" by (auto simp: roots_def)
    then show ?thesis using Cons False by (simp add: dce_mark_root_def)
  next
    case True
    have i: "self i \<in> set D" using Cons.prems(3) self_in_domain by simp
    obtain u where u: "bv_set BV (dc_use s) (ix (self i)) = Inr u" "holds u (insert (self i) U)"
      using holds_set [OF Cons.prems(2) i] by blast
    have "dce_mark_root BV i s = Inr (s\<lparr>dc_use := u\<rparr>)"
      using True i u(1) Cons.prems(1) by (simp add: dce_mark_root_def d2i_find)
    moreover have "insert (self i) U \<union> roots is = U \<union> roots (i # is)"
      using True by (auto simp: roots_def)
    ultimately show ?thesis
      using Cons.IH [of "s\<lparr>dc_use := u\<rparr>" "insert (self i) U"] u(2) Cons.prems by auto
  qed
qed

lemma operands_ok:
  assumes "dc_d2i s = d2i" and "holds (dc_use s) U" and "{v \<in> set ops. is_instruction v} \<subseteq> set D"
  shows "\<exists>u. fold_res (dce_operand BV) ops s = Inr (s\<lparr>dc_use := u\<rparr>) \<and>
    holds u (U \<union> {v \<in> set ops. is_instruction v})"
  using assms
proof (induction ops arbitrary: s U)
  case Nil
  then show ?case by (intro exI [of _ "dc_use s"]) simp
next
  case (Cons v ops)
  show ?case
  proof (cases "is_instruction v")
    case False
    then have "{w \<in> set (v # ops). is_instruction w} = {w \<in> set ops. is_instruction w}" by auto
    then show ?thesis using Cons False by (simp add: dce_operand_def)
  next
    case True
    then have v: "v \<in> set D" using Cons.prems(3) by auto
    obtain u where u: "bv_set BV (dc_use s) (ix v) = Inr u" "holds u (insert v U)"
      using holds_set [OF Cons.prems(2) v] by blast
    have "dce_operand BV v s = Inr (s\<lparr>dc_use := u\<rparr>)"
      using True u(1) Cons.prems(1) by (simp add: dce_operand_def d2i_index v)
    moreover have "insert v U \<union> {w \<in> set ops. is_instruction w} = U \<union> {w \<in> set (v # ops). is_instruction w}"
      using True by auto
    ultimately show ?thesis
      using Cons.IH [of "s\<lparr>dc_use := u\<rparr>" "insert v U"] u(2) Cons.prems by auto
  qed
qed

lemma nonphi_ok:
  assumes "dc_d2i s = d2i" and "holds (dc_use s) U" and "U \<subseteq> set D" and "bv_size BV (dc_def s) = n"
    and i: "i \<in> set (all_insns F)" "in_phi i = None"
  shows "\<exists>u d. dce_insn BV n i s = Inr (s\<lparr>dc_use := u, dc_def := d\<rparr>) \<and>
    holds u (if self i \<in> U then U \<union> instr_ops i else U) \<and> bv_size BV d = n"
proof -
  have self: "self i \<in> set D" by (rule self_in_domain [OF i(1)])
  have get: "bv_get BV (dc_use s) (ix (self i)) = Inr (self i \<in> U)"
    using holds_get assms(2,3) self by blast
  obtain u where u: "fold_res (dce_operand BV) (in_ops i) s = Inr (s\<lparr>dc_use := u\<rparr>)" "holds u (U \<union> instr_ops i)"
    using operands_ok [OF assms(1,2)] instr_ops_domain [OF i(1)] unfolding instr_ops_def by blast
  show ?thesis
  proof (cases "self i \<in> U")
    case True
    then have "dce_insn BV n i s = Inr (s\<lparr>dc_use := u, dc_def := bv_put BV (dc_def s) (ix (self i)) True\<rparr>)"
      using assms(1,4) self get u(1) i(2) ix_bound [OF self]
      by (simp add: dce_insn_def d2i_find bv_set_def)
    then show ?thesis
      using True u(2) assms(4) ix_bound [OF self]
      by (intro exI [of _ u] exI [of _ "bv_put BV (dc_def s) (ix (self i)) True"]) (simp add: bits_simps)
  next
    case False
    then show ?thesis
      using assms(1,2,4) self get
      by (intro exI [of _ "dc_use s"] exI [of _ "dc_def s"]) (simp add: dce_insn_def d2i_find)
  qed
qed

lemma nonphis_ok:
  assumes "dc_d2i s = d2i" and "holds (dc_use s) U" and "U \<subseteq> set D" and "bv_size BV (dc_def s) = n"
    and "set is \<subseteq> set (all_insns F)" and "\<forall>i\<in>set is. in_phi i = None"
  shows "\<exists>u d. fold_res (dce_insn BV n) (rev is) s = Inr (s\<lparr>dc_use := u, dc_def := d\<rparr>) \<and>
    holds u (marked is U) \<and> bv_size BV d = n"
  using assms(5,6)
proof (induction "is")
  case Nil
  then show ?case using assms(2,4) by (intro exI [of _ "dc_use s"] exI [of _ "dc_def s"]) simp
next
  case (Cons i "is")
  obtain u d where ud: "fold_res (dce_insn BV n) (rev is) s = Inr (s\<lparr>dc_use := u, dc_def := d\<rparr>)"
      "holds u (marked is U)" "bv_size BV d = n"
    using Cons by auto
  have "\<exists>u' d'. dce_insn BV n i (s\<lparr>dc_use := u, dc_def := d\<rparr>) =
      Inr (s\<lparr>dc_use := u, dc_def := d\<rparr>\<lparr>dc_use := u', dc_def := d'\<rparr>) \<and>
    holds u' (if self i \<in> marked is U then marked is U \<union> instr_ops i else marked is U) \<and> bv_size BV d' = n"
    using Cons.prems ud assms(1,3) marked_in_domain [of "is" U] by (intro nonphi_ok) auto
  then show ?case
    using ud(1) Cons.prems(2) by (auto simp: fold_res_append Let_def split: if_splits)
qed

text \<open>The vectors for the neighbours, one for each block a live phi node takes a value from.\<close>

definition nv_exact :: "(block \<times> 'bv) list \<Rightarrow> (block \<Rightarrow> ir_value set) \<Rightarrow> bool" where
  "nv_exact nv f \<longleftrightarrow> nv_holds nv f \<and> distinct (map fst nv) \<and> fst ` set nv = {p. f p \<noteq> {}}"

lemma nv_exact_length: "nv_exact nv f \<Longrightarrow> length nv = card {p. f p \<noteq> {}}"
  unfolding nv_exact_def by (metis distinct_card length_map list.set_map)

lemma phi_operand_ok:
  assumes "dc_d2i s = d2i" and "nv_exact (dc_nv s) f" and "is_instruction v \<Longrightarrow> v \<in> set D"
  shows "\<exists>nv. dce_phi_operand BV n (v, p) s = Inr (s\<lparr>dc_nv := nv\<rparr>) \<and>
    nv_exact nv (\<lambda>q. f q \<union> (if is_instruction v \<and> p = q then {v} else {}))"
proof (cases "is_instruction v")
  case False
  then show ?thesis
    using assms(2) by (intro exI [of _ "dc_nv s"]) (simp add: dce_phi_operand_def)
next
  case True
  note v = assms(3) [OF True]
  define nv where "nv = (if map_of (dc_nv s) p = None
    then AList.update p (bv_make BV n False) (dc_nv s) else dc_nv s)"
  have nv: "nv_holds nv f" "\<exists>w. map_of nv p = Some w \<and> holds w (f p)"
    using nv_holds_ensure [of "dc_nv s" f p] assms(2) unfolding nv_def nv_exact_def by simp_all
  then obtain w u where w: "map_of nv p = Some w" and
    u: "bv_set BV w (ix v) = Inr u" "holds u (insert v (f p))"
    using holds_set [OF _ v, of _ "f p"] by (elim exE conjE) blast
  have "dce_phi_operand BV n (v, p) s = Inr (s\<lparr>dc_nv := AList.update p u nv\<rparr>)"
    using True v u(1) w assms(1) by (simp add: dce_phi_operand_def d2i_index nv_def Let_def)
  moreover have "nv_exact (AList.update p u nv) (f(p := insert v (f p)))"
    unfolding nv_exact_def
  proof (intro conjI)
    show "nv_holds (AList.update p u nv) (f(p := insert v (f p)))"
      by (rule nv_holds_update [OF nv(1) u(2)])
    show "distinct (map fst (AList.update p u nv))"
      using assms(2) unfolding nv_def nv_exact_def by (simp add: distinct_update)
    have "fst ` set (AList.update p u nv) = insert p {q. f q \<noteq> {}}"
      using assms(2) unfolding nv_def nv_exact_def by (simp add: dom_update)
    then show "fst ` set (AList.update p u nv) = {q. (f(p := insert v (f p))) q \<noteq> {}}"
      by auto
  qed
  moreover have "f(p := insert v (f p)) = (\<lambda>q. f q \<union> (if is_instruction v \<and> p = q then {v} else {}))"
    using True by (simp add: fun_eq_iff)
  ultimately show ?thesis by (intro exI [of _ "AList.update p u nv"]) simp
qed

lemma phi_operands_ok:
  assumes "dc_d2i s = d2i" and "nv_exact (dc_nv s) f"
    and "\<And>v p. (v, p) \<in> set inc \<Longrightarrow> is_instruction v \<Longrightarrow> v \<in> set D"
  shows "\<exists>nv. fold_res (dce_phi_operand BV n) inc s = Inr (s\<lparr>dc_nv := nv\<rparr>) \<and>
    nv_exact nv (\<lambda>p. f p \<union> {v. is_instruction v \<and> (v, p) \<in> set inc})"
  using assms
proof (induction inc arbitrary: s f)
  case Nil
  then show ?case by (intro exI [of _ "dc_nv s"]) simp
next
  case (Cons vp inc)
  obtain v p where vp: "vp = (v, p)" by (cases vp)
  let ?f = "\<lambda>q. f q \<union> (if is_instruction v \<and> p = q then {v} else {})"
  obtain nv where nv: "dce_phi_operand BV n vp s = Inr (s\<lparr>dc_nv := nv\<rparr>)" "nv_exact nv ?f"
    using phi_operand_ok [OF Cons.prems(1,2), of v p] Cons.prems(3) [of v p] vp by auto
  have "\<exists>nv'. fold_res (dce_phi_operand BV n) inc (s\<lparr>dc_nv := nv\<rparr>) = Inr (s\<lparr>dc_nv := nv\<rparr>\<lparr>dc_nv := nv'\<rparr>) \<and>
      nv_exact nv' (\<lambda>q. ?f q \<union> {v. is_instruction v \<and> (v, q) \<in> set inc})"
  proof (rule Cons.IH)
    show "v \<in> set D" if "(v, p) \<in> set inc" "is_instruction v" for v p
      using Cons.prems(3) [of v p] that by simp
  qed (use Cons.prems(1) nv(2) in simp_all)
  moreover have "(\<lambda>q. ?f q \<union> {v. is_instruction v \<and> (v, q) \<in> set inc}) =
      (\<lambda>q. f q \<union> {w. is_instruction w \<and> (w, q) \<in> set (vp # inc)})"
    using vp by (auto simp: fun_eq_iff)
  ultimately show ?case using nv(1) by (simp del: list.set)
qed

lemma phi_needs_Cons:
  "in_phi i = Some inc \<Longrightarrow> phi_needs (i # is) W p =
     phi_needs is W p \<union> (if self i \<in> W then {v. is_instruction v \<and> (v, p) \<in> set inc} else {})"
  by (auto simp: phi_needs_def)

lemma phi_ok:
  assumes "dc_d2i s = d2i" and "holds (dc_use s) U" and "U \<subseteq> set D" and "bv_size BV (dc_def s) = n"
    and "nv_exact (dc_nv s) f" and i: "i \<in> set (all_insns F)" "in_phi i = Some inc"
  shows "\<exists>nv d. dce_insn BV n i s = Inr (s\<lparr>dc_nv := nv, dc_def := d\<rparr>) \<and>
    nv_exact nv (\<lambda>p. f p \<union> (if self i \<in> U then {v. is_instruction v \<and> (v, p) \<in> set inc} else {})) \<and>
    bv_size BV d = n"
proof -
  have self: "self i \<in> set D" by (rule self_in_domain [OF i(1)])
  have get: "bv_get BV (dc_use s) (ix (self i)) = Inr (self i \<in> U)"
    using holds_get assms(2,3) self by blast
  show ?thesis
  proof (cases "self i \<in> U")
    case True
    obtain nv where nv: "fold_res (dce_phi_operand BV n) inc s = Inr (s\<lparr>dc_nv := nv\<rparr>)"
        "nv_exact nv (\<lambda>p. f p \<union> {v. is_instruction v \<and> (v, p) \<in> set inc})"
      using phi_operands_ok [OF assms(1,5), of inc] incoming_in_domain [OF i] by blast
    let ?d = "bv_put BV (dc_def s) (ix (self i)) True"
    have "dce_insn BV n i s = Inr (s\<lparr>dc_nv := nv, dc_def := ?d\<rparr>)"
      using True assms(1,4) self get nv(1) i(2) ix_bound [OF self]
      by (simp add: dce_insn_def d2i_find bv_set_def)
    then show ?thesis
      using True nv(2) assms(4) ix_bound [OF self]
      by (intro exI [of _ nv] exI [of _ ?d]) (simp add: bits_simps)
  next
    case False
    then show ?thesis
      using assms(1,4,5) self get
      by (intro exI [of _ "dc_nv s"] exI [of _ "dc_def s"]) (simp add: dce_insn_def d2i_find)
  qed
qed

lemma phis_ok:
  assumes "dc_d2i s = d2i" and "holds (dc_use s) U" and "U \<subseteq> set D" and "bv_size BV (dc_def s) = n"
    and "dc_nv s = []" and "set is \<subseteq> set (all_insns F)" and "\<forall>i\<in>set is. in_phi i \<noteq> None"
  shows "\<exists>nv d. fold_res (dce_insn BV n) (rev is) s = Inr (s\<lparr>dc_nv := nv, dc_def := d\<rparr>) \<and>
    nv_exact nv (phi_needs is U) \<and> bv_size BV d = n"
  using assms(6,7)
proof (induction "is")
  case Nil
  have "nv_exact [] (phi_needs [] U)"
    by (simp add: nv_exact_def phi_needs_def nv_holds_def)
  then show ?case
    using assms(4,5) by (intro exI [of _ "[]"] exI [of _ "dc_def s"]) simp
next
  case (Cons i "is")
  obtain nv d where IH: "fold_res (dce_insn BV n) (rev is) s = Inr (s\<lparr>dc_nv := nv, dc_def := d\<rparr>)"
      "nv_exact nv (phi_needs is U)" "bv_size BV d = n"
    using Cons by auto
  obtain inc where inc: "in_phi i = Some inc" using Cons.prems(2) by auto
  have "\<exists>nv' d'. dce_insn BV n i (s\<lparr>dc_nv := nv, dc_def := d\<rparr>) =
      Inr (s\<lparr>dc_nv := nv, dc_def := d\<rparr>\<lparr>dc_nv := nv', dc_def := d'\<rparr>) \<and>
    nv_exact nv' (\<lambda>p. phi_needs is U p \<union>
      (if self i \<in> U then {v. is_instruction v \<and> (v, p) \<in> set inc} else {})) \<and> bv_size BV d' = n"
    using assms(1-3) IH Cons.prems(1) inc by (intro phi_ok) simp_all
  moreover have "(\<lambda>p. phi_needs is U p \<union>
      (if self i \<in> U then {v. is_instruction v \<and> (v, p) \<in> set inc} else {})) = phi_needs (i # is) U"
    by (simp add: phi_needs_Cons [OF inc] fun_eq_iff)
  ultimately show ?case
    using IH(1) by (auto simp: fold_res_append)
qed

lemma phis_first:
  assumes "reach F b"
  shows "\<exists>ps qs. fn_insns F b = ps @ qs \<and> (\<forall>i\<in>set ps. in_phi i \<noteq> None) \<and> (\<forall>i\<in>set qs. in_phi i = None)"
proof (intro exI conjI ballI)
  let ?q = "\<lambda>i. in_phi i \<noteq> None"
  show "fn_insns F b = takeWhile ?q (fn_insns F b) @ dropWhile ?q (fn_insns F b)" by simp
  show "in_phi i \<noteq> None" if "i \<in> set (takeWhile ?q (fn_insns F b))" for i
    using set_takeWhileD [OF that] by simp
  show "in_phi i = None" if i: "i \<in> set (dropWhile ?q (fn_insns F b))" for i
  proof (rule ccontr)
    assume phi: "in_phi i \<noteq> None"
    obtain h t where ht: "dropWhile ?q (fn_insns F b) = h # t"
      using i by (metis list.set_cases)
    have h: "in_phi h = None" by (metis (mono_tags, lifting) hd_dropWhile ht list.distinct(1) list.sel(1))
    then have "i \<in> set t" using i phi ht by auto
    then obtain xs ys where "t = xs @ i # ys" by (auto dest: split_list)
    then have "fn_insns F b = (takeWhile ?q (fn_insns F b) @ h # xs) @ i # ys"
      using takeWhile_dropWhile_id [of ?q "fn_insns F b"] ht by (metis append.assoc append_Cons)
    then have "\<forall>j\<in>set (takeWhile ?q (fn_insns F b) @ h # xs). in_phi j \<noteq> None"
      using insns assms phi unfolding wf_insns_def by meson
    then show False using h by simp
  qed
qed

abbreviation "insns_of \<equiv> fn_insns F"

definition final :: "block \<Rightarrow> ir_value set \<Rightarrow> ir_value set" where
  "final b X = marked (insns_of b) (X \<union> roots (insns_of b))"

lemma transferFn_ok:
  assumes b: "reach F b" and X: "holds v X" "X \<subseteq> set D"
  shows "\<exists>out. dce_transferFn BV F v D d2i b = Inr out \<and> holds (element out) (final b X) \<and>
    nv_exact (neighborVals out) (phi_needs (insns_of b) (final b X))"
proof -
  let ?is = "insns_of b"
  obtain ps qs where sp: "?is = ps @ qs" "\<forall>i\<in>set ps. in_phi i \<noteq> None" "\<forall>i\<in>set qs. in_phi i = None"
    using phis_first [OF b] by blast
  have all: "set ?is \<subseteq> set (all_insns F)" using block_all_insns reach_in_blocks [OF b wf] .
  let ?s0 = "\<lparr>dc_def = bv_make BV n False, dc_use = v, dc_nv = [], dc_d2i = d2i\<rparr>"
  let ?U = "X \<union> roots ?is"
  have U: "?U \<subseteq> set D" using X(2) roots_bounded [OF all] by simp
  obtain u0 where u0: "fold_res (dce_mark_root BV) ?is ?s0 = Inr (?s0\<lparr>dc_use := u0\<rparr>)" "holds u0 ?U"
    using roots_ok [of ?s0 X ?is] X(1) all by auto
  obtain u d where ud: "fold_res (dce_insn BV n) (rev qs) (?s0\<lparr>dc_use := u0\<rparr>) =
      Inr (?s0\<lparr>dc_use := u, dc_def := d\<rparr>)" "holds u (marked qs ?U)" "bv_size BV d = n"
    using nonphis_ok [of "?s0\<lparr>dc_use := u0\<rparr>" ?U qs] u0(2) U all sp by (auto simp: bits_simps)
  have fin: "final b X = marked qs ?U"
    using marked_phis [OF sp(2)] by (simp add: final_def sp(1) marked_append)
  have W: "final b X \<subseteq> set D" unfolding final_def using U all by (intro marked_in_domain)
  obtain nv d' where nv: "fold_res (dce_insn BV n) (rev ps) (?s0\<lparr>dc_use := u, dc_def := d\<rparr>) =
      Inr (?s0\<lparr>dc_use := u, dc_def := d', dc_nv := nv\<rparr>)" "nv_exact nv (phi_needs ps (final b X))" "bv_size BV d' = n"
    using phis_ok [of "?s0\<lparr>dc_use := u, dc_def := d\<rparr>" "final b X" ps] ud W all sp fin by auto
  have "phi_needs ps (final b X) = phi_needs ?is (final b X)"
    using sp by (auto simp: phi_needs_def fun_eq_iff)
  moreover have "ix ` X \<subseteq> ix ` final b X"
    using marked_incr [of ?U ?is] unfolding final_def by blast
  moreover have "fold_res (dce_insn BV n) (rev ?is) (?s0\<lparr>dc_use := u0\<rparr>) =
      Inr (?s0\<lparr>dc_use := u, dc_def := d', dc_nv := nv\<rparr>)"
    using ud(1) nv(1) sp(1) by (simp add: fold_res_append)
  ultimately show ?thesis
    using u0(1) nv(2,3) ud(2) X(1)
    by (auto simp: dce_transferFn_def length_d2i holds_def bits_simps fin)
qed

subsection \<open>The run of the analysis\<close>

abbreviation "nbrs \<equiv> block_neighbors BACKWARD F"

definition vals :: "nat set \<Rightarrow> ir_value set" where
  "vals X = {v \<in> set D. ix v \<in> X}"

definition dce_F :: "block \<Rightarrow> nat set \<Rightarrow> nat set" where
  "dce_F b X = (if reach F b then ix ` final b (vals X) else {})"

definition dce_NV :: "block \<Rightarrow> nat set \<Rightarrow> block \<Rightarrow> nat set" where
  "dce_NV b X p = (if reach F b then ix ` phi_needs (insns_of b) (final b (vals X)) p else {})"

definition dce_NK :: "block \<Rightarrow> nat set \<Rightarrow> nat" where
  "dce_NK b X = (if reach F b then card (phi_sources (insns_of b) (final b (vals X))) else 0)"

definition dce_res0 :: "block \<Rightarrow> 'bv block_result" where
  "dce_res0 = init_result BV F (filter (fn_ret F) (fn_blocks F))
     (boundary_res BV BACKWARD (bv_make BV n False)) (interior_res_both BV BACKWARD (bv_make BV n False))"

lemma dce_res0_apply:
  "dce_res0 b = (if b \<in> set (fn_blocks F)
     then (if fn_ret F b then boundary_res BV BACKWARD (bv_make BV n False)
           else interior_res_both BV BACKWARD (bv_make BV n False))
     else empty_block_result BV)"
  by (simp add: dce_res0_def init_result_def assign_all_apply)

lemma po_in_blocks: "b \<in> set (fn_po F) \<Longrightarrow> b \<in> set (fn_blocks F)"
  using reach_in_blocks [OF _ wf] wf by (simp add: wf_cfg_def)

lemma vals_image: "X \<subseteq> set D \<Longrightarrow> vals (ix ` X) = X"
  using ix_mem by (auto simp: vals_def)

lemma holds_vals: "bv_size BV v = n \<Longrightarrow> holds v (vals (bits BV v))"
proof -
  assume v: "bv_size BV v = n"
  have "k \<in> ix ` vals (bits BV v)" if "k \<in> bits BV v" for k
  proof -
    have "k < n" using that v by (simp add: bits_def)
    then have "D ! k \<in> set D" "ix (D ! k) = k"
      by (simp_all add: idx_nth [OF domain_distinct])
    then show ?thesis using that by (metis (mono_tags, lifting) image_eqI mem_Collect_eq vals_def)
  qed
  then show ?thesis using v by (auto simp: holds_def vals_def)
qed

lemma vals_in_domain: "vals X \<subseteq> set D"
  by (auto simp: vals_def)

lemma reach_insns: "reach F b \<Longrightarrow> set (insns_of b) \<subseteq> set (all_insns F)"
  using block_all_insns reach_in_blocks [OF _ wf] by blast

lemma final_in_domain: "reach F b \<Longrightarrow> X \<subseteq> set D \<Longrightarrow> final b X \<subseteq> set D"
  using roots_bounded [OF reach_insns] unfolding final_def by (intro marked_in_domain) (auto dest: reach_insns)

lemma final_mono: "X \<subseteq> Y \<Longrightarrow> final b X \<subseteq> final b Y"
  unfolding final_def by (intro marked_mono) auto

lemma vals_mono: "X \<subseteq> Y \<Longrightarrow> vals X \<subseteq> vals Y"
  by (auto simp: vals_def)

lemma dce_F_mono: "X \<subseteq> Y \<Longrightarrow> dce_F b X \<subseteq> dce_F b Y"
  using final_mono [OF vals_mono] by (simp add: dce_F_def image_mono)

lemma dce_NV_mono: "X \<subseteq> Y \<Longrightarrow> dce_NV b X p \<subseteq> dce_NV b Y p"
  using phi_needs_mono [OF final_mono [OF vals_mono]] by (simp add: dce_NV_def image_mono)

lemma dce_NK_mono: "X \<subseteq> Y \<Longrightarrow> dce_NK b X \<le> dce_NK b Y"
  using phi_sources_mono [OF final_mono [OF vals_mono]] phi_sources_finite
  by (simp add: dce_NK_def card_mono)

definition dce_kmax :: nat where
  "dce_kmax = (\<Sum>b\<in>set (fn_blocks F). card (phi_sources (insns_of b) UNIV))"

lemma dce_NK_bounded: "dce_NK b X \<le> dce_kmax"
proof (cases "reach F b")
  case True
  have "card (phi_sources (insns_of b) (final b (vals X))) \<le> card (phi_sources (insns_of b) UNIV)"
    by (intro card_mono phi_sources_finite phi_sources_mono subset_UNIV)
  also have "\<dots> \<le> dce_kmax"
    unfolding dce_kmax_def using reach_in_blocks [OF True wf]
    by (intro member_le_sum [where f = "\<lambda>b. card (phi_sources (insns_of b) UNIV)"]) simp_all
  finally show ?thesis using True by (simp add: dce_NK_def)
qed (simp add: dce_NK_def)

lemma dce_NV_none: "dce_NK b X = 0 \<Longrightarrow> dce_NV b X p = {}"
  using phi_sources_finite by (auto simp: dce_NK_def dce_NV_def phi_sources_def split: if_splits)

lemma dce_NV_stable:
  assumes "dce_F b X = dce_F b Y"
  shows "dce_NV b X = dce_NV b Y"
proof (cases "reach F b")
  case True
  then have "final b (vals X) = final b (vals Y)"
    using assms vals_image [OF final_in_domain [OF True vals_in_domain]] by (simp add: dce_F_def) metis
  then show ?thesis by (simp add: dce_NV_def fun_eq_iff)
qed (simp add: dce_NV_def fun_eq_iff)

lemma dce_transfer_contract:
  assumes b: "reach F b" and v: "bv_size BV v = n"
  shows "\<exists>out. dce_transferFn BV F v D d2i b = Inr out \<and> bv_size BV (element out) = n \<and>
    bits BV (element out) = dce_F b (bits BV v) \<and> nv_bits BV out = dce_NV b (bits BV v) \<and>
    length (neighborVals out) = dce_NK b (bits BV v) \<and>
    (\<forall>p w. map_of (neighborVals out) p = Some w \<longrightarrow> bv_size BV w = n)"
proof -
  obtain out where out: "dce_transferFn BV F v D d2i b = Inr out"
      "holds (element out) (final b (vals (bits BV v)))"
      "nv_exact (neighborVals out) (phi_needs (insns_of b) (final b (vals (bits BV v))))"
    using transferFn_ok [OF b holds_vals [OF v] vals_in_domain] by blast
  have "nv_bits BV out = dce_NV b (bits BV v)"
    using nv_holds_bits out(3) b by (auto simp: nv_exact_def nv_bits_def dce_NV_def)
  moreover have "length (neighborVals out) = dce_NK b (bits BV v)"
    using nv_exact_length [OF out(3)] b by (simp add: dce_NK_def phi_sources_def)
  moreover have "bv_size BV w = n" if "map_of (neighborVals out) p = Some w" for p w
    using nv_holds_size out(3) that by (auto simp: nv_exact_def)
  ultimately show ?thesis
    using out(1,2) b by (auto simp: holds_def dce_F_def)
qed

end

sublocale dce_setup \<subseteq> dc: engine BV UNION n "fn_po F" nbrs "\<lambda>_. {}" "\<lambda>_. {}" dce_F dce_NV dce_NK
  dce_kmax "dceAnalysis BV F" D d2i "\<lambda>v. bv_size BV v = n" "set (fn_blocks F)" dce_res0
proof (unfold_locales, goal_cases)
  case (4 X b)
  then show ?case
    using ix_image_bounded [OF final_in_domain [OF _ vals_in_domain]] by (auto simp: dce_F_def)
next
  case (5 X b p)
  then show ?case
    using ix_image_bounded [OF phi_needs_in_domain [OF reach_insns]] by (auto simp: dce_NV_def)
next
  case (16 b v)
  then have "reach F b" using wf by (simp add: wf_cfg_def)
  then show ?case
    using dce_transfer_contract 16 by (simp add: dceAnalysis_def)
next
  case 17
  show ?case
    using reach_in_blocks [OF _ wf] wf by (auto simp: wf_cfg_def)
next
  case (18 b)
  then show ?case
    using wf reach_in_blocks [OF _ wf] by (auto simp: wf_cfg_def block_neighbors_def)
next
  case 9
  then show ?case by (intro dce_NV_stable)
qed (simp_all add: po_in_blocks dce_F_mono dce_NV_mono dce_NK_mono dce_NK_bounded dce_NV_none is_may_def
    dceAnalysis_def dce_res0_apply initial_results bits_simps block_neighbors_def)

context dce_setup begin

lemma po_reach: "b \<in> set (fn_po F) \<longleftrightarrow> reach F b"
  using wf by (simp add: wf_cfg_def)

lemma ordered:
  assumes "reach F b" and "insns_of b = xs @ i # ys" and "in_phi i = None"
  shows "set (in_ops i) \<inter> self ` set (i # ys) = {}"
proof -
  have "if in_phi i = None then set (in_ops i) \<inter> self ` set (i # ys) = {} else \<forall>j\<in>set xs. in_phi j \<noteq> None"
    using insns assms(1,2) unfolding wf_insns_def by (elim conjE allE) (erule (1) impE, elim allE, erule (1) impE)
  then show ?thesis using assms(3) by (simp only: if_True)
qed

lemma final_closed:
  assumes "reach F b" and "i \<in> set (insns_of b)" and "in_phi i = None" and "self i \<in> final b X"
  shows "instr_ops i \<subseteq> final b X"
  using assms(2-4) unfolding final_def by (intro marked_closed) (rule ordered [OF assms(1)])

lemma final_incr: "X \<subseteq> final b X"
  unfolding final_def by (rule subset_trans [OF _ marked_incr]) blast

lemma final_root: "i \<in> set (insns_of b) \<Longrightarrow> is_root i \<Longrightarrow> self i \<in> final b X"
  unfolding final_def by (rule subsetD [OF marked_incr]) (simp add: roots_def)

lemma needed_in_domain: "needed F b v \<Longrightarrow> reach F b \<Longrightarrow> v \<in> set D"
proof (induction rule: needed.induct)
  case (needed_root i b)
  then show ?case using reach_insns self_in_domain by blast
next
  case (needed_operand i b v)
  then show ?case using reach_insns instr_ops_domain unfolding instr_ops_def by blast
next
  case (needed_through s b v)
  then show ?case using reach_succ by blast
next
  case (needed_edge s b i inc v)
  then show ?case using reach_insns reach_succ incoming_in_domain by (meson subsetD)
qed

text \<open>What the successors of a block need of it.\<close>

definition demand :: "block \<Rightarrow> ir_value set" where
  "demand b = {v. \<exists>s\<in>set (fn_succs F b). needed F s v \<or> v \<in> phi_needs (insns_of s) {v. needed F s v} b}"

lemma needed_final:
  assumes "reach F b"
  shows "final b (demand b) = {v. needed F b v}"
proof
  show "final b (demand b) \<subseteq> {v. needed F b v}"
    unfolding final_def
  proof (rule marked_least)
    show "demand b \<union> roots (insns_of b) \<subseteq> {v. needed F b v}"
      by (auto simp: demand_def roots_def phi_needs_def intro: needed.intros)
  qed (auto simp: instr_ops_def intro: needed_operand)
  have "v \<in> final b (demand b)" if "needed F b v" for v
    using that assms
  proof (induction rule: needed.induct)
    case (needed_root i b)
    then show ?case by (intro final_root)
  next
    case (needed_operand i b v)
    then show ?case using final_closed by (auto simp: instr_ops_def)
  next
    case (needed_through s b v)
    then have "v \<in> demand b" by (auto simp: demand_def)
    then show ?case using final_incr by auto
  next
    case (needed_edge s b i inc v)
    then have "v \<in> demand b" by (auto simp: demand_def phi_needs_def)
    then show ?case using final_incr by auto
  qed
  then show "{v. needed F b v} \<subseteq> final b (demand b)" by blast
qed

definition E_spec :: "block \<Rightarrow> nat set" where
  "E_spec b = (if reach F b then ix ` {v. needed F b v} else {})"

definition V_spec :: "block \<Rightarrow> block \<Rightarrow> nat set" where
  "V_spec b p = (if reach F b then ix ` phi_needs (insns_of b) {v. needed F b v} p else {})"

lemma meet_spec:
  assumes "reach F b"
  shows "meet_input UNION nbrs (\<lambda>_. {}) E_spec V_spec b = ix ` demand b"
proof -
  have "meet_input UNION nbrs (\<lambda>_. {}) E_spec V_spec b = (\<Union>s\<in>set (fn_succs F b). E_spec s \<union> V_spec s b)"
    using reach_in_blocks [OF assms wf]
    by (auto simp: meet_input_def meet_value_def is_may_def block_neighbors_def)
  also have "\<dots> = (\<Union>s\<in>set (fn_succs F b).
      ix ` {v. needed F s v} \<union> ix ` phi_needs (insns_of s) {v. needed F s v} b)"
    using reach_succ [OF assms] by (simp add: E_spec_def V_spec_def)
  also have "\<dots> = ix ` demand b" by (auto simp: demand_def)
  finally show ?thesis .
qed

lemma demand_in_domain:
  assumes "reach F b"
  shows "demand b \<subseteq> set D"
proof
  fix v
  assume "v \<in> demand b"
  then obtain s where s: "s \<in> set (fn_succs F b)" "needed F s v \<or> v \<in> phi_needs (insns_of s) {v. needed F s v} b"
    by (auto simp: demand_def)
  have "reach F s" using assms s(1) by (rule reach_succ)
  then show "v \<in> set D"
    using s(2) needed_in_domain phi_needs_in_domain [OF reach_insns, of s] by (elim disjE) (blast, blast)
qed

lemma spec_solution: "dc.solution E_spec V_spec"
  unfolding df_solution_def po_reach
proof (intro allI)
  fix b
  show "if reach F b
    then E_spec b = dce_F b (meet_input UNION nbrs (\<lambda>_. {}) E_spec V_spec b) \<and>
      V_spec b = dce_NV b (meet_input UNION nbrs (\<lambda>_. {}) E_spec V_spec b)
    else E_spec b = {} \<and> V_spec b = (\<lambda>_. {})"
  proof (cases "reach F b")
    case True
    have "E_spec b = dce_F b (ix ` demand b)" "V_spec b = dce_NV b (ix ` demand b)"
      unfolding E_spec_def V_spec_def dce_F_def dce_NV_def vals_image [OF demand_in_domain [OF True]]
        needed_final [OF True] by simp_all
    then show ?thesis using True by (simp only: meet_spec if_True simp_thms)
  next
    case False
    then show ?thesis by (simp add: E_spec_def V_spec_def fun_eq_iff)
  qed
qed

lemma ix_final: "reach F b \<Longrightarrow> v \<in> set D \<Longrightarrow> ix v \<in> ix ` final b (vals X) \<longleftrightarrow> v \<in> final b (vals X)"
  by (rule ix_mem [OF _ final_in_domain [OF _ vals_in_domain]])

lemma spec_least:
  assumes sol: "dc.solution E V" and "needed F b v" and "reach F b"
  shows "ix v \<in> E b"
proof -
  let ?X = "\<lambda>b. meet_input UNION nbrs (\<lambda>_. {}) E V b"
  have E: "E b = ix ` final b (vals (?X b))" if "reach F b" for b
    using sol that by (simp add: df_solution_def po_reach dce_F_def)
  have V: "V b p = ix ` phi_needs (insns_of b) (final b (vals (?X b))) p" if "reach F b" for b p
    using sol that by (simp add: df_solution_def po_reach dce_NV_def)
  have meet: "E s \<union> V s b \<subseteq> ?X b" if "reach F b" "s \<in> set (fn_succs F b)" for s b
    using that reach_in_blocks [OF that(1) wf]
    by (auto simp: meet_input_def meet_value_def is_may_def block_neighbors_def)
  have into: "ix v \<in> E b" if "ix v \<in> ?X b" "v \<in> set D" "reach F b" for v b
    using that final_incr [of "vals (?X b)" b] by (auto simp: E vals_def)
  show ?thesis
    using assms(2,3)
  proof (induction rule: needed.induct)
    case (needed_root i b)
    then show ?case using final_root by (simp add: E)
  next
    case (needed_operand i b v)
    then have "self i \<in> final b (vals (?X b))"
      using ix_final self_in_domain reach_insns by (simp add: E subset_iff)
    then show ?case
      using needed_operand final_closed [of b i] by (auto simp: E instr_ops_def)
  next
    case (needed_through s b v)
    then have s: "reach F s" using reach_succ by blast
    then show ?case
      using into [of v b] meet [of b s] needed_through needed_in_domain by blast
  next
    case (needed_edge s b i inc v)
    then have s: "reach F s" using reach_succ by blast
    have "self i \<in> final s (vals (?X s))"
      using needed_edge s ix_final [of s "self i"] self_in_domain reach_insns [OF s] by (simp add: E subset_iff)
    then have "v \<in> phi_needs (insns_of s) (final s (vals (?X s))) b"
      using needed_edge.hyps by (auto simp: phi_needs_def)
    then have "ix v \<in> V s b" using V [OF s] by simp
    then show ?case
      using into [of v b] meet [of b s] needed_edge needed_in_domain [OF needed.needed_edge] by blast
  qed
qed

lemma dce_run_loop:
  "dce_run BV F = map_option (map_sum id (\<lambda>res.
     \<lparr>df_result = res, df_domainToIndex = d2i, df_modified = False\<rparr>)) (dc.loop dce_res0)"
  by (simp add: dce_run_def run_both_def run_engine_def boundary_blocks_def dceAnalysis_def
      dce_res0_def traversal_order_def Let_def)

lemma dce_run_exact:
  "\<exists>out. dce_run BV F = Some (Inr out) \<and> df_domainToIndex out = d2i \<and>
     (\<forall>b. reach F b \<longrightarrow> holds (res_in (df_result out b)) {v. needed F b v})"
proof -
  obtain res where res: "dc.loop dce_res0 = Some (Inr res)"
      and sol: "dc.solution (st_E (dc.ast res)) (st_V (dc.ast res))"
      and io: "\<forall>b\<in>set (fn_po F). bits BV (res_in (res b)) = st_E (dc.ast res) b \<and>
        bv_size BV (res_in (res b)) = n"
      and least: "\<forall>E V. dc.solution E V \<longrightarrow> (\<forall>b. E b \<subseteq> {..<n}) \<longrightarrow>
        (\<forall>b. info_le UNION (st_E (dc.ast res) b) (E b))"
    using dc.run_returns unfolding dc.fits_def unfolding block_input_def block_output_def dceAnalysis_def by auto
  have "st_E (dc.ast res) b = ix ` {v. needed F b v}" if "reach F b" for b
  proof
    have "E_spec b \<subseteq> {..<n}" for b
      using ix_bound needed_in_domain by (auto simp: E_spec_def)
    then have "st_E (dc.ast res) b \<subseteq> E_spec b"
      using least [rule_format, OF spec_solution] by (simp add: info_le_def is_may_def)
    then show "st_E (dc.ast res) b \<subseteq> ix ` {v. needed F b v}" using that by (simp add: E_spec_def)
    show "ix ` {v. needed F b v} \<subseteq> st_E (dc.ast res) b"
      using spec_least [OF sol _ that] by blast
  qed
  then show ?thesis
    using res io by (simp add: dce_run_loop po_reach holds_def)
qed

subsection \<open>The deletion\<close>

definition dead_in :: "block \<Rightarrow> instr \<Rightarrow> bool" where
  "dead_in b I \<longleftrightarrow> \<not> is_root I \<and> \<not> needed F b (self I)"

lemma select_ok:
  assumes "reach F b" and "holds SLV {v. needed F b v}" and "set xs \<subseteq> set (all_insns F)"
  shows "fold_res (dce_select BV D SLV) xs (del, d2i, m) =
    Inr (del @ filter (dead_in b) xs, d2i, m \<or> filter (dead_in b) xs \<noteq> [])"
  using assms(3)
proof (induction xs arbitrary: del m)
  case (Cons I xs)
  have I: "self I \<in> set D" using Cons.prems self_in_domain by simp
  have sub: "{v. needed F b v} \<subseteq> set D" using needed_in_domain assms(1) by blast
  have "dce_select BV D SLV I (del, d2i, m) =
      Inr (del @ (if dead_in b I then [I] else []), d2i, m \<or> dead_in b I)"
    using I holds_get [OF assms(2) I sub] d2i_index [OF I] by (auto simp: dce_select_def dead_in_def)
  then show ?case using Cons by auto
qed simp

text \<open>
  What the pass has done so far: the values in \<open>E\<close> are erased, everything else is as it was.
  An erased value is an instruction of a reachable block that has no effect and is not needed
  there, and nothing that is left reads it.
\<close>

definition erased :: "'z ir_function_scheme \<Rightarrow> ir_value set \<Rightarrow> bool" where
  "erased F' E \<longleftrightarrow>
     F' = F\<lparr>fn_insns := fn_insns F'\<rparr> \<and>
     (\<forall>b\<in>set (fn_blocks F). fn_insns F' b = filter (\<lambda>I. self I \<notin> E) (fn_insns F b)) \<and>
     (\<forall>v\<in>E. \<exists>b I. reach F b \<and> I \<in> set (fn_insns F b) \<and> v = self I \<and> dead_in b I) \<and>
     (\<forall>J\<in>set (all_insns F'). set (in_ops J) \<inter> E = {})"

lemma erased_none: "erased F {}"
  by (simp add: erased_def)

lemma erased_blocks: "erased F' E \<Longrightarrow> fn_blocks F' = fn_blocks F"
  unfolding erased_def by (elim conjE) (erule ssubst, simp)

lemma erased_insns: "erased F' E \<Longrightarrow> b \<in> set (fn_blocks F) \<Longrightarrow> set (fn_insns F' b) \<subseteq> set (fn_insns F b)"
  by (auto simp: erased_def)

lemma insn_block_unique:
  assumes "b \<in> set (fn_blocks F)" "c \<in> set (fn_blocks F)" "I \<in> set (fn_insns F b)" "J \<in> set (fn_insns F c)"
    and "self I = self J"
  shows "b = c"
proof -
  have "distinct (concat (map (\<lambda>b. map in_id (fn_insns F b)) (fn_blocks F)))"
    using insns by (simp add: wf_insns_def all_insns_def map_concat o_def)
  then show ?thesis
    by (rule distinct_concat_unique [where x = "in_id I"]) (use assms in \<open>auto simp: self_def intro: rev_image_eqI\<close>)
qed

lemma erase_keeps:
  "F' = F\<lparr>fn_insns := f\<rparr> \<Longrightarrow> eraseFromParent b I F' = F\<lparr>fn_insns := fn_insns (eraseFromParent b I F')\<rparr>"
  by (simp add: eraseFromParent_def)

lemma erase_step:
  assumes E: "erased F' E" and b: "reach F b" and I: "I \<in> set (fn_insns F b)" "dead_in b I" "use_empty F' I"
  shows "erased (eraseFromParent b I F') (insert (self I) E)"
proof -
  let ?F = "eraseFromParent b I F'"
  have bl: "b \<in> set (fn_blocks F)" using b wf by (rule reach_in_blocks)
  have ins: "fn_insns ?F c = filter (\<lambda>J. self J \<notin> insert (self I) E) (fn_insns F c)"
    if c: "c \<in> set (fn_blocks F)" for c
  proof (cases "c = b")
    case True
    then show ?thesis using E c by (auto simp: eraseFromParent_def erased_def intro: filter_cong)
  next
    case False
    then have "self J \<noteq> self I" if "J \<in> set (fn_insns F c)" for J
      using insn_block_unique [OF c bl that I(1)] by blast
    then have "filter (\<lambda>J. self J \<notin> insert (self I) E) (fn_insns F c) = filter (\<lambda>J. self J \<notin> E) (fn_insns F c)"
      by (intro filter_cong) auto
    then show ?thesis using E c False by (simp add: eraseFromParent_def erased_def)
  qed
  have blocks: "fn_blocks ?F = fn_blocks F'" by (simp add: eraseFromParent_def)
  have sub: "set (all_insns ?F) \<subseteq> set (all_insns F')"
    unfolding all_insns_def blocks by (auto simp: eraseFromParent_def split: if_splits)
  have "F' = F\<lparr>fn_insns := fn_insns F'\<rparr>" using E by (simp only: erased_def)
  then have "?F = F\<lparr>fn_insns := fn_insns ?F\<rparr>" by (rule erase_keeps)
  moreover have "set (in_ops J) \<inter> insert (self I) E = {}" if "J \<in> set (all_insns ?F)" for J
  proof -
    have "J \<in> set (all_insns F')" using that sub by blast
    then show ?thesis using E I(3) by (simp add: erased_def use_empty_def)
  qed
  moreover have "\<forall>v\<in>insert (self I) E. \<exists>b I. reach F b \<and> I \<in> set (fn_insns F b) \<and> v = self I \<and> dead_in b I"
    using E b I(1,2) unfolding erased_def by blast
  ultimately show ?thesis
    unfolding erased_def using ins by blast
qed

lemma delete_ok:
  assumes "erased F' E" and "reach F b" and "set xs \<subseteq> set (fn_insns F b)" and "\<forall>I\<in>set xs. dead_in b I"
  shows "\<exists>E'. erased (fold (dce_delete b) xs F') E' \<and> (xs = [] \<longrightarrow> E' = E)"
  using assms(1,3,4)
proof (induction xs arbitrary: F' E)
  case (Cons I xs)
  have "erased (dce_delete b I F') (if use_empty F' I then insert (self I) E else E)"
    using Cons.prems erase_step [OF Cons.prems(1) assms(2), of I] by (simp add: dce_delete_def)
  then obtain E' where E': "erased (dce_delete b I F') E'" by blast
  show ?case using Cons.IH [OF E'] Cons.prems(2,3) by auto
qed auto

lemma block_ok:
  assumes "erased F' E" and "E \<noteq> {} \<longrightarrow> m" and b: "reach F b"
    and out: "holds (res_in (df_result res b)) {v. needed F b v}"
  shows "\<exists>F'' E' m'. dce_block BV D res b (F', d2i, m) = Inr (F'', d2i, m') \<and> erased F'' E' \<and> (E' \<noteq> {} \<longrightarrow> m')"
proof -
  let ?xs = "filter (dead_in b) (rev (fn_insns F' b))"
  have sub: "set (fn_insns F' b) \<subseteq> set (fn_insns F b)"
    using erased_insns [OF assms(1)] reach_in_blocks [OF b wf] by blast
  have "fold_res (dce_select BV D (res_in (df_result res b))) (rev (fn_insns F' b)) ([], d2i, m) =
      Inr ([] @ ?xs, d2i, m \<or> ?xs \<noteq> [])"
    using sub reach_insns [OF b] by (intro select_ok [OF b out]) auto
  then have run: "dce_block BV D res b (F', d2i, m) = Inr (fold (dce_delete b) ?xs F', d2i, m \<or> ?xs \<noteq> [])"
    unfolding dce_block_def by (simp only: Let_def prod.case bind_res_simps append_Nil)
  have "set ?xs \<subseteq> set (fn_insns F b)" and "\<forall>I\<in>set ?xs. dead_in b I" using sub by auto
  then obtain E' where E': "erased (fold (dce_delete b) ?xs F') E'" "?xs = [] \<longrightarrow> E' = E"
    using delete_ok [OF assms(1) b] by blast
  have "E' \<noteq> {} \<longrightarrow> m \<or> ?xs \<noteq> []" using E'(2) assms(2) by blast
  with run E'(1) show ?thesis by (intro exI conjI)
qed

lemma dce_exact:
  "\<exists>F' E modified. dce_runOnFunction BV F = Some (Inr (F', modified)) \<and> erased F' E \<and> (E \<noteq> {} \<longrightarrow> modified)"
proof -
  obtain res where out: "dce_run BV F = Some (Inr res)" "df_domainToIndex res = d2i"
      "\<And>b. reach F b \<Longrightarrow> holds (res_in (df_result res b)) {v. needed F b v}"
    using dce_run_exact by auto
  let ?P = "\<lambda>(F', i, m). \<exists>E. i = d2i \<and> erased F' E \<and> (E \<noteq> {} \<longrightarrow> m)"
  have "\<exists>s. fold_res (dce_block BV D res) (fn_po F) (F, d2i, False) = Inr s \<and> ?P s"
  proof (rule fold_res_total)
    show "?P (F, d2i, False)" using erased_none by auto
  next
    fix b t
    assume "b \<in> set (fn_po F)" and P: "?P t"
    then have b: "reach F b" by (simp add: po_reach)
    obtain F' m E where t: "t = (F', d2i, m)" "erased F' E" "E \<noteq> {} \<longrightarrow> m"
      using P by (cases t) auto
    show "\<exists>t'. dce_block BV D res b t = Inr t' \<and> ?P t'"
      using block_ok [OF t(2,3) b out(3) [OF b]] unfolding t(1) by (elim exE conjE) auto
  qed
  then obtain F' m E where "fold_res (dce_block BV D res) (fn_po F) (F, d2i, False) = Inr (F', d2i, m)"
      and E: "erased F' E" "E \<noteq> {} \<longrightarrow> m"
    by auto
  then have "dce_runOnFunction BV F = Some (Inr (F', m))"
    using out(1,2) by (simp add: dce_runOnFunction_def)
  then show ?thesis using E by (intro exI conjI)
qed

end

subsection \<open>The pass on every function\<close>

lemma dce_setupI: "bitvector BV \<Longrightarrow> wf_cfg F \<Longrightarrow> wf_insns F \<Longrightarrow> dce_setup BV F"
  by (intro dce_setup.intro dce_setup_axioms.intro domain_bits.intro domain_bits_axioms.intro dce_domain_distinct)

lemma hoist_loop_block: "reach hoist_loop b \<Longrightarrow> b = 0 \<or> b = 1 \<or> b = 2 \<or> b = 3"
  using reach_loop [of hoist_loop b] by auto

lemma wf_insns_hoist_loop: "wf_insns hoist_loop"
  unfolding wf_insns_def
proof (intro conjI allI impI)
  fix b xs i ys
  assume "reach hoist_loop b" and sp: "fn_insns hoist_loop b = xs @ i # ys"
  then have "b \<in> {0, 1, 2, 3}" using reach_loop [of hoist_loop b] by simp
  with sp show "if in_phi i = None then set (in_ops i) \<inter> self ` set (i # ys) = {}
      else \<forall>j\<in>set xs. in_phi j \<noteq> None"
    by (auto simp: sample_defs self_def append_eq_Cons_conv Cons_eq_append_conv)
qed (auto simp: all_insns_def sample_defs self_def is_instruction_def)

interpretation sample_dce: dce_setup bl_ops hoist_loop
  by (rule dce_setupI [OF _ wf_hoist_loop wf_insns_hoist_loop]) unfold_locales



text \<open>
  C11: on every well-formed function the pass returns. It only removes instructions, each one of a
  reachable block, without side effects, not a terminator, and not needed by the block it was in;
  no instruction that is left, reachable or not, reads a removed one; and the pass reports a
  modification whenever it removed something.
\<close>

theorem dce_safe:
  assumes "bitvector BV" and "wf_cfg F" and "wf_insns F"
  shows "\<exists>F' E modified. dce_runOnFunction BV F = Some (Inr (F', modified)) \<and>
    F' = F\<lparr>fn_insns := fn_insns F'\<rparr> \<and>
    (\<forall>b\<in>set (fn_blocks F). fn_insns F' b = filter (\<lambda>I. self I \<notin> E) (fn_insns F b)) \<and>
    (\<forall>v\<in>E. \<exists>b I. reach F b \<and> I \<in> set (fn_insns F b) \<and> v = self I \<and> \<not> is_root I \<and> \<not> needed F b (self I)) \<and>
    (\<forall>J\<in>set (all_insns F'). set (in_ops J) \<inter> E = {}) \<and> (E \<noteq> {} \<longrightarrow> modified)"
  using dce_setup.dce_exact [OF dce_setupI [OF assms]]
  unfolding dce_setup.erased_def [OF dce_setupI [OF assms]] dce_setup.dead_in_def [OF dce_setupI [OF assms]]
  by (elim ex_forward) blast

theorem dce_safe_witness:
  "bitvector bl_ops \<and> wf_cfg hoist_loop \<and> wf_insns hoist_loop \<and>
   (\<exists>F' E modified. dce_runOnFunction bl_ops hoist_loop = Some (Inr (F', modified)) \<and>
      fn_insns F' 2 = filter (\<lambda>I. self I \<notin> E) (fn_insns hoist_loop 2) \<and> (E \<noteq> {} \<longrightarrow> modified))"
proof (intro conjI)
  have "2 \<in> set (fn_blocks hoist_loop)" by (simp add: hoist_loop_def counting_loop_def)
  then show "\<exists>F' E modified. dce_runOnFunction bl_ops hoist_loop = Some (Inr (F', modified)) \<and>
      fn_insns F' 2 = filter (\<lambda>I. self I \<notin> E) (fn_insns hoist_loop 2) \<and> (E \<noteq> {} \<longrightarrow> modified)"
    using dce_safe [OF bl.bitvector_axioms wf_hoist_loop wf_insns_hoist_loop] by (elim ex_forward) blast
qed (rule bl.bitvector_axioms wf_hoist_loop wf_insns_hoist_loop)+

subsection \<open>A cycle of dead phi nodes stays\<close>


definition dce_ids :: "'bv bitvec_ops \<Rightarrow> ir_function \<Rightarrow> (nat list list \<times> bool) option" where
  "dce_ids BV F = (case dce_runOnFunction BV F of
     Some (Inr (F', m)) \<Rightarrow> Some (map (\<lambda>b. map in_id (fn_insns F' b)) (fn_blocks F'), m) | _ \<Rightarrow> None)"

lemma dce_hoist_loop: "dce_ids bl_ops hoist_loop = Some ([[10], [1, 2, 11], [3, 12], [13]], True)"
  by code_simp


end
