(* ===== verification/LocalOpts.thy ===== *)
theory LocalOpts
  imports IR "HOL-Library.Signed_Division"
begin

section \<open>Local optimizations: the model\<close>

text \<open>
  \<open>asst1/LocalOpts/LocalOpts.cpp\<close>: algebraic identities, constant folding and strength
  reduction on the blocks of a module. Values carry their type, as LLVM's do. The edits of the
  instruction list, the conversions between constants and \<open>int64_t\<close> and the identity of a new
  instruction are LLVM's: a record of operations passed to the definitions. Arithmetic on
  \<open>int64_t\<close> that C++ leaves undefined ends in the failure \<open>Undefined\<close>. The statistics are
  plain numbers.
\<close>

datatype ity = IntTy nat | OtherTy nat

datatype tvalue =
    TInst ity nat
  | TConst nat nat
  | TArg ity nat

fun vtype :: "tvalue \<Rightarrow> ity" where
  "vtype (TInst t _) = t"
| "vtype (TConst w _) = IntTy w"
| "vtype (TArg t _) = t"

record oinsn =
  oi_id :: nat
  oi_binop :: "opcode option"
  oi_phi :: bool
  oi_ty :: ity
  oi_ops :: "tvalue list"

type_synonym ofn = "oinsn list list"

definition oself :: "oinsn \<Rightarrow> tvalue" where
  "oself i = TInst (oi_ty i) (oi_id i)"

text \<open>
  \<open>api_replace_value F b i v\<close> is \<open>ReplaceInstWithValue\<close> on instruction \<open>i\<close> of block
  \<open>b\<close>, after which the iterator stands at the instruction that followed;
  \<open>api_replace_inst\<close> is \<open>ReplaceInstWithInst\<close>, after which it stands at the new
  instruction; \<open>api_insert\<close> inserts before the iterator; \<open>api_sext\<close> is
  \<open>getSExtValue\<close>, \<open>api_const\<close> is \<open>ConstantInt::get\<close> on an integer type and
  \<open>api_new\<close> the identity of the next instruction created.
\<close>

record llvm_api =
  api_replace_value :: "ofn \<Rightarrow> nat \<Rightarrow> nat \<Rightarrow> tvalue \<Rightarrow> ofn"
  api_replace_inst :: "ofn \<Rightarrow> nat \<Rightarrow> nat \<Rightarrow> oinsn \<Rightarrow> ofn"
  api_insert :: "ofn \<Rightarrow> nat \<Rightarrow> nat \<Rightarrow> oinsn \<Rightarrow> ofn"
  api_sext :: "nat \<Rightarrow> nat \<Rightarrow> int result"
  api_const :: "nat \<Rightarrow> int \<Rightarrow> tvalue"
  api_new :: "ofn \<Rightarrow> nat"

text \<open>The function worked on and \<open>LocalOptsInfo\<close>.\<close>

record opts_state =
  os_fn :: ofn
  numAlgebraicOpts :: nat
  numConstantFolds :: nat
  numStrengthReds :: nat

subsection \<open>\<open>int64_t\<close>\<close>

definition int64 :: "int \<Rightarrow> int result" where
  "int64 x = (if - (2 ^ 63) \<le> x \<and> x < 2 ^ 63 then Inr x else Inl Undefined)"

text \<open>A left shift of a negative number, or past 64 bits, is undefined; so is a count out of range.\<close>

definition int64_shl :: "int \<Rightarrow> int \<Rightarrow> int result" where
  "int64_shl a b =
     (if b < 0 \<or> 64 \<le> b \<or> a < 0 \<or> 2 ^ 64 \<le> a * 2 ^ nat b then Inl Undefined
      else let r = a * 2 ^ nat b in Inr (if r < 2 ^ 63 then r else r - 2 ^ 64))"

text \<open>A right shift of a negative number keeps the sign, as every supported compiler does.\<close>

definition int64_shr :: "int \<Rightarrow> int \<Rightarrow> int result" where
  "int64_shr a b = (if b < 0 \<or> 64 \<le> b then Inl Undefined else Inr (a div 2 ^ nat b))"

definition int64_div :: "int \<Rightarrow> int \<Rightarrow> int result" where
  "int64_div a b = (if b = 0 then Inl Undefined else int64 (a sdiv b))"

subsection \<open>Powers of two\<close>

function find_log_loop :: "int \<Rightarrow> int \<Rightarrow> int \<times> int" where
  "find_log_loop n res = (if n mod 2 = 0 \<and> n > 1 then find_log_loop (n div 2) (res + 1) else (n, res))"
  by auto
termination by (relation "measure (\<lambda>(n, _). nat n)") auto

declare find_log_loop.simps [simp del]

definition find_log :: "int \<Rightarrow> int" where
  "find_log n =
     (if n \<le> 0 then - 1
      else (let (n, res) = find_log_loop n 0 in if n = 1 then res else - 1))"

text \<open>The result and the value of the reference argument \<open>exponent\<close> afterwards.\<close>

definition find_log_improved :: "int \<Rightarrow> int \<Rightarrow> (int \<times> int) result" where
  "find_log_improved n exponent =
     (if n \<le> 0 then Inr (- 1, exponent)
      else if find_log n \<ge> 0 then Inr (0, find_log n)
      else if find_log (n - 1) \<ge> 0 then Inr (1, find_log (n - 1))
      else bind_res (int64 (n + 1)) (\<lambda>m.
        if find_log m \<ge> 0 then Inr (- 1, find_log m) else Inr (- 2, find_log m)))"

subsection \<open>Algebraic identities\<close>

definition is_const :: "tvalue \<Rightarrow> bool" where
  "is_const v = (case v of TConst _ _ \<Rightarrow> True | _ \<Rightarrow> False)"

definition const_is :: "tvalue \<Rightarrow> nat \<Rightarrow> bool" where
  "const_is v k = (case v of TConst _ n \<Rightarrow> n = k | _ \<Rightarrow> False)"

text \<open>
  The value the cases of the switch replace an instruction of width \<open>w\<close> by. The operands of a binary
  operator have its type, so the widths the comparisons assert to be equal are equal.
\<close>

definition algebraic_add :: "tvalue \<Rightarrow> tvalue \<Rightarrow> tvalue option" where
  "algebraic_add val1 val2 =
     (if is_const val1 then (if const_is val1 0 then Some val2 else None)
      else if is_const val2 then (if const_is val2 0 then Some val1 else None)
      else None)"

definition algebraic_sub :: "nat \<Rightarrow> tvalue \<Rightarrow> tvalue \<Rightarrow> tvalue option" where
  "algebraic_sub w val1 val2 =
     (if is_const val2 then (if const_is val2 0 then Some val1 else None)
      else if val1 = val2 then Some (TConst w 0)
      else None)"

definition algebraic_mul :: "nat \<Rightarrow> tvalue \<Rightarrow> tvalue \<Rightarrow> tvalue option" where
  "algebraic_mul w val1 val2 =
     (if is_const val2
      then (if const_is val2 1 then Some val1 else if const_is val2 0 then Some (TConst w 0) else None)
      else if is_const val1
      then (if const_is val1 1 then Some val2 else if const_is val1 0 then Some (TConst w 0) else None)
      else None)"

definition algebraic_div :: "nat \<Rightarrow> tvalue \<Rightarrow> tvalue \<Rightarrow> tvalue option" where
  "algebraic_div w val1 val2 =
     (if is_const val2 then (if const_is val2 1 then Some val1 else None)
      else if is_const val1 then (if const_is val1 0 then Some (TConst w 0) else None)
      else if val1 = val2 then Some (TConst w 1)
      else None)"

definition algebraic_and :: "nat \<Rightarrow> tvalue \<Rightarrow> tvalue \<Rightarrow> tvalue option" where
  "algebraic_and w val1 val2 =
     (if is_const val2 then (if const_is val2 0 then Some (TConst w 0) else None)
      else if is_const val1 then (if const_is val1 0 then Some (TConst w 0) else None)
      else None)"

definition algebraic_or :: "tvalue \<Rightarrow> tvalue \<Rightarrow> tvalue option" where
  "algebraic_or val1 val2 =
     (if is_const val2 then (if const_is val2 0 then Some val1 else None)
      else if is_const val1 then (if const_is val1 0 then Some val2 else None)
      else None)"

definition algebraic_xor :: "tvalue \<Rightarrow> tvalue \<Rightarrow> tvalue option" where
  "algebraic_xor val1 val2 =
     (if is_const val2 then (if const_is val2 0 then Some val1 else None)
      else if is_const val1 then (if const_is val1 0 then Some val2 else None)
      else None)"

definition algebraic_value :: "nat \<Rightarrow> opcode \<Rightarrow> tvalue \<Rightarrow> tvalue \<Rightarrow> tvalue option" where
  "algebraic_value w opc val1 val2 =
     (case opc of
        Add \<Rightarrow> algebraic_add val1 val2
      | Sub \<Rightarrow> algebraic_sub w val1 val2
      | Mul \<Rightarrow> algebraic_mul w val1 val2
      | UDiv \<Rightarrow> algebraic_div w val1 val2
      | SDiv \<Rightarrow> algebraic_div w val1 val2
      | And \<Rightarrow> algebraic_and w val1 val2
      | Or \<Rightarrow> algebraic_or val1 val2
      | Xor \<Rightarrow> algebraic_xor val1 val2
      | _ \<Rightarrow> None)"

lemmas algebraic_defs = algebraic_value_def algebraic_add_def algebraic_sub_def algebraic_mul_def
  algebraic_div_def algebraic_and_def algebraic_or_def algebraic_xor_def

text \<open>One instruction of the loop, and whether it was removed.\<close>

definition algebraic_step :: "llvm_api \<Rightarrow> nat \<Rightarrow> nat \<Rightarrow> opts_state \<Rightarrow> opts_state \<times> bool" where
  "algebraic_step A B BI s =
     (let inst = os_fn s ! B ! BI
      in case oi_binop inst of
           None \<Rightarrow> (s, False)
         | Some opc \<Rightarrow>
             (case oi_ty inst of
                OtherTy _ \<Rightarrow> (s, False)
              | IntTy w \<Rightarrow>
                  (case algebraic_value w opc (oi_ops inst ! 0) (oi_ops inst ! 1) of
                     None \<Rightarrow> (s, False)
                   | Some v \<Rightarrow> (s\<lparr>os_fn := api_replace_value A (os_fn s) B BI v,
                       numAlgebraicOpts := Suc (numAlgebraicOpts s)\<rparr>, True))))"

text \<open>The iterator moves on only past an instruction that stays; \<open>None\<close> is a loop without end.\<close>

partial_function (option) algebraic_loop ::
  "llvm_api \<Rightarrow> nat \<Rightarrow> nat \<Rightarrow> opts_state \<Rightarrow> bool \<Rightarrow> (opts_state \<times> bool) option" where
  "algebraic_loop A B BI s modified =
     (if BI < length (os_fn s ! B)
      then (let (s', inst_removed) = algebraic_step A B BI s
            in if inst_removed then algebraic_loop A B BI s' True
               else algebraic_loop A B (Suc BI) s' modified)
      else Some (s, modified))"

definition algebraic_optimizations :: "llvm_api \<Rightarrow> nat \<Rightarrow> opts_state \<Rightarrow> (opts_state \<times> bool) option" where
  "algebraic_optimizations A B s = algebraic_loop A B 0 s False"

subsection \<open>Constant folding\<close>

text \<open>The switch on two constants of width \<open>w\<close>; \<open>Inr None\<close> leaves the instruction.\<close>

definition fold_value :: "llvm_api \<Rightarrow> opcode \<Rightarrow> nat \<Rightarrow> nat \<Rightarrow> nat \<Rightarrow> nat \<Rightarrow> tvalue option result" where
  "fold_value A opc w1 n1 w2 n2 =
     (let known = (\<lambda>f. bind_res (api_sext A w1 n1) (\<lambda>a. bind_res (api_sext A w2 n2) (\<lambda>b.
            bind_res (f a b) (\<lambda>r. Inr (Some (api_const A w1 r))))))
      in case opc of
        Add \<Rightarrow> known (\<lambda>a b. int64 (a + b))
      | Sub \<Rightarrow> known (\<lambda>a b. int64 (a - b))
      | Mul \<Rightarrow> known (\<lambda>a b. int64 (a * b))
      | UDiv \<Rightarrow> bind_res (api_sext A w2 n2) (\<lambda>b. if b \<noteq> 0 then known int64_div else Inr None)
      | SDiv \<Rightarrow> bind_res (api_sext A w2 n2) (\<lambda>b. if b \<noteq> 0 then known int64_div else Inr None)
      | Shl \<Rightarrow> known int64_shl
      | LShr \<Rightarrow> known int64_shr
      | _ \<Rightarrow> Inr None)"

definition folding_step :: "llvm_api \<Rightarrow> nat \<Rightarrow> nat \<Rightarrow> opts_state \<Rightarrow> (opts_state \<times> bool) result" where
  "folding_step A B BI s =
     (let inst = os_fn s ! B ! BI
      in case oi_binop inst of
           None \<Rightarrow> Inr (s, False)
         | Some opc \<Rightarrow>
             (case (oi_ops inst ! 0, oi_ops inst ! 1) of
                (TConst w1 n1, TConst w2 n2) \<Rightarrow>
                  bind_res (fold_value A opc w1 n1 w2 n2) (\<lambda>r.
                    case r of
                      None \<Rightarrow> Inr (s, False)
                    | Some ci_final \<Rightarrow> Inr (s\<lparr>os_fn := api_replace_value A (os_fn s) B BI ci_final,
                        numConstantFolds := Suc (numConstantFolds s)\<rparr>, True))
              | _ \<Rightarrow> Inr (s, False)))"

partial_function (option) folding_loop ::
  "llvm_api \<Rightarrow> nat \<Rightarrow> nat \<Rightarrow> opts_state \<Rightarrow> bool \<Rightarrow> (opts_state \<times> bool) result option" where
  "folding_loop A B BI s modified =
     (if BI < length (os_fn s ! B)
      then (case folding_step A B BI s of
              Inl e \<Rightarrow> Some (Inl e)
            | Inr (s', inst_removed) \<Rightarrow>
                if inst_removed then folding_loop A B BI s' True
                else folding_loop A B (Suc BI) s' modified)
      else Some (Inr (s, modified)))"

definition constant_folding :: "llvm_api \<Rightarrow> nat \<Rightarrow> opts_state \<Rightarrow> (opts_state \<times> bool) result option" where
  "constant_folding A B s = folding_loop A B 0 s False"

subsection \<open>Strength reduction\<close>

text \<open>\<open>BinaryOperator::Create\<close>: an instruction in no block yet, of the type of its operands.\<close>

definition create_binop :: "llvm_api \<Rightarrow> ofn \<Rightarrow> opcode \<Rightarrow> tvalue \<Rightarrow> tvalue \<Rightarrow> oinsn" where
  "create_binop A F opc v1 v2 =
     \<lparr>oi_id = api_new A F, oi_binop = Some opc, oi_phi = False, oi_ty = vtype v1, oi_ops = [v1, v2]\<rparr>"

text \<open>A multiplication, after the swap that puts a constant operand second; the position of the
  iterator afterwards.\<close>

definition reduce_mul ::
  "llvm_api \<Rightarrow> nat \<Rightarrow> nat \<Rightarrow> tvalue \<Rightarrow> nat \<Rightarrow> nat \<Rightarrow> opts_state \<Rightarrow> (opts_state \<times> nat) result" where
  "reduce_mul A B BI val1 w2 n2 s =
     bind_res (api_sext A w2 n2) (\<lambda>c. bind_res (find_log_improved c 0) (\<lambda>(check_pow, log_i).
       if check_pow \<noteq> - 2
       then (let F = os_fn s;
                 modified_inst = create_binop A F Shl val1 (api_const A w2 log_i);
                 (F', BI') =
                   (if check_pow = 0 then (api_replace_inst A F B BI modified_inst, BI)
                    else (let F1 = api_insert A F B BI modified_inst;
                              final_inst = create_binop A F1 (if check_pow = 1 then Add else Sub)
                                (oself modified_inst) val1
                          in (api_replace_inst A F1 B (Suc BI) final_inst, Suc BI)))
             in Inr (s\<lparr>os_fn := F', numStrengthReds := Suc (numStrengthReds s)\<rparr>, BI'))
       else Inr (s, BI)))"

definition reduce_div ::
  "llvm_api \<Rightarrow> nat \<Rightarrow> nat \<Rightarrow> tvalue \<Rightarrow> nat \<Rightarrow> nat \<Rightarrow> opts_state \<Rightarrow> (opts_state \<times> nat) result" where
  "reduce_div A B BI val1 w2 n2 s =
     bind_res (api_sext A w2 n2) (\<lambda>c.
       let log_i = find_log c
       in if log_i \<ge> 0
          then (let modified_inst = create_binop A (os_fn s) LShr val1 (api_const A w2 log_i)
                in Inr (s\<lparr>os_fn := api_replace_inst A (os_fn s) B BI modified_inst,
                     numStrengthReds := Suc (numStrengthReds s)\<rparr>, BI))
          else Inr (s, BI))"

definition strength_step :: "llvm_api \<Rightarrow> nat \<Rightarrow> nat \<Rightarrow> opts_state \<Rightarrow> (opts_state \<times> nat) result" where
  "strength_step A B BI s =
     (let inst = os_fn s ! B ! BI; val1 = oi_ops inst ! 0; val2 = oi_ops inst ! 1
      in case oi_binop inst of
           Some Mul \<Rightarrow>
             (let (val1, val2) = (if is_const val1 then (val2, val1) else (val1, val2))
              in case val2 of TConst w2 n2 \<Rightarrow> reduce_mul A B BI val1 w2 n2 s | _ \<Rightarrow> Inr (s, BI))
         | Some UDiv \<Rightarrow>
             (case val2 of TConst w2 n2 \<Rightarrow> reduce_div A B BI val1 w2 n2 s | _ \<Rightarrow> Inr (s, BI))
         | Some SDiv \<Rightarrow>
             (case val2 of TConst w2 n2 \<Rightarrow> reduce_div A B BI val1 w2 n2 s | _ \<Rightarrow> Inr (s, BI))
         | _ \<Rightarrow> Inr (s, BI))"

text \<open>\<open>inst_removed\<close> is never set here, so the iterator always moves on and the result is false.\<close>

partial_function (option) strength_loop ::
  "llvm_api \<Rightarrow> nat \<Rightarrow> nat \<Rightarrow> opts_state \<Rightarrow> (opts_state \<times> bool) result option" where
  "strength_loop A B BI s =
     (if BI < length (os_fn s ! B)
      then (case strength_step A B BI s of
              Inl e \<Rightarrow> Some (Inl e)
            | Inr (s', BI') \<Rightarrow> strength_loop A B (Suc BI') s')
      else Some (Inr (s, False)))"

definition strength_reduction :: "llvm_api \<Rightarrow> nat \<Rightarrow> opts_state \<Rightarrow> (opts_state \<times> bool) result option" where
  "strength_reduction A B s = strength_loop A B 0 s"

subsection \<open>The pass\<close>

text \<open>
  The loop over one block. The disjunctions stop at the first pass that modified the block, so
  each turn runs folding only after no identity applied, and strength reduction only after neither
  did.
\<close>

partial_function (option) opt_block :: "llvm_api \<Rightarrow> nat \<Rightarrow> opts_state \<Rightarrow> opts_state result option" where
  "opt_block A B s =
     (case algebraic_optimizations A B s of
        None \<Rightarrow> None
      | Some (s, modified) \<Rightarrow>
          if modified then opt_block A B s
          else (case constant_folding A B s of
                  None \<Rightarrow> None
                | Some (Inl e) \<Rightarrow> Some (Inl e)
                | Some (Inr (s, modified)) \<Rightarrow>
                    if modified then opt_block A B s
                    else (case strength_reduction A B s of
                            None \<Rightarrow> None
                          | Some (Inl e) \<Rightarrow> Some (Inl e)
                          | Some (Inr (s, modified)) \<Rightarrow>
                              if modified then opt_block A B s else Some (Inr s))))"

fun opt_blocks :: "llvm_api \<Rightarrow> nat list \<Rightarrow> opts_state \<Rightarrow> opts_state result option" where
  "opt_blocks A [] s = Some (Inr s)"
| "opt_blocks A (B # Bs) s =
     (case opt_block A B s of
        None \<Rightarrow> None
      | Some (Inl e) \<Rightarrow> Some (Inl e)
      | Some (Inr s) \<Rightarrow> opt_blocks A Bs s)"

text \<open>The functions of the module in turn; the statistics go from one to the next.\<close>

fun opt_functions :: "llvm_api \<Rightarrow> ofn list \<Rightarrow> opts_state \<Rightarrow> (ofn list \<times> opts_state) result option" where
  "opt_functions A [] s = Some (Inr ([], s))"
| "opt_functions A (F # M) s =
     (case opt_blocks A [0..<length F] (s\<lparr>os_fn := F\<rparr>) of
        None \<Rightarrow> None
      | Some (Inl e) \<Rightarrow> Some (Inl e)
      | Some (Inr s) \<Rightarrow>
          map_option (map_sum id (\<lambda>(M', s'). (os_fn s # M', s'))) (opt_functions A M s))"

definition printLocalOptsSummary :: "(nat \<Rightarrow> string) \<Rightarrow> opts_state \<Rightarrow> string list" where
  "printLocalOptsSummary num s =
     [''Transformations applied:'',
      ''Algebraic identities: '' @ num (numAlgebraicOpts s),
      ''Constant folding: '' @ num (numConstantFolds s),
      ''Strength reduction: '' @ num (numStrengthReds s)]"

text \<open>The module afterwards, the summary, and the result \<open>true\<close>.\<close>

definition opts_runOnModule ::
  "llvm_api \<Rightarrow> (nat \<Rightarrow> string) \<Rightarrow> ofn list \<Rightarrow> (ofn list \<times> string list \<times> bool) result option" where
  "opts_runOnModule A num M =
     map_option (map_sum id (\<lambda>(M', s). (M', printLocalOptsSummary num s, True)))
       (opt_functions A M \<lparr>os_fn = [], numAlgebraicOpts = 0, numConstantFolds = 0, numStrengthReds = 0\<rparr>)"

end
