(* ===== verification/LocalOptsSem.thy ===== *)
theory LocalOptsSem
  imports LocalOpts
begin

section \<open>Local optimizations: what code computes, and edits that keep it\<close>

text \<open>
  The meaning of a block: its instructions in order, on an environment that gives every value a
  number and a world that the instructions other than integer arithmetic change. Phi nodes take
  their value on the edge into the block, so the run of a block starts after them. An arithmetic
  result is absent where the language reference leaves it undefined. \<open>refines\<close> says that an
  edit of a block keeps what it computes, with every value that other code reads renamed by one
  substitution; the central lemma gives it for replacing one instruction by others.
\<close>

unbundle bit_operations_syntax

definition signed_of :: "nat \<Rightarrow> nat \<Rightarrow> int" where
  "signed_of w n = (if n < 2 ^ (w - 1) then int n else int n - 2 ^ w)"

definition wrap :: "nat \<Rightarrow> int \<Rightarrow> nat" where
  "wrap w x = nat (x mod 2 ^ w)"

definition osem :: "opcode \<Rightarrow> nat \<Rightarrow> nat \<Rightarrow> nat \<Rightarrow> nat option" where
  "osem opc w a b =
     (case opc of
        Add \<Rightarrow> Some (wrap w (int a + int b))
      | Sub \<Rightarrow> Some (wrap w (int a - int b))
      | Mul \<Rightarrow> Some (wrap w (int a * int b))
      | UDiv \<Rightarrow> if b = 0 then None else Some (a div b)
      | SDiv \<Rightarrow> if b = 0 \<or> signed_of w a = - (2 ^ (w - 1)) \<and> signed_of w b = - 1 then None
                else Some (wrap w (signed_of w a sdiv signed_of w b))
      | And \<Rightarrow> Some (a AND b)
      | Or \<Rightarrow> Some (a OR b)
      | Xor \<Rightarrow> Some (a XOR b)
      | Shl \<Rightarrow> if w \<le> b then None else Some (a * 2 ^ b mod 2 ^ w)
      | LShr \<Rightarrow> if w \<le> b then None else Some (a div 2 ^ b)
      | _ \<Rightarrow> None)"

definition arith :: "oinsn \<Rightarrow> (opcode \<times> nat) option" where
  "arith i =
     (case (oi_binop i, oi_ty i) of
        (Some opc, IntTy w) \<Rightarrow>
          if opc \<in> {Add, Sub, Mul, UDiv, SDiv, And, Or, Xor, Shl, LShr} then Some (opc, w) else None
      | _ \<Rightarrow> None)"

fun trunc :: "ity \<Rightarrow> nat \<Rightarrow> nat" where
  "trunc (IntTy w) x = x mod 2 ^ w"
| "trunc (OtherTy _) x = x"

definition oval :: "(tvalue \<Rightarrow> nat) \<Rightarrow> tvalue \<Rightarrow> nat" where
  "oval env v = (case v of TConst w n \<Rightarrow> n mod 2 ^ w | _ \<Rightarrow> trunc (vtype v) (env v))"

type_synonym 'w effect = "nat \<Rightarrow> nat list \<Rightarrow> 'w \<Rightarrow> (nat \<times> 'w) option"

definition ores :: "'w effect \<Rightarrow> oinsn \<Rightarrow> nat list \<Rightarrow> 'w \<Rightarrow> (nat \<times> 'w) option" where
  "ores orc i args world =
     (case arith i of
        Some (opc, w) \<Rightarrow> map_option (\<lambda>r. (r, world)) (osem opc w (args ! 0) (args ! 1))
      | None \<Rightarrow> orc (oi_id i) args world)"

fun oexec :: "'w effect \<Rightarrow> oinsn \<Rightarrow> (tvalue \<Rightarrow> nat) \<times> 'w \<Rightarrow> ((tvalue \<Rightarrow> nat) \<times> 'w) option" where
  "oexec orc i (env, world) =
     (if oi_phi i then Some (env, world)
      else (case ores orc i (map (oval env) (oi_ops i)) world of
              None \<Rightarrow> None
            | Some (r, world') \<Rightarrow> Some (env(oself i := r), world')))"

fun orun :: "'w effect \<Rightarrow> oinsn list \<Rightarrow> (tvalue \<Rightarrow> nat) \<times> 'w \<Rightarrow> ((tvalue \<Rightarrow> nat) \<times> 'w) option" where
  "orun orc [] st = Some st"
| "orun orc (i # is) st = (case oexec orc i st of None \<Rightarrow> None | Some st' \<Rightarrow> orun orc is st')"

lemma orun_append:
  "orun orc (xs @ ys) st = (case orun orc xs st of None \<Rightarrow> None | Some st' \<Rightarrow> orun orc ys st')"
  by (induction xs arbitrary: st) (auto split: option.splits)

subsection \<open>Substitution and well-formed functions\<close>

definition osubst :: "(tvalue \<Rightarrow> tvalue) \<Rightarrow> oinsn \<Rightarrow> oinsn" where
  "osubst f i = i\<lparr>oi_ops := map f (oi_ops i)\<rparr>"

lemma osubst_sel [simp]:
  "oi_id (osubst f i) = oi_id i" "oi_binop (osubst f i) = oi_binop i" "oi_phi (osubst f i) = oi_phi i"
  "oi_ty (osubst f i) = oi_ty i" "oi_ops (osubst f i) = map f (oi_ops i)" "oself (osubst f i) = oself i"
  "arith (osubst f i) = arith i"
  by (simp_all add: osubst_def oself_def arith_def)

lemma ores_osubst [simp]: "ores orc (osubst f i) args world = ores orc i args world"
  by (simp add: ores_def cong: option.case_cong)

lemma osubst_comp: "osubst g (osubst f i) = osubst (g \<circ> f) i"
  by (simp add: osubst_def)

lemma osubst_id: "(\<And>x. x \<in> set (oi_ops i) \<Longrightarrow> f x = x) \<Longrightarrow> osubst f i = i"
  by (simp add: osubst_def map_idI)

definition odefs :: "oinsn list \<Rightarrow> tvalue set" where
  "odefs is = oself ` set is"

lemma odefs_simps [simp]:
  "odefs [] = {}" "odefs (i # is) = insert (oself i) (odefs is)" "odefs (xs @ ys) = odefs xs \<union> odefs ys"
  "odefs (map (osubst f) is) = odefs is"
  by (auto simp: odefs_def image_image)

definition all_defs :: "ofn \<Rightarrow> tvalue set" where
  "all_defs F = odefs (concat F)"

definition okval :: "tvalue set \<Rightarrow> tvalue \<Rightarrow> bool" where
  "okval D x = (case x of TInst _ _ \<Rightarrow> x \<in> D | TConst w n \<Rightarrow> 0 < w \<and> n < 2 ^ w | TArg _ _ \<Rightarrow> True)"

definition okinsn :: "tvalue set \<Rightarrow> oinsn \<Rightarrow> bool" where
  "okinsn D i \<longleftrightarrow> (\<forall>x\<in>set (oi_ops i). okval D x) \<and>
     (oi_binop i \<noteq> None \<longrightarrow> \<not> oi_phi i \<and> oi_ty i \<noteq> IntTy 0 \<and>
       (\<exists>a b. oi_ops i = [a, b] \<and> vtype a = oi_ty i \<and> vtype b = oi_ty i))"

text \<open>A block reads of itself only what comes before; phi nodes read on the edge.\<close>

fun ordered :: "oinsn list \<Rightarrow> bool" where
  "ordered [] = True"
| "ordered (i # is) \<longleftrightarrow> (oi_phi i \<or> set (oi_ops i) \<inter> odefs (i # is) = {}) \<and> ordered is"

definition wf_ofn :: "nat \<Rightarrow> ofn \<Rightarrow> bool" where
  "wf_ofn B F \<longleftrightarrow> B < length F \<and> distinct (map oi_id (concat F)) \<and>
     (\<forall>i\<in>set (concat F). okinsn (all_defs F) i) \<and> ordered (F ! B)"

lemma ordered_append:
  "ordered (xs @ ys) \<longleftrightarrow> ordered xs \<and> ordered ys \<and>
     (\<forall>i\<in>set xs. oi_phi i \<or> set (oi_ops i) \<inter> odefs ys = {})"
  by (induction xs) auto

subsection \<open>Refinement\<close>

definition refines :: "nat \<Rightarrow> ofn \<Rightarrow> ofn \<Rightarrow> bool" where
  "refines B F F' \<longleftrightarrow> length F' = length F \<and>
     (\<exists>f. (\<forall>x. vtype (f x) = vtype x) \<and> (\<forall>x. okval (all_defs F) x \<longrightarrow> okval (all_defs F') (f x)) \<and>
       (\<forall>C<length F. C \<noteq> B \<longrightarrow> F' ! C = map (osubst f) (F ! C)) \<and>
       (\<forall>(orc :: nat effect) env world env' world'. orun orc (F ! B) (env, world) = Some (env', world') \<longrightarrow>
          (\<exists>env''. orun orc (F' ! B) (env, world) = Some (env'', world') \<and>
             (\<forall>x. okval (all_defs F) x \<longrightarrow> oval env'' (f x) = oval env' x))))"

lemma refines_refl: "refines B F F"
  unfolding refines_def by (intro conjI exI [of _ id]) (auto simp: osubst_id map_idI)

lemma refines_trans:
  assumes "refines B F F'" and "refines B F' F''"
  shows "refines B F F''"
proof -
  obtain f where f: "\<forall>x. vtype (f x) = vtype x" "\<forall>x. okval (all_defs F) x \<longrightarrow> okval (all_defs F') (f x)"
      "\<forall>C<length F. C \<noteq> B \<longrightarrow> F' ! C = map (osubst f) (F ! C)"
      "\<And>(orc :: nat effect) env world env' world'. orun orc (F ! B) (env, world) = Some (env', world') \<Longrightarrow>
        (\<exists>env''. orun orc (F' ! B) (env, world) = Some (env'', world') \<and>
           (\<forall>x. okval (all_defs F) x \<longrightarrow> oval env'' (f x) = oval env' x))" "length F' = length F"
    using assms(1) unfolding refines_def by blast
  obtain g where g: "\<forall>x. vtype (g x) = vtype x" "\<forall>x. okval (all_defs F') x \<longrightarrow> okval (all_defs F'') (g x)"
      "\<forall>C<length F'. C \<noteq> B \<longrightarrow> F'' ! C = map (osubst g) (F' ! C)"
      "\<And>(orc :: nat effect) env world env' world'. orun orc (F' ! B) (env, world) = Some (env', world') \<Longrightarrow>
        (\<exists>env''. orun orc (F'' ! B) (env, world) = Some (env'', world') \<and>
           (\<forall>x. okval (all_defs F') x \<longrightarrow> oval env'' (g x) = oval env' x))" "length F'' = length F'"
    using assms(2) unfolding refines_def by blast
  have "F'' ! C = map (osubst (g \<circ> f)) (F ! C)" if "C < length F" "C \<noteq> B" for C
    using f(3,5) g(3) that by (simp add: osubst_comp)
  moreover have "\<exists>env3. orun orc (F'' ! B) (env, world) = Some (env3, world') \<and>
      (\<forall>x. okval (all_defs F) x \<longrightarrow> oval env3 ((g \<circ> f) x) = oval env' x)"
    if run: "orun orc (F ! B) (env, world) = Some (env', world')" for orc :: "nat effect" and env world env' world'
  proof -
    obtain env2 where e2: "orun orc (F' ! B) (env, world) = Some (env2, world')"
        "\<forall>x. okval (all_defs F) x \<longrightarrow> oval env2 (f x) = oval env' x"
      using f(4) [OF run] by blast
    obtain env3 where "orun orc (F'' ! B) (env, world) = Some (env3, world')"
        "\<forall>x. okval (all_defs F') x \<longrightarrow> oval env3 (g x) = oval env2 x"
      using g(4) [OF e2(1)] by blast
    then show ?thesis using e2(2) f(2) by (intro exI [of _ env3]) simp
  qed
  ultimately show ?thesis
    unfolding refines_def using f(1,2,5) g(1,2,5) by (intro conjI exI [of _ "g \<circ> f"]) auto
qed

subsection \<open>Replacing one instruction\<close>

text \<open>The run of a list under a renaming that agrees with the environments on the values known.\<close>

lemma oexec_subst:
  assumes R: "\<forall>x\<in>K. oval env2 (f x) = oval env x" and ops: "oi_phi j \<or> set (oi_ops j) \<subseteq> K"
    and j: "f (oself j) = oself j" and inj: "\<forall>x\<in>K. x \<noteq> oself j \<longrightarrow> f x \<noteq> oself j"
    and run: "oexec orc j (env, world) = Some (env', world')"
  shows "\<exists>env3. oexec orc (osubst f j) (env2, world) = Some (env3, world') \<and>
    (\<forall>x\<in>K. oval env3 (f x) = oval env' x)"
proof (cases "oi_phi j")
  case True
  then show ?thesis using run R by auto
next
  case False
  have args: "map (oval env2) (oi_ops (osubst f j)) = map (oval env) (oi_ops j)"
    using R ops False by (auto simp: subset_iff)
  obtain r where r: "env' = env(oself j := r)"
      "oexec orc (osubst f j) (env2, world) = Some (env2(oself j := r), world')"
    using run False unfolding oexec.simps args by (auto split: option.splits)
  have "oval (env2(oself j := r)) (f x) = oval env' x" if "x \<in> K" for x
  proof (cases "x = oself j")
    case True
    then show ?thesis using j by (simp add: r oval_def oself_def)
  next
    case False
    then have "f x \<noteq> oself j" using inj that by blast
    then have "oval (env2(oself j := r)) (f x) = oval env2 (f x)" by (simp add: oval_def split: tvalue.split)
    moreover have "oval env' x = oval env x" using False by (simp add: r oval_def split: tvalue.split)
    ultimately show ?thesis using R that by simp
  qed
  then show ?thesis using r(2) by blast
qed

lemma orun_subst:
  assumes "\<forall>x\<in>K. oval env2 (f x) = oval env x"
    and "\<forall>j\<in>set js. (oi_phi j \<or> set (oi_ops j) \<subseteq> K) \<and> f (oself j) = oself j \<and>
      (\<forall>x\<in>K. x \<noteq> oself j \<longrightarrow> f x \<noteq> oself j)"
    and "orun orc js (env, world) = Some (env', world')"
  shows "\<exists>env3. orun orc (map (osubst f) js) (env2, world) = Some (env3, world') \<and>
    (\<forall>x\<in>K. oval env3 (f x) = oval env' x)"
  using assms
proof (induction js arbitrary: env env2 world)
  case (Cons j js)
  obtain env1 w1 where e1: "oexec orc j (env, world) = Some (env1, w1)" "orun orc js (env1, w1) = Some (env', world')"
    using Cons.prems(3) by (auto split: option.splits)
  obtain env3 where "oexec orc (osubst f j) (env2, world) = Some (env3, w1)" "\<forall>x\<in>K. oval env3 (f x) = oval env1 x"
    using oexec_subst [OF Cons.prems(1) _ _ _ e1(1)] Cons.prems(2) by auto
  then show ?case
    using Cons.IH [of env3 env1 w1] Cons.prems(2) e1(2) by auto
qed auto

lemma oexec_frame: "oexec orc i (env, world) = Some (env', world') \<Longrightarrow> x \<noteq> oself i \<Longrightarrow> oval env' x = oval env x"
  by (auto simp: oval_def split: option.splits if_splits tvalue.split)

lemma oexec_unaffected:
  "oi_phi i \<or> (\<forall>x\<in>set (oi_ops i). f x = x) \<Longrightarrow> oexec orc (osubst f i) st = oexec orc i st"
  by (cases st, cases "oi_phi i") (simp_all add: osubst_id)

lemma orun_unaffected:
  "\<forall>i\<in>set is. oi_phi i \<or> (\<forall>x\<in>set (oi_ops i). f x = x) \<Longrightarrow>
    orun orc (map (osubst f) is) st = orun orc is st"
  by (induction "is" arbitrary: st) (auto simp: oexec_unaffected split: option.splits)

definition rename :: "tvalue \<Rightarrow> tvalue \<Rightarrow> tvalue \<Rightarrow> tvalue" where
  "rename x v y = (if y = x then v else y)"

text \<open>
  \<open>implements D i mid v\<close>: the instructions \<open>mid\<close> compute in \<open>v\<close> what \<open>i\<close>
  computes, where that is defined, and change nothing else that is known.
\<close>

definition implements :: "tvalue set \<Rightarrow> oinsn \<Rightarrow> oinsn list \<Rightarrow> tvalue \<Rightarrow> bool" where
  "implements D i mid v \<longleftrightarrow>
     (\<forall>(orc :: nat effect) env world env1 world1. oexec orc i (env, world) = Some (env1, world1) \<longrightarrow>
        (\<exists>env2. orun orc mid (env, world) = Some (env2, world1) \<and> oval env2 v = oval env1 (oself i) \<and>
           (\<forall>x. okval D x \<longrightarrow> x \<noteq> oself i \<longrightarrow> oval env2 x = oval env x)))"

lemma block_run_edit:
  assumes ord: "ordered (pre @ i # post)" and imp: "implements D i mid v"
    and ops: "\<forall>j\<in>set post. \<forall>x\<in>set (oi_ops j). okval D x"
    and v: "v \<notin> odefs post" and i: "oself i \<notin> odefs post"
    and mid: "\<forall>j\<in>set mid. oself i \<notin> set (oi_ops j)"
    and run: "orun (orc :: nat effect) (pre @ i # post) (env, world) = Some (env', world')"
  defines "f \<equiv> rename (oself i) v"
  shows "\<exists>env''. orun orc (map (osubst f) (pre @ mid @ post)) (env, world) = Some (env'', world') \<and>
    (\<forall>x. okval D x \<longrightarrow> oval env'' (f x) = oval env' x)"
proof -
  obtain e0 w0 e1 w1 where r: "orun orc pre (env, world) = Some (e0, w0)"
      "oexec orc i (e0, w0) = Some (e1, w1)" "orun orc post (e1, w1) = Some (env', world')"
    using run by (auto simp: orun_append split: option.splits)
  obtain e2 where e2: "orun orc mid (e0, w0) = Some (e2, w1)" "oval e2 v = oval e1 (oself i)"
      "\<forall>x. okval D x \<longrightarrow> x \<noteq> oself i \<longrightarrow> oval e2 x = oval e0 x"
    using imp r(2) unfolding implements_def by blast
  have pre: "orun orc (map (osubst f) pre) (env, world) = Some (e0, w0)"
    using ord r(1) by (subst orun_unaffected) (auto simp: ordered_append f_def rename_def)
  have m: "orun orc (map (osubst f) mid) (e0, w0) = Some (e2, w1)"
    using mid e2(1) by (subst orun_unaffected) (auto simp: f_def rename_def)
  have R: "\<forall>x\<in>{x. okval D x}. oval e2 (f x) = oval e1 x"
    using e2(2,3) oexec_frame [OF r(2)] by (auto simp: f_def rename_def)
  have "\<exists>env''. orun orc (map (osubst f) post) (e2, w1) = Some (env'', world') \<and>
      (\<forall>x\<in>{x. okval D x}. oval env'' (f x) = oval env' x)"
  proof (rule orun_subst [OF R _ r(3)])
    show "\<forall>j\<in>set post. (oi_phi j \<or> set (oi_ops j) \<subseteq> {x. okval D x}) \<and> f (oself j) = oself j \<and>
        (\<forall>x\<in>{x. okval D x}. x \<noteq> oself j \<longrightarrow> f x \<noteq> oself j)"
    proof
      fix j
      assume j: "j \<in> set post"
      then have "oself j \<noteq> v" "oself j \<noteq> oself i" using v i unfolding odefs_def by (metis imageI)+
      then show "(oi_phi j \<or> set (oi_ops j) \<subseteq> {x. okval D x}) \<and> f (oself j) = oself j \<and>
          (\<forall>x\<in>{x. okval D x}. x \<noteq> oself j \<longrightarrow> f x \<noteq> oself j)"
        using ops j by (auto simp: f_def rename_def)
    qed
  qed
  then show ?thesis using pre m by (auto simp: orun_append)
qed

text \<open>
  \<open>replacement D ids i mid post v\<close>: the new instructions have new identities and operands of
  the right type that are defined before them, and implement the old one.
\<close>

definition replacement ::
  "tvalue set \<Rightarrow> nat set \<Rightarrow> oinsn \<Rightarrow> oinsn list \<Rightarrow> oinsn list \<Rightarrow> tvalue \<Rightarrow> bool" where
  "replacement D ids i mid post v \<longleftrightarrow>
     (let D' = D - {oself i} \<union> odefs mid
      in vtype v = oi_ty i \<and> v \<noteq> oself i \<and> v \<notin> odefs post \<and> okval D' v \<and>
         (\<forall>j\<in>set mid. okinsn D' j \<and> oself i \<notin> set (oi_ops j)) \<and>
         distinct (map oi_id mid) \<and> oi_id ` set mid \<inter> ids = {} \<and> ordered (mid @ post) \<and>
         implements D i mid v)"

lemma okval_rename:
  assumes "okval D x" and "okval D' v" and "D - {y} \<subseteq> D'"
  shows "okval D' (rename y v x)"
  using assms by (auto simp: okval_def rename_def split: tvalue.splits)

lemma okinsn_rename:
  assumes "okinsn D j" and "okval D' v" and "D - {y} \<subseteq> D'" and "vtype v = vtype y"
  shows "okinsn D' (osubst (rename y v) j)"
proof -
  have "vtype (rename y v x) = vtype x" for x using assms(4) by (simp add: rename_def)
  then show ?thesis
    using assms(1) okval_rename [OF _ assms(2,3)] unfolding okinsn_def by (auto simp: o_def)
qed

lemma ordered_rename:
  assumes "ordered is" and "v \<notin> odefs is"
  shows "ordered (map (osubst (rename y v)) is)"
  using assms by (induction "is") (auto simp: rename_def)

lemma ordered_unaffected:
  "\<forall>i\<in>set is. oi_phi i \<or> (\<forall>x\<in>set (oi_ops i). f x = x) \<Longrightarrow> ordered is \<Longrightarrow> ordered (map (osubst f) is)"
  by (induction "is") auto

lemma ordered_edit:
  assumes "ordered (pre @ i # post)" and "ordered (mid @ post)" and "v \<notin> odefs post"
    and mid: "\<forall>j\<in>set mid. oself i \<notin> set (oi_ops j)"
    and pre: "\<forall>j\<in>set pre. set (oi_ops j) \<inter> odefs mid = {}"
  shows "ordered (map (osubst (rename (oself i) v)) (pre @ mid @ post))"
proof -
  let ?f = "rename (oself i) v"
  have 1: "\<forall>j\<in>set pre. oi_phi j \<or> (\<forall>x\<in>set (oi_ops j). ?f x = x)"
    using assms(1) by (auto simp: ordered_append rename_def)
  have 2: "\<forall>j\<in>set mid. oi_phi j \<or> (\<forall>x\<in>set (oi_ops j). ?f x = x)"
    using mid by (auto simp: rename_def)
  have "ordered (map (osubst ?f) pre)" "ordered (map (osubst ?f) mid)" "ordered (map (osubst ?f) post)"
    using assms(1-3) ordered_unaffected [OF 1] ordered_unaffected [OF 2] ordered_rename
    by (auto simp: ordered_append)
  moreover have "oi_phi j \<or> ?f ` set (oi_ops j) \<inter> (odefs mid \<union> odefs post) = {}" if "j \<in> set pre" for j
  proof -
    have "oi_phi j \<or> ?f ` set (oi_ops j) = set (oi_ops j)" using 1 that by force
    moreover have "oi_phi j \<or> set (oi_ops j) \<inter> (odefs mid \<union> odefs post) = {}"
      using pre assms(1) that by (auto simp: ordered_append)
    ultimately show ?thesis by (elim disjE) simp_all
  qed
  moreover have "oi_phi j \<or> ?f ` set (oi_ops j) \<inter> odefs post = {}" if "j \<in> set mid" for j
  proof -
    have "oi_phi j \<or> ?f ` set (oi_ops j) = set (oi_ops j)" using 2 that by force
    moreover have "oi_phi j \<or> set (oi_ops j) \<inter> odefs post = {}"
      using assms(2) that by (auto simp: ordered_append)
    ultimately show ?thesis by (elim disjE) simp_all
  qed
  ultimately show ?thesis by (simp add: ordered_append)
qed

lemma fresh_defs:
  assumes "oi_id ` set mid \<inter> oi_id ` set (concat F) = {}" and "okinsn (all_defs F) j"
  shows "set (oi_ops j) \<inter> odefs mid = {}"
proof (rule ccontr)
  assume "set (oi_ops j) \<inter> odefs mid \<noteq> {}"
  then obtain k where k: "k \<in> set mid" "oself k \<in> set (oi_ops j)" by (auto simp: odefs_def)
  then have "okval (all_defs F) (oself k)" using assms(2) by (simp add: okinsn_def)
  then have "oself k \<in> all_defs F" by (simp add: okval_def oself_def)
  then obtain l where "l \<in> set (concat F)" "oself k = oself l" unfolding all_defs_def odefs_def by blast
  then have "oi_id k \<in> oi_id ` set mid \<inter> oi_id ` set (concat F)"
    using k(1) unfolding oself_def by (metis IntI imageI tvalue.inject(1))
  then show False using assms(1) by blast
qed

definition edited :: "ofn \<Rightarrow> oinsn list \<Rightarrow> oinsn \<Rightarrow> oinsn list \<Rightarrow> oinsn list \<Rightarrow> ofn \<Rightarrow> tvalue \<Rightarrow> ofn" where
  "edited L pre i mid post R v = map (map (osubst (rename (oself i) v))) (L @ (pre @ mid @ post) # R)"

lemma edited_ids:
  assumes "distinct (map oi_id (concat (L @ (pre @ i # post) # R)))"
    and j: "j \<in> set (concat L @ pre @ post @ concat R)"
  shows "oself j \<noteq> oself i"
proof
  assume "oself j = oself i"
  then have "oi_id i = oi_id j" by (simp add: oself_def)
  with j have "oi_id i \<in> oi_id ` set (concat L @ pre @ post @ concat R)" by (rule rev_image_eqI)
  moreover have "oi_id i \<notin> oi_id ` set (concat L @ pre @ post @ concat R)"
    using assms(1) by (simp add: image_Un)
  ultimately show False by contradiction
qed

lemma all_defs_subst [simp]: "all_defs (map (map (osubst f)) X) = all_defs X"
  by (simp add: all_defs_def map_concat [symmetric])

lemma all_defs_append [simp]:
  "all_defs (X @ Y) = all_defs X \<union> all_defs Y" "all_defs (b # X) = odefs b \<union> all_defs X"
  by (simp_all add: all_defs_def)

lemma edited_defs:
  assumes "distinct (map oi_id (concat (L @ (pre @ i # post) # R)))"
  shows "all_defs (edited L pre i mid post R v) = all_defs (L @ (pre @ i # post) # R) - {oself i} \<union> odefs mid"
proof -
  have "oself i \<noteq> oself j" if "j \<in> set (concat L @ pre @ post @ concat R)" for j
    using edited_ids [OF assms that] by simp
  then have "oself i \<notin> all_defs L \<union> odefs pre \<union> odefs post \<union> all_defs R"
    by (auto simp: all_defs_def odefs_def)
  then show ?thesis by (auto simp: edited_def simp del: map_append list.map)
qed

lemma map_id_subst: "map oi_id (concat (map (map (osubst f)) X)) = map oi_id (concat X)"
  by (induction X) simp_all

lemma distinct_replace:
  "distinct (a @ p @ x # q @ b) \<Longrightarrow> distinct m \<Longrightarrow> set m \<inter> set (a @ p @ x # q @ b) = {} \<Longrightarrow>
    distinct (a @ p @ m @ q @ b)"
  by auto

lemma edit_wf:
  assumes wf: "wf_ofn B F" and F: "F = L @ (pre @ i # post) # R" "length L = B"
    and rep: "replacement (all_defs F) (oi_id ` set (concat F)) i mid post v"
  shows "wf_ofn B (edited L pre i mid post R v)"
proof -
  let ?F = "edited L pre i mid post R v" and ?f = "rename (oself i) v"
  have ids: "distinct (map oi_id (concat F))" and ok: "\<forall>i\<in>set (concat F). okinsn (all_defs F) i"
    and ord: "ordered (pre @ i # post)"
    using wf F by (simp_all add: wf_ofn_def nth_append del: set_concat)
  have D': "all_defs ?F = all_defs F - {oself i} \<union> odefs mid"
    using edited_defs ids unfolding F(1) by blast
  have r: "vtype v = oi_ty i" "v \<notin> odefs post" "okval (all_defs ?F) v"
      "\<forall>j\<in>set mid. okinsn (all_defs ?F) j \<and> oself i \<notin> set (oi_ops j)" "distinct (map oi_id mid)"
      "oi_id ` set mid \<inter> oi_id ` set (concat F) = {}" "ordered (mid @ post)"
    using rep unfolding replacement_def Let_def D' by - (elim conjE, assumption)+
  have sub: "all_defs F - {oself i} \<subseteq> all_defs ?F" unfolding D' by blast
  have "okinsn (all_defs ?F) (osubst ?f j)" if "j \<in> set (concat (L @ (pre @ mid @ post) # R))" for j
  proof (cases "j \<in> set mid")
    case True
    then have "osubst ?f j = j" using r(4) by (intro osubst_id) (auto simp: rename_def)
    then show ?thesis using r(4) True by simp
  next
    case False
    then have "j \<in> set (concat F)" using that unfolding F(1) by auto
    then have "okinsn (all_defs F) j" using ok by blast
    then show ?thesis using r(1,3) sub by (intro okinsn_rename) (simp_all add: oself_def)
  qed
  moreover have "set (concat ?F) = osubst ?f ` set (concat (L @ (pre @ mid @ post) # R))"
    unfolding edited_def map_concat [symmetric] by (rule set_map)
  ultimately have ok': "\<forall>j\<in>set (concat ?F). okinsn (all_defs ?F) j"
    by (simp only: ball_simps) blast
  have "set (oi_ops j) \<inter> odefs mid = {}" if "j \<in> set pre" for j
  proof (rule fresh_defs [OF r(6)])
    show "okinsn (all_defs F) j" using ok that unfolding F(1) by simp
  qed
  then have "ordered (map (osubst ?f) (pre @ mid @ post))"
    using ord r(2,4,7) by (intro ordered_edit) simp_all
  moreover have "?F ! B = map (osubst ?f) (pre @ mid @ post)"
    using F(2) by (simp add: edited_def nth_append)
  moreover have "distinct (map oi_id (concat ?F))"
  proof -
    have "distinct (map oi_id (concat L) @ map oi_id pre @ map oi_id mid @ map oi_id post @ map oi_id (concat R))"
      by (rule distinct_replace [where x = "oi_id i"]) (use ids r(5,6) in \<open>simp_all add: F(1) image_Un\<close>)
    then show ?thesis unfolding edited_def map_id_subst by simp
  qed
  moreover have "B < length ?F" using F(2) by (simp add: edited_def)
  ultimately show ?thesis using ok' unfolding wf_ofn_def by simp
qed

lemma edit_refines:
  assumes wf: "wf_ofn B F" and F: "F = L @ (pre @ i # post) # R" "length L = B"
    and rep: "replacement (all_defs F) (oi_id ` set (concat F)) i mid post v"
  shows "refines B F (edited L pre i mid post R v)"
proof -
  let ?F = "edited L pre i mid post R v" and ?f = "rename (oself i) v"
  have ids: "distinct (map oi_id (concat F))" and ok: "\<forall>i\<in>set (concat F). okinsn (all_defs F) i"
    and ord: "ordered (pre @ i # post)"
    using wf F by (simp_all add: wf_ofn_def nth_append del: set_concat)
  have D': "all_defs ?F = all_defs F - {oself i} \<union> odefs mid"
    using edited_defs ids unfolding F(1) by blast
  have r: "vtype v = oi_ty i" "v \<notin> odefs post" "okval (all_defs ?F) v"
      "\<forall>j\<in>set mid. okinsn (all_defs ?F) j \<and> oself i \<notin> set (oi_ops j)" "implements (all_defs F) i mid v"
    using rep unfolding replacement_def Let_def D' by - (elim conjE, assumption)+
  have blk: "F ! B = pre @ i # post" "?F ! B = map (osubst ?f) (pre @ mid @ post)"
    using F by (simp_all add: edited_def nth_append)
  have "oself i \<noteq> oself j" if "j \<in> set post" for j
    using edited_ids [of L pre i post R j] ids that unfolding F(1) by simp
  then have i: "oself i \<notin> odefs post" by (auto simp: odefs_def)
  have "okinsn (all_defs F) j" if "j \<in> set post" for j
    using ok that unfolding F(1) by simp
  then have ops: "\<forall>j\<in>set post. \<forall>x\<in>set (oi_ops j). okval (all_defs F) x"
    by (simp add: okinsn_def)
  have run: "\<exists>env''. orun orc (?F ! B) (env, world) = Some (env'', world') \<and>
      (\<forall>x. okval (all_defs F) x \<longrightarrow> oval env'' (?f x) = oval env' x)"
    if "orun orc (F ! B) (env, world) = Some (env', world')" for orc :: "nat effect" and env world env' world'
    unfolding blk(2)
  proof (rule block_run_edit [OF ord r(5) ops r(2) i])
    show "\<forall>j\<in>set mid. oself i \<notin> set (oi_ops j)" using r(4) by blast
    show "orun orc (pre @ i # post) (env, world) = Some (env', world')" using that unfolding blk(1) .
  qed
  show ?thesis
    unfolding refines_def
  proof (intro conjI exI [of _ ?f] allI impI)
    show "length ?F = length F" using F by (simp add: edited_def)
    show "vtype (?f x) = vtype x" for x using r(1) by (simp add: rename_def oself_def)
    show "okval (all_defs ?F) (?f x)" if "okval (all_defs F) x" for x
      by (rule okval_rename [OF that r(3)]) (unfold D', blast)
    show "?F ! C = map (osubst ?f) (F ! C)" if "C < length F" "C \<noteq> B" for C
      using that F by (auto simp: edited_def nth_append nth_Cons split: nat.splits)
  qed (rule run)
qed

end
