(* ===== verification/LocalOptsCorrect.thy ===== *)
theory LocalOptsCorrect
  imports LocalOptsSem
begin

section \<open>Local optimizations: correctness\<close>

text \<open>
  What LLVM documents of the operations the pass calls is the locale \<open>llvm_edits\<close>. Under it
  every identity, fold and reduction is one edit of the previous theory; the loops terminate because
  an edit that removes an instruction shortens the block, and the results of the single edits
  compose. Where a reduction is wrong the last section evaluates it on a small function.
\<close>

locale llvm_edits =
  fixes A :: llvm_api
  assumes replace_value: "B < length F \<Longrightarrow> BI < length (F ! B) \<Longrightarrow>
      api_replace_value A F B BI v = map (map (osubst (rename (oself (F ! B ! BI)) v)))
        (F[B := take BI (F ! B) @ drop (Suc BI) (F ! B)])"
    and replace_inst: "B < length F \<Longrightarrow> BI < length (F ! B) \<Longrightarrow>
      api_replace_inst A F B BI j = map (map (osubst (rename (oself (F ! B ! BI)) (oself j))))
        (F[B := (F ! B)[BI := j]])"
    and insert_inst: "B < length F \<Longrightarrow> BI < length (F ! B) \<Longrightarrow>
      api_insert A F B BI j = F[B := take BI (F ! B) @ j # drop BI (F ! B)]"
    and sext: "0 < w \<Longrightarrow> n < 2 ^ w \<Longrightarrow>
      api_sext A w n = (if - (2 ^ 63) \<le> signed_of w n \<and> signed_of w n < 2 ^ 63
        then Inr (signed_of w n) else Inl AssertionFailed)"
    and const: "- (2 ^ 63) \<le> x \<Longrightarrow> x < 2 ^ 63 \<Longrightarrow>
      api_const A w x = TConst w (nat (x mod 2 ^ 64 mod 2 ^ w))"
    and new_id: "api_new A F \<notin> oi_id ` set (concat F)"

text \<open>Operations that do exactly this, for the concrete instances.\<close>

definition std_api :: llvm_api where
  "std_api = \<lparr>
     api_replace_value = (\<lambda>F B BI v. map (map (osubst (rename (oself (F ! B ! BI)) v)))
       (F[B := take BI (F ! B) @ drop (Suc BI) (F ! B)])),
     api_replace_inst = (\<lambda>F B BI n. map (map (osubst (rename (oself (F ! B ! BI)) (oself n))))
       (F[B := (F ! B)[BI := n]])),
     api_insert = (\<lambda>F B BI n. F[B := take BI (F ! B) @ n # drop BI (F ! B)]),
     api_sext = (\<lambda>w n. if - (2 ^ 63) \<le> signed_of w n \<and> signed_of w n < 2 ^ 63
       then Inr (signed_of w n) else Inl AssertionFailed),
     api_const = (\<lambda>w x. TConst w (nat (x mod 2 ^ 64 mod 2 ^ w))),
     api_new = (\<lambda>F. Suc (fold max (map oi_id (concat F)) 0))\<rparr>"

lemma fold_max_bound: "x \<in> set xs \<Longrightarrow> x \<le> fold max xs (a :: nat)"
proof (induction xs arbitrary: a)
  case (Cons y xs)
  have "b \<le> fold max ys b" for ys and b :: nat
    by (induction ys arbitrary: b) (auto intro: order.trans [OF max.cobounded2])
  from this [of "max y a" xs] show ?case using Cons by (auto intro: order.trans [OF max.cobounded1])
qed simp

interpretation std: llvm_edits std_api
proof
  show "api_new std_api F \<notin> oi_id ` set (concat F)" for F
    using fold_max_bound [of _ "map oi_id (concat F)" 0] by (force simp: std_api_def)
qed (simp_all add: std_api_def)

subsection \<open>Integers of a given width\<close>

lemma oval_bound: "vtype v = IntTy w \<Longrightarrow> oval env v < 2 ^ w"
  by (cases v) (auto simp: oval_def)

lemma wrap_nat: "x < 2 ^ w \<Longrightarrow> wrap w (int x) = x"
  by (simp add: wrap_def nat_mod_distrib nat_power_eq)

lemma wrap_signed: "x < 2 ^ w \<Longrightarrow> wrap w (signed_of w x) = x"
proof -
  assume "x < 2 ^ w"
  moreover have "(int x - 2 ^ w) mod 2 ^ w = int x mod 2 ^ w" by simp
  ultimately show ?thesis by (simp add: wrap_nat [unfolded wrap_def] wrap_def signed_of_def)
qed

lemma int_less_width: "x < 2 ^ w \<Longrightarrow> int x < 2 ^ w"
  using of_nat_less_iff [of x "2 ^ w", where 'a = int] by simp

lemma signed_bounds:
  assumes "0 < w" and "x < 2 ^ w"
  shows "- (2 ^ (w - 1)) \<le> signed_of w x" and "signed_of w x < 2 ^ (w - 1)"
proof -
  have "(2 :: int) ^ w = 2 * 2 ^ (w - 1)" using assms(1) by (cases w) simp_all
  moreover have "int x < 2 ^ w" using assms(2) by (rule int_less_width)
  moreover have "x < 2 ^ (w - 1) \<longleftrightarrow> int x < 2 ^ (w - 1)"
    using of_nat_less_iff [of x "2 ^ (w - 1)", where 'a = int] by simp
  ultimately show "- (2 ^ (w - 1)) \<le> signed_of w x" and "signed_of w x < 2 ^ (w - 1)"
    unfolding signed_of_def by (auto split: if_splits)
qed

lemma signed_mod: "signed_of w x mod 2 ^ w = int x mod 2 ^ w"
  by (simp add: signed_of_def)

lemma signed_zero: "0 < w \<Longrightarrow> x < 2 ^ w \<Longrightarrow> signed_of w x = 0 \<longleftrightarrow> x = 0"
proof -
  assume "0 < w" and x: "x < 2 ^ w"
  have "int x < 2 ^ w" using x by (rule int_less_width)
  moreover have "0 < x" if "\<not> x < 2 ^ (w - 1)"
    using that by (metis gr0I zero_less_numeral zero_less_power)
  ultimately show ?thesis by (auto simp: signed_of_def)
qed

subsection \<open>The identities\<close>

lemma const_is_val: "const_is a k \<Longrightarrow> vtype a = IntTy w \<Longrightarrow> k < 2 ^ w \<Longrightarrow> oval env a = k"
  by (auto simp: const_is_def oval_def split: tvalue.splits)

lemma const_val: "oval env (TConst w k) = k mod 2 ^ w"
  by (simp add: oval_def)

lemma one_less_width: "0 < w \<Longrightarrow> (1 :: nat) < 2 ^ w"
  by (rule one_less_power) simp_all

lemma sdiv_self_int: "(y :: int) \<noteq> 0 \<Longrightarrow> y sdiv y = 1"
  by (simp add: signed_divide_int_def sgn_mult_self_eq)

lemma sdiv_one: "0 < w \<Longrightarrow> osem SDiv w x 1 = Some r \<Longrightarrow> x < 2 ^ w \<Longrightarrow> r = x"
proof (cases "w = 1")
  case True
  assume "osem SDiv w x 1 = Some r" and "x < 2 ^ w"
  with True have "x = 0 \<or> x = 1" and "osem SDiv 1 x 1 = Some r" by auto
  then show ?thesis using True by (auto simp: osem_def signed_of_def wrap_def split: if_splits)
next
  case False
  assume "0 < w" and d: "osem SDiv w x 1 = Some r" and x: "x < 2 ^ w"
  then have "(1 :: nat) < 2 ^ (w - 1)" using False one_less_width [of "w - 1"] by linarith
  then have "signed_of w 1 = 1" by (simp add: signed_of_def)
  then show ?thesis using d wrap_signed [OF x] by (auto simp: osem_def split: if_splits)
qed

lemma sdiv_same: "0 < w \<Longrightarrow> osem SDiv w x x = Some r \<Longrightarrow> x < 2 ^ w \<Longrightarrow> r = 1 mod 2 ^ w"
  using signed_zero [of w x]
  by (auto simp: osem_def wrap_def sdiv_self_int nat_mod_distrib nat_power_eq split: if_splits)

lemma sdiv_zero: "0 < w \<Longrightarrow> osem SDiv w 0 x = Some r \<Longrightarrow> r = 0"
  by (auto simp: osem_def wrap_def signed_of_def split: if_splits)

lemma algebraic_value_cases:
  assumes "algebraic_value w opc a b = Some v"
  obtains "opc \<in> {Add, Or, Xor}" "const_is a 0" "v = b" | "opc \<in> {Add, Sub, Or, Xor}" "const_is b 0" "v = a"
  | "opc = Sub" "a = b" "v = TConst w 0" | "opc \<in> {Mul, UDiv, SDiv}" "const_is b 1" "v = a"
  | "opc = Mul" "const_is a 1" "v = b" | "opc \<in> {Mul, And}" "const_is a 0 \<or> const_is b 0" "v = TConst w 0"
  | "opc \<in> {UDiv, SDiv}" "const_is a 0" "v = TConst w 0" | "opc \<in> {UDiv, SDiv}" "a = b" "v = TConst w 1"
  using assms by (cases opc) (auto simp: algebraic_defs split: if_splits)

lemma osem_units:
  assumes w: "0 < w" and x: "x < 2 ^ w"
  shows "opc \<in> {Add, Or, Xor} \<Longrightarrow> osem opc w 0 x = Some r \<Longrightarrow> r = x"
    and "opc \<in> {Add, Sub, Or, Xor} \<Longrightarrow> osem opc w x 0 = Some r \<Longrightarrow> r = x"
    and "osem Sub w x x = Some r \<Longrightarrow> r = 0"
    and "opc \<in> {Mul, UDiv, SDiv} \<Longrightarrow> osem opc w x 1 = Some r \<Longrightarrow> r = x"
    and "osem Mul w 1 x = Some r \<Longrightarrow> r = x"
    and "opc \<in> {Mul, And} \<Longrightarrow> osem opc w 0 x = Some r \<Longrightarrow> r = 0"
    and "opc \<in> {Mul, And} \<Longrightarrow> osem opc w x 0 = Some r \<Longrightarrow> r = 0"
    and "opc \<in> {UDiv, SDiv} \<Longrightarrow> osem opc w 0 x = Some r \<Longrightarrow> r = 0"
    and "opc \<in> {UDiv, SDiv} \<Longrightarrow> osem opc w x x = Some r \<Longrightarrow> r = 1 mod 2 ^ w"
proof -
  show "r = x" if "opc \<in> {Mul, UDiv, SDiv}" "osem opc w x 1 = Some r"
    using that sdiv_one [OF w _ x, of r] wrap_nat [OF x] by (auto simp: osem_def)
  show "r = 0" if "opc \<in> {UDiv, SDiv}" "osem opc w 0 x = Some r"
    using that sdiv_zero [OF w, of x r] by (auto simp: osem_def split: if_splits)
  show "r = 1 mod 2 ^ w" if "opc \<in> {UDiv, SDiv}" "osem opc w x x = Some r"
    using that sdiv_same [OF w _ x, of r] one_less_width [OF w] by (auto simp: osem_def split: if_splits)
qed (use wrap_nat [OF x] in \<open>auto simp: osem_def wrap_def\<close>)

lemma algebraic_value_ok:
  assumes v: "algebraic_value w opc a b = Some v" and w: "0 < w"
    and t: "vtype a = IntTy w" "vtype b = IntTy w"
    and r: "osem opc w (oval env a) (oval env b) = Some r"
  shows "oval env v = r mod 2 ^ w"
proof -
  note bounds = oval_bound [OF t(1), of env] oval_bound [OF t(2), of env]
  have c: "const_is a k \<Longrightarrow> k < 2 ^ w \<Longrightarrow> oval env a = k" "const_is b k \<Longrightarrow> k < 2 ^ w \<Longrightarrow> oval env b = k" for k
    using const_is_val t by blast+
  have zero: "(0 :: nat) < 2 ^ w" and one: "(1 :: nat) < 2 ^ w" using one_less_width [OF w] by simp_all
  note units = osem_units [OF w bounds(1)] osem_units [OF w bounds(2)]
  show ?thesis
    using v
  proof (cases rule: algebraic_value_cases)
    case 1
    then have "r = oval env b" using r units(10) [of opc r] unfolding c(1) [OF 1(2) zero] by blast
    then show ?thesis using 1(3) bounds(2) by simp
  next
    case 2
    then have "r = oval env a" using r units(2) [of opc r] unfolding c(2) [OF 2(2) zero] by blast
    then show ?thesis using 2(3) bounds(1) by simp
  next
    case 3
    then have "r = 0" using r units(3) [of r] by blast
    then show ?thesis using 3(3) by (simp add: const_val)
  next
    case 4
    then have "r = oval env a" using r units(4) [of opc r] unfolding c(2) [OF 4(2) one] by blast
    then show ?thesis using 4(3) bounds(1) by simp
  next
    case 5
    then have "r = oval env b" using r units(14) [of r] unfolding c(1) [OF 5(2) one] by blast
    then show ?thesis using 5(3) bounds(2) by simp
  next
    case 6
    then have "r = 0" using r units(7) [of opc r] units(15) [of opc r] c(1) [OF _ zero] c(2) [OF _ zero] by metis
    then show ?thesis using 6(3) by (simp add: const_val)
  next
    case 7
    then have "r = 0" using r units(17) [of opc r] unfolding c(1) [OF 7(2) zero] by blast
    then show ?thesis using 7(3) by (simp add: const_val)
  next
    case 8
    then have "r = 1 mod 2 ^ w" using r units(9) [of opc r] by blast
    then show ?thesis using 8(3) by (simp only: const_val mod_mod_trivial)
  qed
qed

subsection \<open>One edit of the block\<close>

lemma block_split:
  assumes "B < length F" and "BI < length (F ! B)"
  shows "F = take B F @ (take BI (F ! B) @ F ! B ! BI # drop (Suc BI) (F ! B)) # drop (Suc B) F"
    and "length (take B F) = B"
  using assms by (simp_all add: id_take_nth_drop [symmetric])

lemma arith_binop:
  "arith i = Some (opc, w) \<Longrightarrow> oi_binop i = Some opc \<and> oi_ty i = IntTy w"
  by (auto simp: arith_def split: option.splits ity.splits if_splits)

text \<open>An operand or a constant that has the value of the instruction may replace it.\<close>

lemma implements_value:
  assumes "arith i = Some (opc, w)" and "\<not> oi_phi i" and "oi_ops i = [a, b]"
    and "\<And>env r. osem opc w (oval env a) (oval env b) = Some r \<Longrightarrow> oval env v = r mod 2 ^ w"
  shows "implements D i [] v"
proof -
  have "oself i = TInst (IntTy w) (oi_id i)" using arith_binop [OF assms(1)] by (simp add: oself_def)
  then have self: "oval (env(oself i := r)) (oself i) = r mod 2 ^ w" for env r by (simp add: oval_def)
  show ?thesis
    unfolding implements_def using assms self by (auto simp: ores_def split: option.splits)
qed

lemma replacement_value:
  assumes i: "okinsn D i" "arith i = Some (opc, w)" "oi_ops i = [a, b]" and ord: "ordered (i # post)"
    and v: "v = a \<or> v = b \<or> (\<exists>n. v = TConst w n \<and> n < 2 ^ w)"
    and val: "\<And>env r. osem opc w (oval env a) (oval env b) = Some r \<Longrightarrow> oval env v = r mod 2 ^ w"
  shows "replacement D ids i [] post v"
proof -
  have bin: "oi_binop i = Some opc" "oi_ty i = IntTy w" using arith_binop [OF i(2)] by auto
  then have phi: "\<not> oi_phi i" and w: "0 < w" and t: "vtype a = IntTy w" "vtype b = IntTy w"
    and ok: "okval D a" "okval D b"
    using i(1,3) by (auto simp: okinsn_def)
  have fresh: "a \<notin> odefs (i # post)" "b \<notin> odefs (i # post)" using ord phi i(3) by auto
  have "v \<notin> odefs (i # post)" using v fresh by (auto simp: odefs_def oself_def)
  moreover have "vtype v = IntTy w" using v t by auto
  moreover have "okval (D - {oself i}) v" using v ok w fresh by (auto simp: okval_def split: tvalue.splits)
  ultimately show ?thesis
    unfolding replacement_def using implements_value [OF i(2) phi i(3) val] bin ord by (simp add: Let_def)
qed

lemma edited_length: "length L = B \<Longrightarrow> length (edited L pre i mid post R v ! B) = length pre + length mid + length post"
  by (simp add: edited_def nth_append)

context llvm_edits begin

lemma replace_value_ok:
  assumes wf: "wf_ofn B F" and BI: "BI < length (F ! B)"
    and i: "i = F ! B ! BI" "arith i = Some (opc, w)" "oi_ops i = [a, b]"
    and v: "v = a \<or> v = b \<or> (\<exists>n. v = TConst w n \<and> n < 2 ^ w)"
    and val: "\<And>env r. osem opc w (oval env a) (oval env b) = Some r \<Longrightarrow> oval env v = r mod 2 ^ w"
  defines "F' \<equiv> api_replace_value A F B BI v"
  shows "wf_ofn B F'" and "refines B F F'"
proof -
  have B: "B < length F" using wf by (simp add: wf_ofn_def)
  let ?L = "take B F" and ?pre = "take BI (F ! B)" and ?post = "drop (Suc BI) (F ! B)" and ?R = "drop (Suc B) F"
  note sp = block_split [OF B BI, folded i(1)]
  have F': "F' = edited ?L ?pre i [] ?post ?R v"
    unfolding F'_def replace_value [OF B BI] edited_def i(1) by (simp add: upd_conv_take_nth_drop [OF B])
  have "i \<in> set (concat F)" using B BI i(1) by (auto intro!: bexI [of _ "F ! B"])
  then have ok: "okinsn (all_defs F) i" using wf unfolding wf_ofn_def by blast
  have "F ! B = ?pre @ i # ?post" using BI i(1) by (simp add: id_take_nth_drop [symmetric])
  moreover have "ordered (F ! B)" using wf by (simp add: wf_ofn_def)
  ultimately have ord: "ordered (i # ?post)" by (metis ordered_append)
  have rep: "replacement (all_defs F) (oi_id ` set (concat F)) i [] ?post v"
    by (rule replacement_value [OF ok i(2,3) ord v val])
  show "wf_ofn B F'" unfolding F' by (rule edit_wf [OF wf sp rep])
  show "refines B F F'" unfolding F' by (rule edit_refines [OF wf sp rep])
qed

lemma replace_value_length:
  assumes "B < length F" and "BI < length (F ! B)"
  shows "length (api_replace_value A F B BI v ! B) = length (F ! B) - 1"
    and "length (api_replace_value A F B BI v) = length F"
  using assms by (simp_all add: replace_value)

end

text \<open>What the two passes that remove instructions do to the counters and the block.\<close>

definition removed :: "opts_state \<Rightarrow> nat" where
  "removed s = numAlgebraicOpts s + numConstantFolds s"

definition progress :: "nat \<Rightarrow> opts_state \<Rightarrow> opts_state \<Rightarrow> bool" where
  "progress B s s' \<longleftrightarrow> length (os_fn s') = length (os_fn s) \<and> removed s \<le> removed s' \<and>
     length (os_fn s' ! B) + removed s' = length (os_fn s ! B) + removed s"

lemma progress_refl: "progress B s s"
  by (simp add: progress_def)

lemma progress_trans: "progress B s t \<Longrightarrow> progress B t u \<Longrightarrow> progress B s u"
  by (simp add: progress_def)

context llvm_edits begin

subsection \<open>Algebraic identities\<close>

lemma algebraic_value_shape:
  "algebraic_value w opc a b = Some v \<Longrightarrow> 0 < w \<Longrightarrow>
    (v = a \<or> v = b \<or> (\<exists>n. v = TConst w n \<and> n < 2 ^ w)) \<and> opc \<in> {Add, Sub, Mul, UDiv, SDiv, And, Or, Xor}"
  using one_less_width [of w]
  by (cases opc) (auto simp: algebraic_defs split: if_splits)

lemma algebraic_step_ok:
  assumes wf: "wf_ofn B (os_fn s)" and BI: "BI < length (os_fn s ! B)"
    and step: "algebraic_step A B BI s = (s', True)"
  shows "wf_ofn B (os_fn s')" and "refines B (os_fn s) (os_fn s')"
proof -
  let ?F = "os_fn s" and ?i = "os_fn s ! B ! BI"
  obtain opc w v where i: "oi_binop ?i = Some opc" "oi_ty ?i = IntTy w"
      and v: "algebraic_value w opc (oi_ops ?i ! 0) (oi_ops ?i ! 1) = Some v"
      and s': "os_fn s' = api_replace_value A ?F B BI v"
    using step by (auto simp: algebraic_step_def Let_def split: option.splits ity.splits)
  have "?i \<in> set (concat ?F)" using wf BI by (auto simp: wf_ofn_def intro!: bexI [of _ "?F ! B"])
  then have "okinsn (all_defs ?F) ?i" using wf unfolding wf_ofn_def by blast
  then obtain a b where ab: "oi_ops ?i = [a, b]" "vtype a = IntTy w" "vtype b = IntTy w" and w: "0 < w"
    using i by (auto simp: okinsn_def)
  have v': "algebraic_value w opc a b = Some v" using v ab(1) by simp
  note sh = algebraic_value_shape [OF v' w]
  have "arith ?i = Some (opc, w)" using i sh by (auto simp: arith_def)
  note ok = replace_value_ok [OF wf BI refl this ab(1) conjunct1 [OF sh] algebraic_value_ok [OF v' w ab(2,3)]]
  show "wf_ofn B (os_fn s')" and "refines B ?F (os_fn s')"
    unfolding s' by (rule ok, assumption)+
qed

lemma algebraic_step_progress:
  assumes "B < length (os_fn s)" and "BI < length (os_fn s ! B)" and "algebraic_step A B BI s = (s', m)"
  shows "progress B s s'" and "\<not> m \<Longrightarrow> s' = s" and "m \<Longrightarrow> removed s' = Suc (removed s)"
  using assms
  by (auto simp: algebraic_step_def progress_def removed_def Let_def replace_value_length split: option.splits ity.splits)

text \<open>
  The loop ends: a turn removes an instruction or moves on. Each removal is counted, and
  \<open>modified\<close> reports whether there was one.
\<close>

lemma algebraic_loop_ends:
  assumes "B < length (os_fn s)"
  shows "\<exists>s' m'. algebraic_loop A B BI s m = Some (s', m') \<and> progress B s s' \<and>
    (m' \<longleftrightarrow> m \<or> removed s < removed s')"
  using assms
proof (induction "length (os_fn s ! B) - BI" arbitrary: BI s m rule: less_induct)
  case less
  show ?case
  proof (cases "BI < length (os_fn s ! B)")
    case False
    then show ?thesis by (simp add: algebraic_loop.simps progress_refl)
  next
    case True
    obtain t r where t: "algebraic_step A B BI s = (t, r)" by fastforce
    note step = algebraic_step_progress [OF less.prems True t]
    show ?thesis
    proof (cases r)
      case False
      have "\<exists>s' m'. algebraic_loop A B (Suc BI) s m = Some (s', m') \<and> progress B s s' \<and>
          (m' \<longleftrightarrow> m \<or> removed s < removed s')"
        using True less.prems by (intro less.hyps) auto
      then show ?thesis using True False t step(2) by (subst algebraic_loop.simps) simp
    next
      case r: True
      have shrinks: "length (os_fn t ! B) < length (os_fn s ! B)" "length (os_fn t) = length (os_fn s)"
        using step(1) step(3) [OF r] by (auto simp: progress_def)
      have "\<exists>s' m'. algebraic_loop A B BI t True = Some (s', m') \<and> progress B t s' \<and>
          (m' \<longleftrightarrow> True \<or> removed t < removed s')"
        using True less.prems shrinks by (intro less.hyps) auto
      then obtain s' where s': "algebraic_loop A B BI t True = Some (s', True)" "progress B t s'"
        by auto
      moreover have "algebraic_loop A B BI s m = algebraic_loop A B BI t True"
        using True r t by (subst algebraic_loop.simps) simp
      moreover have "progress B s s'" "removed s < removed s'"
        using progress_trans [OF step(1) s'(2)] step(3) [OF r] s'(2) by (auto simp: progress_def)
      ultimately show ?thesis by simp
    qed
  qed
qed

lemma algebraic_loop_refines:
  assumes "algebraic_loop A B BI s m = Some (s', m')" and "wf_ofn B (os_fn s)"
  shows "wf_ofn B (os_fn s') \<and> refines B (os_fn s) (os_fn s')"
  using assms
proof (induction "length (os_fn s ! B) - BI" arbitrary: BI s m rule: less_induct)
  case less
  show ?case
  proof (cases "BI < length (os_fn s ! B)")
    case False
    then show ?thesis using less.prems by (auto simp: algebraic_loop.simps refines_refl)
  next
    case True
    obtain t r where t: "algebraic_step A B BI s = (t, r)" by fastforce
    have B: "B < length (os_fn s)" using less.prems(2) by (simp add: wf_ofn_def)
    note step = algebraic_step_progress [OF B True t]
    show ?thesis
    proof (cases r)
      case False
      then have "algebraic_loop A B (Suc BI) s m = Some (s', m')"
        using less.prems(1) True t step(2) by (subst (asm) algebraic_loop.simps) simp
      with True less.prems(2) show ?thesis by (intro less.hyps) auto
    next
      case r: True
      have run: "algebraic_loop A B BI t True = Some (s', m')"
        using less.prems(1) True r t by (subst (asm) algebraic_loop.simps) simp
      have "algebraic_step A B BI s = (t, True)" using t r by simp
      note ok = algebraic_step_ok [OF less.prems(2) True this]
      have "length (os_fn t ! B) < length (os_fn s ! B)"
        using step(1) step(3) [OF r] by (auto simp: progress_def)
      then have "wf_ofn B (os_fn s') \<and> refines B (os_fn t) (os_fn s')"
        using True run ok(1) by (intro less.hyps) auto
      then show ?thesis using ok(2) refines_trans by blast
    qed
  qed
qed

subsection \<open>Constant folding\<close>

lemma sext_narrow: "0 < w \<Longrightarrow> w \<le> 64 \<Longrightarrow> n < 2 ^ w \<Longrightarrow> api_sext A w n = Inr (signed_of w n)"
proof -
  assume w: "0 < w" "w \<le> 64" and n: "n < 2 ^ w"
  have "(2 :: int) ^ (w - 1) \<le> 2 ^ 63" by (rule power_increasing) (use w in auto)
  then show ?thesis using sext [OF w(1) n] signed_bounds [OF w(1) n] by simp
qed

lemma const_narrow: "w \<le> 64 \<Longrightarrow> int64 x = Inr x \<Longrightarrow> api_const A w x = TConst w (wrap w x)"
proof -
  assume w: "w \<le> 64" and "int64 x = Inr x"
  then have "api_const A w x = TConst w (nat (x mod 2 ^ 64 mod 2 ^ w))"
    by (intro const) (auto simp: int64_def split: if_splits)
  moreover have "(2 :: int) ^ w dvd 2 ^ 64" using w by (rule le_imp_power_dvd)
  ultimately show ?thesis by (simp add: wrap_def mod_mod_cancel)
qed

end

lemma int64_Inr: "int64 x = Inr y \<Longrightarrow> y = x"
  by (auto simp: int64_def split: if_splits)

lemma wrap_less: "wrap w x < 2 ^ w"
proof -
  have "x mod 2 ^ w < (2 :: int) ^ w" by simp
  then have "nat (x mod 2 ^ w) < nat (2 ^ w)" by (subst nat_less_eq_zless) simp_all
  then show ?thesis by (simp add: wrap_def nat_power_eq)
qed

lemma wrap_mod [simp]: "wrap w x mod 2 ^ w = wrap w x"
  using wrap_less by simp

lemma wrap_cong: "x mod 2 ^ w = y mod 2 ^ w \<Longrightarrow> wrap w x = wrap w y"
  by (simp add: wrap_def)

text \<open>Folding the sign-extended operands agrees with the width's own arithmetic.\<close>

lemma wrap_signed_arith:
  "wrap w (signed_of w a + signed_of w b) = wrap w (int a + int b)"
  "wrap w (signed_of w a - signed_of w b) = wrap w (int a - int b)"
  "wrap w (signed_of w a * signed_of w b) = wrap w (int a * int b)"
  by (intro wrap_cong mod_add_cong mod_diff_cong mod_mult_cong signed_mod)+

lemma int64_shl_ok:
  assumes "int64_shl (signed_of w a) (signed_of w b) = Inr x" and "a < 2 ^ w" and "b < 2 ^ w"
    and w: "0 < w" "w \<le> 64"
  shows "int64 x = Inr x" and "wrap w x = a * 2 ^ b mod 2 ^ w"
proof -
  have nn: "0 \<le> signed_of w a" "0 \<le> signed_of w b"
    using assms(1) by (auto simp: int64_shl_def Let_def split: if_splits)
  have pos: "signed_of w c = int c" if "0 \<le> signed_of w c" "c < 2 ^ w" for c
    using that int_less_width [of c w] by (auto simp: signed_of_def split: if_splits)
  have ab: "signed_of w a = int a" "signed_of w b = int b" using pos nn assms(2,3) by auto
  define p where "p = int a * 2 ^ b"
  have "0 \<le> p" unfolding p_def by simp
  moreover have x: "x = (if p < 2 ^ 63 then p else p - 2 ^ 64)" and "p < 2 ^ 64"
    using assms(1) unfolding ab p_def by (auto simp: int64_shl_def Let_def split: if_splits)
  ultimately show "int64 x = Inr x" by (auto simp: int64_def)
  have "(2 :: int) ^ w dvd 2 ^ 64" using w(2) by (rule le_imp_power_dvd)
  then have "(p - 2 ^ 64) mod 2 ^ w = p mod 2 ^ w" by (metis diff_zero dvd_imp_mod_0 mod_diff_right_eq)
  then have "x mod 2 ^ w = p mod 2 ^ w" unfolding x by presburger
  then have "wrap w x = nat (int (a * 2 ^ b) mod int (2 ^ w))" by (simp add: wrap_def p_def)
  then show "wrap w x = a * 2 ^ b mod 2 ^ w" by (simp only: zmod_int [symmetric] nat_int)
qed

context llvm_edits begin

lemma fold_value_cases:
  assumes v: "fold_value A opc w a w b = Inr (Some v)" and opc: "opc \<in> {Add, Sub, Mul, SDiv, Shl}"
    and w: "0 < w" "w \<le> 64" and ab: "a < 2 ^ w" "b < 2 ^ w"
  defines "x \<equiv> signed_of w a" and "y \<equiv> signed_of w b"
  obtains z where "v = api_const A w z"
    "opc = Add \<and> int64 (x + y) = Inr z \<or> opc = Sub \<and> int64 (x - y) = Inr z \<or> opc = Mul \<and> int64 (x * y) = Inr z \<or>
     opc = SDiv \<and> int64 (x sdiv y) = Inr z \<or> opc = Shl \<and> int64_shl x y = Inr z"
  using v opc sext_narrow [OF w ab(1)] sext_narrow [OF w ab(2)]
  by (auto simp: fold_value_def x_def y_def bind_res_Inr_iff int64_div_def split: if_splits)

lemma fold_value_ok:
  assumes v: "fold_value A opc w a w b = Inr (Some v)" and opc: "opc \<in> {Add, Sub, Mul, SDiv, Shl}"
    and w: "0 < w" "w \<le> 64" and ab: "a < 2 ^ w" "b < 2 ^ w"
  shows "\<exists>x. v = TConst w (wrap w x) \<and> (\<forall>r. osem opc w a b = Some r \<longrightarrow> wrap w x = r mod 2 ^ w)"
proof -
  obtain z where z: "v = api_const A w z" and c:
    "opc = Add \<and> int64 (signed_of w a + signed_of w b) = Inr z \<or>
     opc = Sub \<and> int64 (signed_of w a - signed_of w b) = Inr z \<or>
     opc = Mul \<and> int64 (signed_of w a * signed_of w b) = Inr z \<or>
     opc = SDiv \<and> int64 (signed_of w a sdiv signed_of w b) = Inr z \<or>
     opc = Shl \<and> int64_shl (signed_of w a) (signed_of w b) = Inr z"
    by (rule fold_value_cases [OF assms])
  have i64: "int64 x = Inr z \<Longrightarrow> int64 z = Inr z" for x using int64_Inr [of x z] by simp
  have "int64 z = Inr z"
    using c by (elim disjE conjE) (erule i64 int64_shl_ok(1) [OF _ ab w])+
  then have "v = TConst w (wrap w z)" using z const_narrow [OF w(2)] by simp
  moreover have "wrap w z = r mod 2 ^ w" if "osem opc w a b = Some r" for r
    using c
  proof (elim disjE conjE)
    assume "opc = Shl" and s: "int64_shl (signed_of w a) (signed_of w b) = Inr z"
    then show ?thesis using that int64_shl_ok(2) [OF s ab w] by (auto simp: osem_def split: if_splits)
  qed (use that in \<open>auto simp: osem_def wrap_signed_arith dest!: int64_Inr split: if_splits\<close>)
  ultimately show ?thesis by blast
qed

end

text \<open>The blocks that folding treats right: no unsigned division, no logical right shift, at most 64 bits.\<close>

definition fold_safe :: "oinsn list \<Rightarrow> bool" where
  "fold_safe b \<longleftrightarrow> (\<forall>i\<in>set b. oi_binop i \<noteq> Some UDiv \<and> oi_binop i \<noteq> Some LShr \<and>
     (\<forall>w. oi_ty i = IntTy w \<longrightarrow> w \<le> 64))"

context llvm_edits begin

lemma fold_value_ops:
  "fold_value A opc w a w' b = Inr (Some v) \<Longrightarrow> opc \<in> {Add, Sub, Mul, UDiv, SDiv, Shl, LShr}"
  by (cases opc) (auto simp: fold_value_def Let_def)

lemma folding_step_ok:
  assumes wf: "wf_ofn B (os_fn s)" and BI: "BI < length (os_fn s ! B)" and safe: "fold_safe (os_fn s ! B)"
    and step: "folding_step A B BI s = Inr (s', True)"
  shows "wf_ofn B (os_fn s')" and "refines B (os_fn s) (os_fn s')" and "fold_safe (os_fn s' ! B)"
proof -
  let ?F = "os_fn s" and ?i = "os_fn s ! B ! BI"
  have B: "B < length ?F" using wf by (simp add: wf_ofn_def)
  obtain opc w1 n1 w2 n2 v where i: "oi_binop ?i = Some opc" "oi_ops ?i ! 0 = TConst w1 n1" "oi_ops ?i ! 1 = TConst w2 n2"
      and v: "fold_value A opc w1 n1 w2 n2 = Inr (Some v)"
      and s': "os_fn s' = api_replace_value A ?F B BI v"
    using step by (auto simp: folding_step_def Let_def bind_res_Inr_iff split: option.splits tvalue.splits)
  have mem: "?i \<in> set (?F ! B)" using BI by simp
  then have "?i \<in> set (concat ?F)" using B by (auto intro!: bexI [of _ "?F ! B"])
  then have "okinsn (all_defs ?F) ?i" using wf unfolding wf_ofn_def by blast
  then obtain w where ab: "oi_ops ?i = [TConst w1 n1, TConst w2 n2]" "w1 = w" "w2 = w" "oi_ty ?i = IntTy w"
      and w: "0 < w" "n1 < 2 ^ w" "n2 < 2 ^ w"
    using i by (auto simp: okinsn_def okval_def) (metis ity.inject(1))
  have w64: "w \<le> 64" and opc: "opc \<notin> {UDiv, LShr}" using safe mem ab(4) i(1) by (auto simp: fold_safe_def)
  have v': "fold_value A opc w n1 w n2 = Inr (Some v)" using v ab by simp
  then have opc': "opc \<in> {Add, Sub, Mul, SDiv, Shl}" using fold_value_ops opc by blast
  obtain x where x: "v = TConst w (wrap w x)" "\<And>r. osem opc w n1 n2 = Some r \<Longrightarrow> wrap w x = r mod 2 ^ w"
    using fold_value_ok [OF v' opc' w(1) w64 w(2,3)] by blast
  have ar: "arith ?i = Some (opc, w)" using i(1) ab(4) opc' by (auto simp: arith_def)
  have val: "oval env v = r mod 2 ^ w"
    if "osem opc w (oval env (TConst w1 n1)) (oval env (TConst w2 n2)) = Some r" for env r
    using that x w ab(2,3) by (simp add: const_val)
  have shape: "v = TConst w1 n1 \<or> v = TConst w2 n2 \<or> (\<exists>n. v = TConst w n \<and> n < 2 ^ w)"
    using x(1) wrap_less by blast
  note ok = replace_value_ok [OF wf BI refl ar ab(1) shape val]
  show "wf_ofn B (os_fn s')" and "refines B ?F (os_fn s')" unfolding s' by (rule ok, assumption)+
  have "os_fn s' ! B = map (osubst (rename (oself ?i) v)) (take BI (?F ! B) @ drop (Suc BI) (?F ! B))"
    using B unfolding s' replace_value [OF B BI] by simp
  moreover have "set (take BI (?F ! B) @ drop (Suc BI) (?F ! B)) \<subseteq> set (?F ! B)"
    using set_take_subset set_drop_subset by (metis Un_least set_append)
  ultimately show "fold_safe (os_fn s' ! B)" using safe unfolding fold_safe_def by auto
qed

lemma folding_step_progress:
  assumes "B < length (os_fn s)" and "BI < length (os_fn s ! B)" and "folding_step A B BI s = Inr (s', m)"
  shows "progress B s s'" and "\<not> m \<Longrightarrow> s' = s" and "m \<Longrightarrow> removed s' = Suc (removed s)"
  using assms
  by (auto simp: folding_step_def progress_def removed_def Let_def replace_value_length bind_res_Inr_iff
      split: option.splits tvalue.splits)

lemma folding_loop_ends:
  assumes "B < length (os_fn s)"
  shows "\<exists>r. folding_loop A B BI s m = Some r \<and>
    (\<forall>s' m'. r = Inr (s', m') \<longrightarrow> progress B s s' \<and> (m' \<longleftrightarrow> m \<or> removed s < removed s'))"
  using assms
proof (induction "length (os_fn s ! B) - BI" arbitrary: BI s m rule: less_induct)
  case less
  show ?case
  proof (cases "BI < length (os_fn s ! B)")
    case False
    then show ?thesis by (simp add: folding_loop.simps progress_refl)
  next
    case True
    show ?thesis
    proof (cases "folding_step A B BI s")
      case (Inl e)
      then show ?thesis using True by (simp add: folding_loop.simps)
    next
      case (Inr tr)
      then obtain t r where t: "folding_step A B BI s = Inr (t, r)" by (cases tr) simp
      note step = folding_step_progress [OF less.prems True t]
      show ?thesis
      proof (cases r)
        case False
        have "\<exists>r. folding_loop A B (Suc BI) s m = Some r \<and>
            (\<forall>s' m'. r = Inr (s', m') \<longrightarrow> progress B s s' \<and> (m' \<longleftrightarrow> m \<or> removed s < removed s'))"
          using True less.prems by (intro less.hyps) auto
        then show ?thesis using True False t step(2) by (subst folding_loop.simps) simp
      next
        case r: True
        have shrinks: "length (os_fn t ! B) < length (os_fn s ! B)" "length (os_fn t) = length (os_fn s)"
          using step(1) step(3) [OF r] by (auto simp: progress_def)
        have "\<exists>q. folding_loop A B BI t True = Some q \<and>
            (\<forall>s' m'. q = Inr (s', m') \<longrightarrow> progress B t s' \<and> (m' \<longleftrightarrow> True \<or> removed t < removed s'))"
          using True less.prems shrinks by (intro less.hyps) auto
        moreover have "folding_loop A B BI s m = folding_loop A B BI t True"
          using True r t by (subst folding_loop.simps) simp
        moreover have "progress B s s' \<and> removed s < removed s'" if "progress B t s'" for s'
          using progress_trans [OF step(1) that] step(3) [OF r] that by (auto simp: progress_def)
        ultimately show ?thesis by auto
      qed
    qed
  qed
qed

lemma folding_loop_refines:
  assumes "folding_loop A B BI s m = Some (Inr (s', m'))" and "wf_ofn B (os_fn s)" and "fold_safe (os_fn s ! B)"
  shows "wf_ofn B (os_fn s') \<and> refines B (os_fn s) (os_fn s') \<and> fold_safe (os_fn s' ! B)"
  using assms
proof (induction "length (os_fn s ! B) - BI" arbitrary: BI s m rule: less_induct)
  case less
  have B: "B < length (os_fn s)" using less.prems(2) by (simp add: wf_ofn_def)
  show ?case
  proof (cases "BI < length (os_fn s ! B)")
    case False
    then show ?thesis using less.prems by (auto simp: folding_loop.simps refines_refl)
  next
    case True
    obtain t r where t: "folding_step A B BI s = Inr (t, r)"
      using less.prems(1) True by (auto simp: folding_loop.simps split: sum.splits)
    note step = folding_step_progress [OF B True t]
    show ?thesis
    proof (cases r)
      case False
      then have run: "folding_loop A B (Suc BI) s m = Some (Inr (s', m'))"
        using less.prems(1) True t step(2) by (subst (asm) folding_loop.simps) simp
      show ?thesis using True by (intro less.hyps [OF _ run less.prems(2,3)]) simp
    next
      case r: True
      have run: "folding_loop A B BI t True = Some (Inr (s', m'))"
        using less.prems(1) True r t by (subst (asm) folding_loop.simps) simp
      have "folding_step A B BI s = Inr (t, True)" using t r by simp
      note ok = folding_step_ok [OF less.prems(2) True less.prems(3) this]
      have "length (os_fn t ! B) < length (os_fn s ! B)"
        using step(1) step(3) [OF r] by (auto simp: progress_def)
      then have "wf_ofn B (os_fn s') \<and> refines B (os_fn t) (os_fn s') \<and> fold_safe (os_fn s' ! B)"
        using True run ok(1,3) by (intro less.hyps) auto
      then show ?thesis using ok(2) refines_trans by blast
    qed
  qed
qed

end

subsection \<open>Powers of two\<close>

lemma find_log_loop_ok:
  assumes "0 < n" and "find_log_loop n r = (m, k)"
  shows "r \<le> k \<and> n = m * 2 ^ nat (k - r) \<and> 0 < m \<and> (odd m \<or> m = 1)"
  using assms
proof (induction n r rule: find_log_loop.induct)
  case (1 n r)
  show ?case
  proof (cases "n mod 2 = 0 \<and> n > 1")
    case True
    then have "find_log_loop (n div 2) (r + 1) = (m, k)" using "1.prems"(2) by (simp add: find_log_loop.simps)
    then have IH: "r + 1 \<le> k \<and> n div 2 = m * 2 ^ nat (k - (r + 1)) \<and> 0 < m \<and> (odd m \<or> m = 1)"
      using True by (intro "1.IH") auto
    then have "nat (k - r) = Suc (nat (k - (r + 1)))" by linarith
    then show ?thesis using IH True by auto
  next
    case False
    then show ?thesis using "1.prems" by (auto simp: find_log_loop.simps)
  qed
qed

text \<open>\<open>find_log\<close> returns the exponent of a power of two, and -1 on everything else.\<close>

lemma find_log_loop_power: "find_log_loop (2 ^ k) r = (1, r + int k)"
proof (induction k arbitrary: r)
  case 0
  then show ?case by (simp add: find_log_loop.simps)
next
  case (Suc k)
  have "(1 :: int) < 2 ^ Suc k" by (rule one_less_power) simp_all
  then have "find_log_loop (2 ^ Suc k) r = find_log_loop (2 ^ k) (r + 1)"
    by (subst find_log_loop.simps) simp
  then show ?case using Suc by simp
qed

lemma find_log_power: "find_log (2 ^ k) = int k"
  by (simp add: find_log_def find_log_loop_power not_le)

lemma find_log_spec: "0 \<le> find_log n \<Longrightarrow> n = 2 ^ nat (find_log n)"
proof -
  assume k: "0 \<le> find_log n"
  then have n: "0 < n" by (auto simp: find_log_def split: if_splits)
  obtain m r where mr: "find_log_loop n 0 = (m, r)" by fastforce
  have "m = 1" "find_log n = r" using k n mr by (auto simp: find_log_def split: if_splits)
  then show ?thesis using find_log_loop_ok [OF n mr] by simp
qed

end
