(* ===== verification/LocalOptsReduce.thy ===== *)
theory LocalOptsReduce
  imports LocalOptsCorrect
begin

section \<open>Local optimizations: strength reduction and the whole pass\<close>

text \<open>
  A reduction puts one or two new instructions in the place of the old one. The pass over a block
  repeats the three passes until none has removed an instruction; it ends because the block gets
  shorter each time. The last section evaluates the reductions and folds that are wrong.
\<close>

subsection \<open>Strength reduction\<close>

text \<open>
  The instructions strength reduction treats right: at most 64 bits, no multiplication by a constant
  whose sign bit is set, no signed division by a power of two other than 1.
\<close>

definition reduce_safe :: "oinsn \<Rightarrow> bool" where
  "reduce_safe i \<longleftrightarrow> (\<forall>w. oi_ty i = IntTy w \<longrightarrow> w \<le> 64) \<and>
     (oi_binop i = Some Mul \<longrightarrow> (\<forall>w n. TConst w n \<in> set (oi_ops i) \<longrightarrow> n < 2 ^ (w - 1))) \<and>
     (oi_binop i = Some SDiv \<longrightarrow> (\<forall>w n. oi_ops i ! 1 = TConst w n \<longrightarrow> find_log (signed_of w n) \<le> 0))"

lemma find_log_improved_cases:
  assumes "find_log_improved n 0 = Inr (c, k)" and "c \<noteq> - 2" and "0 \<le> n"
  obtains j where "k = int j" "c = 0 \<and> n = 2 ^ j \<or> c = 1 \<and> n = 2 ^ j + 1 \<or> c = - 1 \<and> n = 2 ^ j - 1"
proof (cases "n = 0")
  case True
  then show ?thesis using assms that [of 0] by (auto simp: find_log_improved_def)
next
  case False
  then have "0 < n" using assms(3) by simp
  then consider "c = 0" "k = find_log n" "0 \<le> find_log n" | "c = 1" "k = find_log (n - 1)" "0 \<le> find_log (n - 1)"
    | "c = - 1" "k = find_log (n + 1)" "0 \<le> find_log (n + 1)"
    using assms(1,2) by (auto simp: find_log_improved_def bind_res_Inr_iff dest!: int64_Inr split: if_splits)
  then show ?thesis
  proof cases
    case 1
    then show ?thesis using find_log_spec [of n] by (intro that [of "nat k"]) auto
  next
    case 2
    then show ?thesis using find_log_spec [of "n - 1"] by (intro that [of "nat k"]) auto
  next
    case 3
    then show ?thesis using find_log_spec [of "n + 1"] by (intro that [of "nat k"]) auto
  qed
qed

text \<open>A value that may be read in place of the instruction \<open>i\<close>.\<close>

definition usable :: "tvalue set \<Rightarrow> oinsn \<Rightarrow> oinsn list \<Rightarrow> nat \<Rightarrow> tvalue \<Rightarrow> bool" where
  "usable D i post w x \<longleftrightarrow> okval D x \<and> x \<notin> odefs (i # post) \<and> vtype x = IntTy w"

lemma usable_okval: "usable D i post w x \<Longrightarrow> okval (D - {oself i} \<union> E) x"
  by (auto simp: usable_def okval_def split: tvalue.splits)

definition binop :: "nat \<Rightarrow> opcode \<Rightarrow> nat \<Rightarrow> tvalue \<Rightarrow> tvalue \<Rightarrow> oinsn" where
  "binop k opc w x y = \<lparr>oi_id = k, oi_binop = Some opc, oi_phi = False, oi_ty = IntTy w, oi_ops = [x, y]\<rparr>"

lemma create_binop_eq: "vtype x = IntTy w \<Longrightarrow> create_binop A F opc x y = binop (api_new A F) opc w x y"
  by (simp add: create_binop_def binop_def)

lemma oself_binop: "oself (binop k opc w x y) = TInst (IntTy w) k"
  unfolding binop_def oself_def oinsn.simps ..

lemma binop_sel [simp]:
  "oi_id (binop k opc w x y) = k" "oi_phi (binop k opc w x y) = False" "oi_ops (binop k opc w x y) = [x, y]"
  "oi_ty (binop k opc w x y) = IntTy w" "oi_binop (binop k opc w x y) = Some opc"
  by (simp_all add: binop_def)

lemma arith_binop_new: "opc \<in> {Add, Sub, Shl, LShr} \<Longrightarrow> arith (binop k opc w x y) = Some (opc, w)"
  unfolding arith_def by auto

lemma oexec_binop:
  assumes "opc \<in> {Add, Sub, Shl, LShr}"
  shows "oexec orc (binop k opc w x y) (env, world) =
    map_option (\<lambda>r. (env(TInst (IntTy w) k := r), world)) (osem opc w (oval env x) (oval env y))"
  by (cases "osem opc w (oval env x) (oval env y)")
    (simp_all add: ores_def arith_binop_new [OF assms] oself_binop)

lemma okinsn_binop:
  "0 < w \<Longrightarrow> okval D x \<Longrightarrow> okval D y \<Longrightarrow> vtype x = IntTy w \<Longrightarrow> vtype y = IntTy w \<Longrightarrow> okinsn D (binop k opc w x y)"
  by (simp add: okinsn_def)

lemma oval_other: "x \<noteq> y \<Longrightarrow> oval (env(y := r)) x = oval env x"
  by (auto simp: oval_def split: tvalue.splits)

lemma oval_new: "oval (env(TInst (IntTy w) k := r)) (TInst (IntTy w) k) = r mod 2 ^ w"
  by (simp add: oval_def)

lemma oexec_arith:
  assumes "arith i = Some (opc, w)" and "\<not> oi_phi i" and "oi_ops i = [a, b]"
    and "oexec orc i (env, world) = Some (env1, world1)"
  obtains r where "osem opc w (oval env a) (oval env b) = Some r" "oval env1 (oself i) = r mod 2 ^ w" "world1 = world"
proof -
  have "oself i = TInst (IntTy w) (oi_id i)" using arith_binop [OF assms(1)] by (simp add: oself_def)
  then show ?thesis using assms that by (auto simp: ores_def oval_new split: option.splits)
qed

text \<open>One new instruction.\<close>

lemma replacement_one:
  assumes i: "arith i = Some (opc, w)" "\<not> oi_phi i" "oi_ops i = [a, b]" and w: "0 < w"
    and use: "usable D i post w x" "usable D i post w y" and opc': "opc' \<in> {Add, Sub, Shl, LShr}"
    and fresh: "k \<notin> ids" "\<And>t. TInst t k \<notin> D" "odefs (i # post) \<subseteq> D" and ord: "ordered (i # post)"
    and val: "\<And>env r. osem opc w (oval env a) (oval env b) = Some r \<Longrightarrow>
      \<exists>r'. osem opc' w (oval env x) (oval env y) = Some r' \<and> r' mod 2 ^ w = r mod 2 ^ w"
  shows "replacement D ids i [binop k opc' w x y] post (TInst (IntTy w) k)"
proof -
  let ?m = "binop k opc' w x y" and ?v = "TInst (IntTy w) k"
  have new: "?v \<notin> odefs (i # post)" using fresh(2,3) by blast
  have t: "oi_ty i = IntTy w" using arith_binop [OF i(1)] by simp
  have imp: "implements D i [?m] ?v"
    unfolding implements_def
  proof (intro allI impI)
    fix orc :: "nat effect" and env world env1 world1
    assume "oexec orc i (env, world) = Some (env1, world1)"
    then obtain r where r: "osem opc w (oval env a) (oval env b) = Some r" "oval env1 (oself i) = r mod 2 ^ w" "world1 = world"
      by (rule oexec_arith [OF i])
    obtain r' where r': "osem opc' w (oval env x) (oval env y) = Some r'" "r' mod 2 ^ w = r mod 2 ^ w"
      using val [OF r(1)] by blast
    have "oval (env(?v := r')) z = oval env z" if "okval D z" for z
      using that fresh(2) by (intro oval_other) (auto simp: okval_def)
    then show "\<exists>env2. orun orc [?m] (env, world) = Some (env2, world1) \<and> oval env2 ?v = oval env1 (oself i) \<and>
        (\<forall>x. okval D x \<longrightarrow> x \<noteq> oself i \<longrightarrow> oval env2 x = oval env x)"
      using r r' opc' by (intro exI [of _ "env(?v := r')"]) (simp add: oexec_binop oval_new del: oexec.simps)
  qed
  have tx: "vtype x = IntTy w" "vtype y = IntTy w" using use by (simp_all add: usable_def)
  have ok: "okinsn (D - {oself i} \<union> odefs [?m]) ?m"
    by (intro okinsn_binop [OF w usable_okval [OF use(1)] usable_okval [OF use(2)]] tx)
  have xy: "x \<noteq> oself i" "y \<noteq> oself i" "x \<notin> odefs post" "y \<notin> odefs post" "x \<noteq> ?v" "y \<noteq> ?v"
    using use fresh(2) by (auto simp: usable_def okval_def)
  have ops: "set (oi_ops ?m) = {x, y}" "oi_id ?m = k" "oi_phi ?m = False" by (auto simp: binop_def)
  have "ordered ([?m] @ post)" using ord xy ops by (simp add: oself_binop)
  moreover have "okval (D - {oself i} \<union> odefs [?m]) ?v" by (simp add: okval_def oself_binop)
  moreover have "?v \<noteq> oself i" "?v \<notin> odefs post" using new by simp_all
  moreover have "\<forall>j\<in>set [?m]. okinsn (D - {oself i} \<union> odefs [?m]) j \<and> oself i \<notin> set (oi_ops j)"
    using ok xy(1,2) unfolding ball_simps list.set ops by blast
  moreover have "vtype ?v = oi_ty i" "distinct (map oi_id [?m])" "oi_id ` set [?m] \<inter> ids = {}"
    using t fresh(1) ops(2) by simp_all
  ultimately show ?thesis
    unfolding replacement_def Let_def using imp by (intro conjI)
qed

text \<open>Two new instructions, the second of which reads the first.\<close>

lemma implements_two:
  assumes i: "arith i = Some (opc, w)" "\<not> oi_phi i" "oi_ops i = [a, b]"
    and use: "usable D i post w x" and opc': "opc' \<in> {Add, Sub}"
    and fresh: "k \<noteq> k'" "\<And>t. TInst t k \<notin> D" "\<And>t. TInst t k' \<notin> D"
    and val: "\<And>env r. osem opc w (oval env a) (oval env b) = Some r \<Longrightarrow>
      \<exists>r1 r2. osem Shl w (oval env x) (oval env y) = Some r1 \<and>
        osem opc' w (r1 mod 2 ^ w) (oval env x) = Some r2 \<and> r2 mod 2 ^ w = r mod 2 ^ w"
  shows "implements D i [binop k Shl w x y, binop k' opc' w (TInst (IntTy w) k) x] (TInst (IntTy w) k')"
  unfolding implements_def
proof (intro allI impI)
  let ?m = "binop k Shl w x y" and ?u = "TInst (IntTy w) k" and ?v = "TInst (IntTy w) k'"
  let ?f = "binop k' opc' w ?u x"
  fix orc :: "nat effect" and env world env1 world1
  assume "oexec orc i (env, world) = Some (env1, world1)"
  then obtain r where r: "osem opc w (oval env a) (oval env b) = Some r" "oval env1 (oself i) = r mod 2 ^ w" "world1 = world"
    by (rule oexec_arith [OF i])
  obtain r1 r2 where r': "osem Shl w (oval env x) (oval env y) = Some r1"
      "osem opc' w (r1 mod 2 ^ w) (oval env x) = Some r2" "r2 mod 2 ^ w = r mod 2 ^ w"
    using val [OF r(1)] by blast
  have known: "oval (env(?u := r1, ?v := r2)) z = oval env z" "oval (env(?u := r1)) z = oval env z" if "okval D z" for z
  proof -
    have "z \<noteq> ?u" "z \<noteq> ?v" using that fresh(2,3) by (auto simp: okval_def)
    then show "oval (env(?u := r1, ?v := r2)) z = oval env z" "oval (env(?u := r1)) z = oval env z"
      by (simp_all add: oval_other)
  qed
  have "okval D x" using use by (simp add: usable_def)
  moreover have "opc' \<in> {Add, Sub, Shl, LShr}" using opc' by auto
  ultimately have "orun orc [?m, ?f] (env, world) = Some (env(?u := r1, ?v := r2), world1)"
    using r' r(3) known(2) by (simp add: oexec_binop oval_new del: oexec.simps fun_upd_apply)
  then show "\<exists>env2. orun orc [?m, ?f] (env, world) = Some (env2, world1) \<and> oval env2 ?v = oval env1 (oself i) \<and>
      (\<forall>x. okval D x \<longrightarrow> x \<noteq> oself i \<longrightarrow> oval env2 x = oval env x)"
    using r'(3) r(2) known(1) by (intro exI [of _ "env(?u := r1, ?v := r2)"]) (simp add: oval_new)
qed

lemma replacement_two:
  assumes i: "arith i = Some (opc, w)" "\<not> oi_phi i" "oi_ops i = [a, b]" and w: "0 < w"
    and use: "usable D i post w x" "usable D i post w y" and opc': "opc' \<in> {Add, Sub}"
    and fresh: "k \<notin> ids" "k' \<notin> ids" "k \<noteq> k'" "\<And>t. TInst t k \<notin> D" "\<And>t. TInst t k' \<notin> D"
      "odefs (i # post) \<subseteq> D" and ord: "ordered (i # post)"
    and val: "\<And>env r. osem opc w (oval env a) (oval env b) = Some r \<Longrightarrow>
      \<exists>r1 r2. osem Shl w (oval env x) (oval env y) = Some r1 \<and>
        osem opc' w (r1 mod 2 ^ w) (oval env x) = Some r2 \<and> r2 mod 2 ^ w = r mod 2 ^ w"
  shows "replacement D ids i [binop k Shl w x y, binop k' opc' w (TInst (IntTy w) k) x] post (TInst (IntTy w) k')"
proof -
  let ?m = "binop k Shl w x y" and ?u = "TInst (IntTy w) k" and ?v = "TInst (IntTy w) k'"
  let ?f = "binop k' opc' w ?u x"
  let ?D = "D - {oself i} \<union> odefs [?m, ?f]"
  have imp: "implements D i [?m, ?f] ?v" by (rule implements_two [OF i use(1) opc' fresh(3-5) val])
  have new: "?u \<notin> odefs (i # post)" "?v \<notin> odefs (i # post)" using fresh(4-6) by blast+
  have t: "oi_ty i = IntTy w" using arith_binop [OF i(1)] by simp
  have tx: "vtype x = IntTy w" "vtype y = IntTy w" using use by (simp_all add: usable_def)
  have u: "okval ?D ?u" "okval ?D ?v" by (simp_all add: okval_def oself_binop)
  have ok: "okinsn ?D ?m" "okinsn ?D ?f"
    using u(1) tx by (auto intro!: okinsn_binop [OF w] usable_okval [OF use(1)] usable_okval [OF use(2)] simp del: odefs_simps)
  have xy: "x \<noteq> oself i" "y \<noteq> oself i" "x \<notin> odefs post" "y \<notin> odefs post" "x \<noteq> ?v" "y \<noteq> ?v" "x \<noteq> ?u" "y \<noteq> ?u"
    using use fresh(4,5) by (auto simp: usable_def okval_def)
  have nuv: "?u \<noteq> oself i" "?v \<noteq> oself i" "?u \<notin> odefs post" "?v \<notin> odefs post" using new by simp_all
  have "ordered ([?m, ?f] @ post)" using ord xy nuv fresh(3) by (simp add: oself_binop)
  moreover have "\<forall>j\<in>set [?m, ?f]. okinsn ?D j \<and> oself i \<notin> set (oi_ops j)"
    using ok xy(1,2) nuv(1) by (simp del: odefs_simps)
  moreover have "vtype ?v = oi_ty i" "distinct (map oi_id [?m, ?f])" "oi_id ` set [?m, ?f] \<inter> ids = {}"
    using t fresh(1-3) by simp_all
  ultimately show ?thesis
    unfolding replacement_def Let_def using imp nuv(2,4) u(2) by (intro conjI)
qed

subsection \<open>The arithmetic of the reductions\<close>

lemma osem_shl: "j < w \<Longrightarrow> osem Shl w x j = Some (wrap w (int x * 2 ^ j))"
proof -
  assume "j < w"
  moreover have "wrap w (int x * 2 ^ j) = nat (int (x * 2 ^ j) mod int (2 ^ w))" by (simp add: wrap_def)
  ultimately show ?thesis by (simp add: osem_def zmod_int [symmetric] del: of_nat_mult of_nat_power)
qed

lemma wrap_left:
  "wrap w (int (wrap w p) + q) = wrap w (p + q)" "wrap w (int (wrap w p) - q) = wrap w (p - q)"
  by (simp_all add: wrap_def mod_add_left_eq mod_diff_left_eq)

lemma shift_bound:
  assumes "(2 :: int) ^ j \<le> 2 ^ (w - 1)" and "0 < w"
  shows "j < w"
  using assms by (simp add: less_eq_Suc_le [symmetric] Suc_le_eq)

text \<open>A product with \<open>2\<^sup>j\<close>, and with the numbers next to it.\<close>

lemma mul_reduced:
  assumes "j < w" and "osem Mul w x n = Some r \<or> osem Mul w n x = Some r"
  shows "int n = 2 ^ j \<Longrightarrow> \<exists>r'. osem Shl w x j = Some r' \<and> r' mod 2 ^ w = r mod 2 ^ w"
    and "int n = 2 ^ j + 1 \<Longrightarrow> \<exists>r1 r2. osem Shl w x j = Some r1 \<and>
      osem Add w (r1 mod 2 ^ w) x = Some r2 \<and> r2 mod 2 ^ w = r mod 2 ^ w"
    and "int n = 2 ^ j - 1 \<Longrightarrow> \<exists>r1 r2. osem Shl w x j = Some r1 \<and>
      osem Sub w (r1 mod 2 ^ w) x = Some r2 \<and> r2 mod 2 ^ w = r mod 2 ^ w"
proof -
  have r: "r = wrap w (int x * int n)" using assms(2) by (auto simp: osem_def mult.commute)
  note sh = osem_shl [OF assms(1), of x]
  show "\<exists>r'. osem Shl w x j = Some r' \<and> r' mod 2 ^ w = r mod 2 ^ w" if "int n = 2 ^ j"
    using sh r that by simp
  show "\<exists>r1 r2. osem Shl w x j = Some r1 \<and> osem Add w (r1 mod 2 ^ w) x = Some r2 \<and> r2 mod 2 ^ w = r mod 2 ^ w"
    if "int n = 2 ^ j + 1"
    using sh r that by (simp add: osem_def [of Add] wrap_left distrib_left)
  show "\<exists>r1 r2. osem Shl w x j = Some r1 \<and> osem Sub w (r1 mod 2 ^ w) x = Some r2 \<and> r2 mod 2 ^ w = r mod 2 ^ w"
    if "int n = 2 ^ j - 1"
    using sh r that by (simp add: osem_def [of Sub] wrap_left right_diff_distrib)
qed

lemma div_reduced:
  assumes "j < w" and "opc = UDiv \<and> n = 2 ^ j \<or> opc = SDiv \<and> n = 1 \<and> j = 0" and "osem opc w x n = Some r" and "x < 2 ^ w"
  shows "\<exists>r'. osem LShr w x j = Some r' \<and> r' mod 2 ^ w = r mod 2 ^ w"
proof -
  have "r = x" if "opc = SDiv" "n = 1" using sdiv_one [of w x r] assms that by simp
  then show ?thesis using assms by (auto simp: osem_def [of LShr] osem_def [of UDiv] split: if_splits)
qed

lemma shift_const: "j < w \<Longrightarrow> w \<le> 64 \<Longrightarrow> int64 (int j) = Inr (int j) \<and> wrap w (int j) = j \<and> j < 2 ^ w"
proof -
  assume j: "j < w" "w \<le> 64"
  have "j < 2 ^ w" using j(1) less_exp [of w] by linarith
  moreover have "int j < 2 ^ 63" using j by simp
  ultimately show ?thesis by (simp add: int64_def wrap_nat)
qed

subsection \<open>One step\<close>

lemma new_not_defined: "k \<notin> oi_id ` set (concat F) \<Longrightarrow> TInst t k \<notin> all_defs F"
  by (auto simp: all_defs_def odefs_def oself_def)

lemma block_defs: "B < length F \<Longrightarrow> odefs (F ! B) \<subseteq> all_defs F"
  unfolding all_defs_def odefs_def by (intro image_mono) (auto intro!: bexI [of _ "F ! B"])

text \<open>What a step leaves: a well-formed refinement, and the instructions to come renamed.\<close>

definition stepped :: "nat \<Rightarrow> ofn \<Rightarrow> nat \<Rightarrow> opts_state \<Rightarrow> nat \<Rightarrow> bool" where
  "stepped B F BI s' BI' \<longleftrightarrow> wf_ofn B (os_fn s') \<and> refines B F (os_fn s') \<and>
     (\<exists>f. (\<forall>x. is_const x \<or> is_const (f x) \<longrightarrow> f x = x) \<and>
       drop (Suc BI') (os_fn s' ! B) = map (osubst f) (drop (Suc BI) (F ! B)))"

text \<open>What is known of an arithmetic instruction of a well-formed block.\<close>

locale insn_at = llvm_edits A for A +
  fixes B F BI i opc w a b
  assumes wf: "wf_ofn B F" and BI: "BI < length (F ! B)" and i: "i = F ! B ! BI"
    and ar: "arith i = Some (opc, w)" and ops: "oi_ops i = [a, b]" and w64: "w \<le> 64"
begin

abbreviation "pre \<equiv> take BI (F ! B)"
abbreviation "post \<equiv> drop (Suc BI) (F ! B)"
abbreviation "DF \<equiv> all_defs F"
abbreviation "ids \<equiv> oi_id ` set (concat F)"

lemma B: "B < length F"
  using wf by (simp add: wf_ofn_def)

lemma ok: "okinsn DF i"
proof -
  have "i \<in> set (concat F)" using B BI i by (auto intro!: bexI [of _ "F ! B"])
  then show ?thesis using wf unfolding wf_ofn_def by blast
qed

lemma facts: "\<not> oi_phi i" "0 < w" "vtype a = IntTy w" "vtype b = IntTy w" "okval DF a" "okval DF b"
  using ok arith_binop [OF ar] ops by (auto simp: okinsn_def)

lemma blk: "F ! B = pre @ i # post"
  using BI i by (simp add: id_take_nth_drop [symmetric])

lemma ord: "ordered (i # post)"
  using wf blk unfolding wf_ofn_def by (metis ordered_append)

lemma defs: "odefs (i # post) \<subseteq> DF"
  using block_defs [OF B] by (subst (asm) blk) (auto simp: odefs_def)

lemma usable_ops: "usable DF i post w a" "usable DF i post w b"
  using facts ord ops by (auto simp: usable_def)

lemma usable_const: "n < 2 ^ w \<Longrightarrow> usable DF i post w (TConst w n)"
  using facts(2) by (auto simp: usable_def okval_def odefs_def oself_def)

lemma shift_amount: "j < w \<Longrightarrow> api_const A w (int j) = TConst w j \<and> usable DF i post w (TConst w j)"
  using shift_const [of j w] w64 const_narrow [OF w64, of "int j"] usable_const by simp

lemma sp: "F = take B F @ (pre @ i # post) # drop (Suc B) F" "length (take B F) = B"
  using block_split [OF B BI] i by simp_all

lemma replace_one:
  assumes "replacement DF ids i [n] post (oself n)"
  shows "wf_ofn B (api_replace_inst A F B BI n)" and "refines B F (api_replace_inst A F B BI n)"
    and "api_replace_inst A F B BI n ! B = map (osubst (rename (oself i) (oself n))) (pre @ n # post)"
proof -
  have eq: "api_replace_inst A F B BI n = edited (take B F) pre i [n] post (drop (Suc B) F) (oself n)"
    unfolding replace_inst [OF B BI] edited_def i
    by (simp add: upd_conv_take_nth_drop [OF B] upd_conv_take_nth_drop [OF BI])
  show "wf_ofn B (api_replace_inst A F B BI n)" unfolding eq by (rule edit_wf [OF wf sp assms])
  show "refines B F (api_replace_inst A F B BI n)" unfolding eq by (rule edit_refines [OF wf sp assms])
  show "api_replace_inst A F B BI n ! B = map (osubst (rename (oself i) (oself n))) (pre @ n # post)"
    unfolding eq edited_def using B by (simp add: nth_append)
qed

lemma replace_two:
  assumes "replacement DF ids i [m, n] post (oself n)"
  defines "F' \<equiv> api_replace_inst A (api_insert A F B BI m) B (Suc BI) n"
  shows "wf_ofn B F'" and "refines B F F'"
    and "F' ! B = map (osubst (rename (oself i) (oself n))) (pre @ m # n # post)"
proof -
  let ?F1 = "F[B := pre @ m # drop BI (F ! B)]"
  have F1: "B < length ?F1" "Suc BI < length (?F1 ! B)" using B BI by simp_all
  have "drop BI (F ! B) = i # post" using BI i by (simp add: Cons_nth_drop_Suc)
  then have blk1: "?F1 ! B = pre @ m # i # post" using B by simp
  then have at: "?F1 ! B ! Suc BI = i" "(?F1 ! B)[Suc BI := n] = pre @ m # n # post"
    using BI by (simp_all add: nth_append list_update_append)
  have "F' = map (map (osubst (rename (oself i) (oself n)))) (F[B := pre @ m # n # post])"
    unfolding F'_def insert_inst [OF B BI] replace_inst [OF F1] at by simp
  then have eq: "F' = edited (take B F) pre i [m, n] post (drop (Suc B) F) (oself n)"
    unfolding edited_def by (simp add: upd_conv_take_nth_drop [OF B])
  show "wf_ofn B F'" unfolding eq by (rule edit_wf [OF wf sp assms(1)])
  show "refines B F F'" unfolding eq by (rule edit_refines [OF wf sp assms(1)])
  show "F' ! B = map (osubst (rename (oself i) (oself n))) (pre @ m # n # post)"
    unfolding eq edited_def using B by (simp add: nth_append)
qed

lemma step_ok_same: "os_fn s = F \<Longrightarrow> stepped B F BI s BI"
  unfolding stepped_def using wf refines_refl by (intro conjI exI [of _ id]) (simp_all add: osubst_id map_idI)

lemma rename_const: "is_const x \<or> is_const (rename (oself i) (oself n) x) \<Longrightarrow> rename (oself i) (oself n) x = x"
  by (auto simp: rename_def is_const_def oself_def)

lemma step_ok_one:
  assumes "replacement DF ids i [n] post (oself n)" and "os_fn s' = api_replace_inst A F B BI n"
  shows "stepped B F BI s' BI"
  unfolding stepped_def assms(2)
proof (intro conjI exI [of _ "rename (oself i) (oself n)"] allI impI)
  show "drop (Suc BI) (api_replace_inst A F B BI n ! B) = map (osubst (rename (oself i) (oself n))) post"
    unfolding replace_one(3) [OF assms(1)] using BI by (simp add: drop_map)
qed (rule replace_one [OF assms(1)] rename_const, assumption?)+

lemma step_ok_two:
  assumes "replacement DF ids i [m, n] post (oself n)"
    and "os_fn s' = api_replace_inst A (api_insert A F B BI m) B (Suc BI) n"
  shows "stepped B F BI s' (Suc BI)"
  unfolding stepped_def assms(2)
proof (intro conjI exI [of _ "rename (oself i) (oself n)"] allI impI)
  show "drop (Suc (Suc BI)) (api_replace_inst A (api_insert A F B BI m) B (Suc BI) n ! B) =
      map (osubst (rename (oself i) (oself n))) post"
    unfolding replace_two(3) [OF assms(1)] using BI by (simp add: drop_map)
qed (rule replace_two [OF assms(1)] rename_const, assumption?)+

lemma fresh_ids:
  "api_new A F \<notin> ids" "TInst t (api_new A F) \<notin> DF"
  "api_new A (api_insert A F B BI m) \<notin> insert (oi_id m) ids" "TInst t (api_new A (api_insert A F B BI m)) \<notin> DF"
proof -
  show 1: "api_new A F \<notin> ids" by (rule new_id)
  then show "TInst t (api_new A F) \<notin> DF" by (rule new_not_defined)
  let ?F1 = "F[B := pre @ m # drop BI (F ! B)]"
  have "?F1 = take B F @ (pre @ m # i # post) # drop (Suc B) F"
    using B BI i by (simp add: upd_conv_take_nth_drop Cons_nth_drop_Suc)
  then have "oi_id ` set (concat ?F1) = insert (oi_id m) ids"
    by (subst (2) sp(1)) auto
  then show 2: "api_new A (api_insert A F B BI m) \<notin> insert (oi_id m) ids"
    unfolding insert_inst [OF B BI] using new_id [of ?F1] by simp
  then show "TInst t (api_new A (api_insert A F B BI m)) \<notin> DF" by (intro new_not_defined) simp
qed

text \<open>A multiplication by the constant \<open>n\<close>, in either operand.\<close>

lemma reduce_mul_ok:
  assumes opc: "opc = Mul" and c: "a = TConst w n \<and> x = b \<or> b = TConst w n \<and> x = a" and n: "n < 2 ^ (w - 1)"
    and run: "reduce_mul A B BI x w n s = Inr (s', BI')" and s: "os_fn s = F"
  shows "stepped B F BI s' BI'"
proof -
  have n': "n < 2 ^ w" using n by (meson diff_le_self less_le_trans one_le_numeral power_increasing)
  have sg: "signed_of w n = int n" using n by (simp add: signed_of_def)
  have x: "usable DF i post w x" using c usable_ops by auto
  then have tx: "vtype x = IntTy w" by (simp add: usable_def)
  have mul: "osem Mul w (oval env x) n = Some r \<or> osem Mul w n (oval env x) = Some r"
    if "osem opc w (oval env a) (oval env b) = Some r" for env r
    using that c n' opc by (auto simp: const_val)
  note sx = sext_narrow [OF facts(2) w64 n', unfolded sg]
  obtain cp k where fl: "find_log_improved (int n) 0 = Inr (cp, k)"
    using run unfolding reduce_mul_def sx by (cases "find_log_improved (int n) 0") auto
  show ?thesis
  proof (cases "cp = - 2")
    case True
    then have "s' = s" "BI' = BI" using run unfolding reduce_mul_def sx by (simp_all add: fl)
    then show ?thesis using step_ok_same s by simp
  next
    case False
    obtain j where k: "k = int j" and
      j: "cp = 0 \<and> int n = 2 ^ j \<or> cp = 1 \<and> int n = 2 ^ j + 1 \<or> cp = - 1 \<and> int n = 2 ^ j - 1"
      by (rule find_log_improved_cases [OF fl False]) simp
    have "int n < 2 ^ (w - 1)" using n by (rule int_less_width)
    then have "(2 :: int) ^ j \<le> 2 ^ (w - 1)" using j by linarith
    then have jw: "j < w" using facts(2) by (rule shift_bound)
    note sh = shift_amount [OF jw]
    let ?k = "api_new A F" let ?m = "binop ?k Shl w x (TConst w j)"
    let ?k' = "api_new A (api_insert A F B BI ?m)"
    have m: "create_binop A F Shl x (TConst w j) = ?m" using tx by (rule create_binop_eq)
    have val: "oval env (TConst w j) = j" for env using shift_const [OF jw w64] by (simp add: const_val)
    have new: "?k \<notin> ids" "?k' \<notin> ids" "?k \<noteq> ?k'" "\<And>t. TInst t ?k \<notin> DF" "\<And>t. TInst t ?k' \<notin> DF"
      using fresh_ids(1,2) fresh_ids(3,4) [where m = ?m] by auto
    consider "cp = 0" "int n = 2 ^ j" | "cp = 1" "int n = 2 ^ j + 1" | "cp = - 1" "int n = 2 ^ j - 1" using j by blast
    then show ?thesis
    proof cases
      case 1
      have "replacement DF ids i [?m] post (TInst (IntTy w) ?k)"
        using mul_reduced(1) [OF jw mul 1(2)] sh
        by (intro replacement_one [OF ar facts(1) ops facts(2) x _ _ new(1,4) defs ord]) (simp_all add: val)
      then have "replacement DF ids i [?m] post (oself ?m)" by (simp only: oself_binop)
      moreover have "os_fn s' = api_replace_inst A F B BI ?m" "BI' = BI"
        using run 1(1) sh unfolding reduce_mul_def sx s by (auto simp: Let_def m fl k)
      ultimately show ?thesis using step_ok_one by simp
    next
      case 2
      let ?f = "binop ?k' Add w (TInst (IntTy w) ?k) x"
      have "replacement DF ids i [?m, ?f] post (TInst (IntTy w) ?k')"
        using mul_reduced(2) [OF jw mul 2(2)] sh
        by (intro replacement_two [OF ar facts(1) ops facts(2) x _ _ new defs ord]) (simp_all add: val)
      then have "replacement DF ids i [?m, ?f] post (oself ?f)" by (simp only: oself_binop)
      moreover have "os_fn s' = api_replace_inst A (api_insert A F B BI ?m) B (Suc BI) ?f" "BI' = Suc BI"
        using run 2(1) sh unfolding reduce_mul_def sx s
        by (auto simp: Let_def m oself_binop create_binop_eq fl k)
      ultimately show ?thesis using step_ok_two by simp
    next
      case 3
      let ?f = "binop ?k' Sub w (TInst (IntTy w) ?k) x"
      have "replacement DF ids i [?m, ?f] post (TInst (IntTy w) ?k')"
        using mul_reduced(3) [OF jw mul 3(2)] sh
        by (intro replacement_two [OF ar facts(1) ops facts(2) x _ _ new defs ord]) (simp_all add: val)
      then have "replacement DF ids i [?m, ?f] post (oself ?f)" by (simp only: oself_binop)
      moreover have "os_fn s' = api_replace_inst A (api_insert A F B BI ?m) B (Suc BI) ?f" "BI' = Suc BI"
        using run 3(1) sh unfolding reduce_mul_def sx s
        by (auto simp: Let_def m oself_binop create_binop_eq fl k)
      ultimately show ?thesis using step_ok_two by simp
    qed
  qed
qed

text \<open>A division by a constant.\<close>

lemma reduce_div_ok:
  assumes c: "b = TConst w n" and opc: "opc = UDiv \<or> opc = SDiv \<and> find_log (signed_of w n) \<le> 0"
    and run: "reduce_div A B BI a w n s = Inr (s', BI')" and s: "os_fn s = F"
  shows "stepped B F BI s' BI'"
proof -
  have n: "n < 2 ^ w" using facts(6) c by (simp add: okval_def)
  note sx = sext_narrow [OF facts(2) w64 n]
  show ?thesis
  proof (cases "0 \<le> find_log (signed_of w n)")
    case False
    then have "s' = s" "BI' = BI" using run unfolding reduce_div_def sx by (simp_all add: Let_def)
    then show ?thesis using step_ok_same s by simp
  next
    case True
    define j where "j = nat (find_log (signed_of w n))"
    have fl: "find_log (signed_of w n) = int j" and sg: "signed_of w n = 2 ^ j"
      using True find_log_spec [OF True] by (simp_all add: j_def)
    then have "(2 :: int) ^ j \<le> 2 ^ (w - 1)" using signed_bounds(2) [OF facts(2) n] by linarith
    then have jw: "j < w" using facts(2) by (rule shift_bound)
    have "int n < 2 ^ w" using n by (rule int_less_width)
    moreover have "signed_of w n = int n \<or> signed_of w n = int n - 2 ^ w" by (simp add: signed_of_def)
    moreover have "(0 :: int) < 2 ^ j" by simp
    ultimately have "int n = 2 ^ j" using sg by linarith
    then have n2: "n = 2 ^ j" by (metis nat_int nat_power_eq nat_numeral zero_le_numeral)
    note sh = shift_amount [OF jw]
    let ?k = "api_new A F" let ?m = "binop ?k LShr w a (TConst w j)"
    have m: "create_binop A F LShr a (TConst w j) = ?m" using facts(3) by (rule create_binop_eq)
    have val: "oval env (TConst w j) = j" for env using shift_const [OF jw w64] by (simp add: const_val)
    have red: "\<exists>r'. osem LShr w (oval env a) (oval env (TConst w j)) = Some r' \<and> r' mod 2 ^ w = r mod 2 ^ w"
      if "osem opc w (oval env a) (oval env b) = Some r" for env r
      unfolding val
    proof (rule div_reduced [OF jw])
      show "opc = UDiv \<and> n = 2 ^ j \<or> opc = SDiv \<and> n = 1 \<and> j = 0" using opc n2 fl by auto
      show "osem opc w (oval env a) n = Some r" using that c n by (simp add: const_val)
    qed (rule oval_bound [OF facts(3)])
    have "replacement DF ids i [?m] post (TInst (IntTy w) ?k)"
      using sh by (intro replacement_one [OF ar facts(1) ops facts(2) usable_ops(1) _ _ fresh_ids(1,2) defs ord red]) simp_all
    then have "replacement DF ids i [?m] post (oself ?m)" by (simp only: oself_binop)
    moreover have "os_fn s' = api_replace_inst A F B BI ?m" "BI' = BI"
      using run sh unfolding reduce_div_def sx s by (auto simp: Let_def m fl)
    ultimately show ?thesis using step_ok_one by simp
  qed
qed

end

lemma reduce_safe_subst:
  assumes "reduce_safe j" and "\<And>x. is_const x \<or> is_const (f x) \<Longrightarrow> f x = x"
    and "oi_binop j \<noteq> None \<Longrightarrow> \<exists>a b. oi_ops j = [a, b]"
  shows "reduce_safe (osubst f j)"
proof -
  have c: "TConst w n = f x \<longleftrightarrow> x = TConst w n" for x w n
    using assms(2) [of x] by (cases "f x"; cases x; auto simp: is_const_def)
  have mem: "TConst w n \<in> set (map f (oi_ops j)) \<longleftrightarrow> TConst w n \<in> set (oi_ops j)" for w n
    by (simp add: image_iff c)
  have snd: "map f (oi_ops j) ! 1 = TConst w n \<longleftrightarrow> oi_ops j ! 1 = TConst w n"
    if "oi_binop j = Some SDiv" for w n
  proof -
    obtain a b where "oi_ops j = [a, b]" using assms(3) \<open>oi_binop j = Some SDiv\<close> by auto
    moreover have "f b = TConst w n \<longleftrightarrow> b = TConst w n" using c [of w n b] by (simp only: eq_commute)
    ultimately show ?thesis by simp
  qed
  show ?thesis
    unfolding reduce_safe_def osubst_sel mem
    using assms(1) snd unfolding reduce_safe_def by blast
qed

lemma strength_step_cases:
  assumes step: "strength_step A B BI s = Inr (s', BI')"
    and ops: "oi_binop (os_fn s ! B ! BI) \<noteq> None \<Longrightarrow> oi_ops (os_fn s ! B ! BI) = [a, b]"
  shows "oi_binop (os_fn s ! B ! BI) = Some Mul \<and>
      ((\<exists>w n. a = TConst w n \<and> reduce_mul A B BI b w n s = Inr (s', BI')) \<or>
       (\<exists>w n. b = TConst w n \<and> reduce_mul A B BI a w n s = Inr (s', BI'))) \<or>
    (\<exists>opc w n. oi_binop (os_fn s ! B ! BI) = Some opc \<and> (opc = UDiv \<or> opc = SDiv) \<and> b = TConst w n \<and>
      reduce_div A B BI a w n s = Inr (s', BI')) \<or> s' = s \<and> BI' = BI"
proof (cases "oi_binop (os_fn s ! B ! BI)")
  case None
  then show ?thesis using step by (simp add: strength_step_def)
next
  case (Some opc)
  then have "oi_ops (os_fn s ! B ! BI) = [a, b]" using ops by simp
  then show ?thesis using step Some
    by (cases opc; cases a; cases b; simp add: strength_step_def is_const_def)
qed

context llvm_edits begin

lemma strength_step_ok:
  assumes wf: "wf_ofn B (os_fn s)" and BI: "BI < length (os_fn s ! B)"
    and safe: "\<forall>j\<in>set (drop BI (os_fn s ! B)). reduce_safe j"
    and step: "strength_step A B BI s = Inr (s', BI')"
  shows "wf_ofn B (os_fn s') \<and> refines B (os_fn s) (os_fn s') \<and>
    (\<forall>j\<in>set (drop (Suc BI') (os_fn s' ! B)). reduce_safe j)"
proof -
  let ?F = "os_fn s" and ?i = "os_fn s ! B ! BI"
  have B: "B < length ?F" using wf by (simp add: wf_ofn_def)
  have ok: "okinsn (all_defs ?F) j" if "j \<in> set (?F ! B)" for j
    using wf that nth_mem [OF B] unfolding wf_ofn_def set_concat by blast
  have rest: "set (drop (Suc BI) (?F ! B)) \<subseteq> set (drop BI (?F ! B))" by (rule set_drop_subset_set_drop) simp
  have i: "reduce_safe ?i" using safe unfolding Cons_nth_drop_Suc [OF BI, symmetric] by simp
  have same: ?thesis if "s' = s" "BI' = BI"
    unfolding that using wf refines_refl safe rest by blast
  have reduced: ?thesis if st: "stepped B ?F BI s' BI'"
  proof -
    obtain f where f: "wf_ofn B (os_fn s')" "refines B ?F (os_fn s')" "\<And>x. is_const x \<or> is_const (f x) \<Longrightarrow> f x = x"
        "drop (Suc BI') (os_fn s' ! B) = map (osubst f) (drop (Suc BI) (?F ! B))"
      using st unfolding stepped_def by blast
    have "reduce_safe (osubst f j)" if "j \<in> set (drop (Suc BI) (?F ! B))" for j
    proof (rule reduce_safe_subst [OF _ f(3)])
      show "reduce_safe j" using safe rest that by blast
      show "\<exists>a b. oi_ops j = [a, b]" if "oi_binop j \<noteq> None"
        using ok [of j] that \<open>j \<in> set (drop (Suc BI) (?F ! B))\<close> by (auto simp: okinsn_def dest: in_set_dropD)
    qed
    then show ?thesis using f(1,2) unfolding f(4) by simp
  qed
  have at: "insn_at A B ?F BI ?i opc w a b" if "oi_binop ?i = Some opc" "oi_ops ?i = [a, b]" "vtype b = IntTy w"
      "opc \<in> {Mul, UDiv, SDiv}" for opc a b w
  proof -
    have "oi_ty ?i = IntTy w" using ok [OF nth_mem [OF BI]] that by (auto simp: okinsn_def)
    then show ?thesis
      using that wf BI i by unfold_locales (auto simp: arith_def reduce_safe_def)
  qed
  obtain a b where ab: "oi_ops ?i = [a, b]" "vtype a = vtype b" if "oi_binop ?i \<noteq> None"
    using ok [OF nth_mem [OF BI]] by (auto simp: okinsn_def)
  consider (mul1) w n where "oi_binop ?i = Some Mul" "a = TConst w n" "reduce_mul A B BI b w n s = Inr (s', BI')"
  | (mul2) w n where "oi_binop ?i = Some Mul" "b = TConst w n" "reduce_mul A B BI a w n s = Inr (s', BI')"
  | (dv) w n opc where "oi_binop ?i = Some opc" "opc = UDiv \<or> opc = SDiv" "b = TConst w n"
      "reduce_div A B BI a w n s = Inr (s', BI')"
  | (no) "s' = s" "BI' = BI"
    using strength_step_cases [OF step ab(1), simplified] by (elim disjE conjE exE) blast+
  then show ?thesis
  proof cases
    case mul1
    then have ops: "oi_ops ?i = [a, b]" "vtype b = IntTy w" using ab by auto
    have "n < 2 ^ (w - 1)" using i mul1(1,2) ops(1) by (auto simp: reduce_safe_def)
    then have "stepped B ?F BI s' BI'"
      by (intro insn_at.reduce_mul_ok [OF at [OF mul1(1) ops] refl _ _ mul1(3) refl]) (simp_all add: mul1(2))
    then show ?thesis by (rule reduced)
  next
    case mul2
    then have ops: "oi_ops ?i = [a, b]" "vtype b = IntTy w" using ab by auto
    have "n < 2 ^ (w - 1)" using i mul2(1,2) ops(1) by (auto simp: reduce_safe_def)
    then have "stepped B ?F BI s' BI'"
      by (intro insn_at.reduce_mul_ok [OF at [OF mul2(1) ops] refl _ _ mul2(3) refl]) (simp_all add: mul2(2))
    then show ?thesis by (rule reduced)
  next
    case dv
    then have ops: "oi_ops ?i = [a, b]" "vtype b = IntTy w" using ab by auto
    have "opc = UDiv \<or> opc = SDiv \<and> find_log (signed_of w n) \<le> 0"
      using i dv(1-3) ops(1) by (auto simp: reduce_safe_def)
    then have "stepped B ?F BI s' BI'"
      using dv(2) by (intro insn_at.reduce_div_ok [OF at [OF dv(1) ops] dv(3) _ dv(4) refl]) auto
    then show ?thesis by (rule reduced)
  next
    case no
    then show ?thesis by (rule same)
  qed
qed

lemma replace_inst_length:
  "B < length F \<Longrightarrow> BI < length (F ! B) \<Longrightarrow> length (api_replace_inst A F B BI j) = length F \<and>
    length (api_replace_inst A F B BI j ! B) = length (F ! B)"
  by (simp add: replace_inst)

lemma insert_length:
  "B < length F \<Longrightarrow> BI < length (F ! B) \<Longrightarrow> length (api_insert A F B BI j) = length F \<and>
    length (api_insert A F B BI j ! B) = Suc (length (F ! B))"
  by (simp add: insert_inst)

lemma reduce_mul_length:
  assumes "B < length (os_fn s)" "BI < length (os_fn s ! B)" "reduce_mul A B BI x w n s = Inr (s', BI')"
  shows "length (os_fn s') = length (os_fn s) \<and> removed s' = removed s \<and> BI' < length (os_fn s' ! B) \<and>
    length (os_fn s' ! B) - Suc BI' = length (os_fn s ! B) - Suc BI"
  using assms insert_length [OF assms(1,2)]
  by (auto simp: reduce_mul_def bind_res_Inr_iff Let_def removed_def replace_inst_length split: if_splits prod.splits)

lemma reduce_div_length:
  assumes "B < length (os_fn s)" "BI < length (os_fn s ! B)" "reduce_div A B BI x w n s = Inr (s', BI')"
  shows "length (os_fn s') = length (os_fn s) \<and> removed s' = removed s \<and> BI' < length (os_fn s' ! B) \<and>
    length (os_fn s' ! B) - Suc BI' = length (os_fn s ! B) - Suc BI"
  using assms
  by (auto simp: reduce_div_def bind_res_Inr_iff Let_def removed_def replace_inst_length split: if_splits)

text \<open>
  A step may lengthen the block, but never what is still to be visited, and it does not count as
  a removal.
\<close>

lemma strength_step_length:
  assumes "B < length (os_fn s)" "BI < length (os_fn s ! B)" "strength_step A B BI s = Inr (s', BI')"
  shows "length (os_fn s') = length (os_fn s) \<and> removed s' = removed s \<and> BI' < length (os_fn s' ! B) \<and>
    length (os_fn s' ! B) - Suc BI' = length (os_fn s ! B) - Suc BI"
  using assms reduce_mul_length [OF assms(1,2)] reduce_div_length [OF assms(1,2)]
  by (auto simp: strength_step_def Let_def split: option.splits opcode.splits tvalue.splits if_splits)

lemma strength_loop_ends:
  assumes "B < length (os_fn s)"
  shows "\<exists>r. strength_loop A B BI s = Some r \<and>
    (\<forall>s' m'. r = Inr (s', m') \<longrightarrow> length (os_fn s') = length (os_fn s) \<and> removed s' = removed s \<and> \<not> m')"
  using assms
proof (induction "length (os_fn s ! B) - BI" arbitrary: BI s rule: less_induct)
  case less
  show ?case
  proof (cases "BI < length (os_fn s ! B)")
    case False
    then show ?thesis by (simp add: strength_loop.simps)
  next
    case True
    show ?thesis
    proof (cases "strength_step A B BI s")
      case (Inl e)
      then show ?thesis using True by (simp add: strength_loop.simps [of _ _ _ s])
    next
      case (Inr p)
      obtain t BI' where p: "p = (t, BI')" by (cases p)
      note len = strength_step_length [OF less.prems True, of t BI']
      have "\<exists>r. strength_loop A B (Suc BI') t = Some r \<and>
          (\<forall>s' m'. r = Inr (s', m') \<longrightarrow> length (os_fn s') = length (os_fn t) \<and> removed s' = removed t \<and> \<not> m')"
        using len Inr p True less.prems by (intro less.hyps) auto
      then show ?thesis using True Inr p len by (subst strength_loop.simps) simp
    qed
  qed
qed

lemma strength_loop_refines:
  assumes "strength_loop A B BI s = Some (Inr (s', m'))" and "wf_ofn B (os_fn s)"
    and "\<forall>j\<in>set (drop BI (os_fn s ! B)). reduce_safe j"
  shows "wf_ofn B (os_fn s') \<and> refines B (os_fn s) (os_fn s')"
  using assms
proof (induction "length (os_fn s ! B) - BI" arbitrary: BI s rule: less_induct)
  case less
  have B: "B < length (os_fn s)" using less.prems(2) by (simp add: wf_ofn_def)
  show ?case
  proof (cases "BI < length (os_fn s ! B)")
    case False
    then show ?thesis using less.prems by (auto simp: strength_loop.simps [of _ _ _ s] refines_refl)
  next
    case True
    then obtain t BI' where step: "strength_step A B BI s = Inr (t, BI')"
        and run: "strength_loop A B (Suc BI') t = Some (Inr (s', m'))"
      using less.prems(1) by (subst (asm) strength_loop.simps) (auto split: sum.splits)
    note ok = strength_step_ok [OF less.prems(2) True less.prems(3) step]
    have "length (os_fn t ! B) - Suc BI' < length (os_fn s ! B) - BI"
      using strength_step_length [OF B True step] True by simp
    from less.hyps [OF this run] ok have "wf_ofn B (os_fn s') \<and> refines B (os_fn t) (os_fn s')" by blast
    then show ?thesis using ok refines_trans by blast
  qed
qed

end

end
