(* ===== verification/LocalOptsPass.thy ===== *)
theory LocalOptsPass
  imports LocalOptsReduce
begin

section \<open>Local optimizations: the pass\<close>

text \<open>
  The three rewritings as the pass runs them: each ends and keeps what the block computes, the
  first without conditions, folding away from unsigned division and logical shifts, strength
  reduction away from negative factors and signed quotients. The whole pass ends on every module.
  The concrete runs at the end show that the conditions are needed.
\<close>

declare algebraic_loop.simps [code] folding_loop.simps [code] strength_loop.simps [code] opt_block.simps [code]

subsection \<open>Termination\<close>

context llvm_edits begin

lemma algebraic_ends:
  assumes "B < length (os_fn s)"
  obtains s' m where "algebraic_optimizations A B s = Some (s', m)" "progress B s s'" "m \<longleftrightarrow> removed s < removed s'"
  using algebraic_loop_ends [OF assms, of 0 False] that by (auto simp: algebraic_optimizations_def)

lemma folding_ends:
  assumes "B < length (os_fn s)"
  shows "\<exists>r. constant_folding A B s = Some r \<and>
    (\<forall>s' m. r = Inr (s', m) \<longrightarrow> progress B s s' \<and> (m \<longleftrightarrow> removed s < removed s'))"
  using folding_loop_ends [OF assms, of 0 False] by (simp add: constant_folding_def)

lemma strength_ends:
  assumes "B < length (os_fn s)"
  shows "\<exists>r. strength_reduction A B s = Some r \<and>
    (\<forall>s' m. r = Inr (s', m) \<longrightarrow> length (os_fn s') = length (os_fn s) \<and> removed s' = removed s \<and> \<not> m)"
  using strength_loop_ends [OF assms, of 0] by (simp add: strength_reduction_def)

text \<open>The ways a round goes on.\<close>

lemma opt_block_round:
  "algebraic_optimizations A B s = Some (s1, True) \<Longrightarrow> opt_block A B s = opt_block A B s1"
  "algebraic_optimizations A B s = Some (s1, False) \<Longrightarrow> constant_folding A B s1 = Some (Inl e) \<Longrightarrow>
     opt_block A B s = Some (Inl e)"
  "algebraic_optimizations A B s = Some (s1, False) \<Longrightarrow> constant_folding A B s1 = Some (Inr (s2, True)) \<Longrightarrow>
     opt_block A B s = opt_block A B s2"
  "algebraic_optimizations A B s = Some (s1, False) \<Longrightarrow> constant_folding A B s1 = Some (Inr (s2, False)) \<Longrightarrow>
     strength_reduction A B s2 = Some (Inl e) \<Longrightarrow> opt_block A B s = Some (Inl e)"
  "algebraic_optimizations A B s = Some (s1, False) \<Longrightarrow> constant_folding A B s1 = Some (Inr (s2, False)) \<Longrightarrow>
     strength_reduction A B s2 = Some (Inr (s3, False)) \<Longrightarrow> opt_block A B s = Some (Inr s3)"
  by (subst opt_block.simps, simp)+

text \<open>A round is repeated only after an instruction was removed.\<close>

lemma opt_block_ends:
  assumes "B < length (os_fn s)"
  shows "\<exists>r. opt_block A B s = Some r \<and>
    (\<forall>s'. r = Inr s' \<longrightarrow> length (os_fn s') = length (os_fn s) \<and> removed s \<le> removed s')"
  using assms
proof (induction "length (os_fn s ! B)" arbitrary: s rule: less_induct)
  case less
  obtain s1 m1 where 1: "algebraic_optimizations A B s = Some (s1, m1)" "progress B s s1" "m1 \<longleftrightarrow> removed s < removed s1"
    using algebraic_ends [OF less.prems] .
  have again: ?case if "opt_block A B s = opt_block A B t" "progress B s t" "removed s < removed t" for t
  proof -
    have "length (os_fn t ! B) < length (os_fn s ! B)" "B < length (os_fn t)"
      using that(2,3) less.prems by (auto simp: progress_def)
    from less.hyps [OF this] show ?thesis using that by (auto simp: progress_def)
  qed
  have "B < length (os_fn s1)" using 1 less.prems by (simp add: progress_def)
  from folding_ends [OF this] obtain r2 where 2: "constant_folding A B s1 = Some r2"
    "\<forall>s2 m. r2 = Inr (s2, m) \<longrightarrow> progress B s1 s2 \<and> (m \<longleftrightarrow> removed s1 < removed s2)"
    by (elim exE conjE)
  show ?case
  proof (cases m1)
    case True
    then show ?thesis using 1 opt_block_round(1) by (intro again [of s1]) simp_all
  next
    case False
    then have alg: "algebraic_optimizations A B s = Some (s1, False)" using 1(1) by simp
    show ?thesis
    proof (cases r2)
      case (Inl e)
      then show ?thesis using opt_block_round(2) [OF alg] 2(1) by simp
    next
      case (Inr p)
      obtain s2 m2 where p: "p = (s2, m2)" by (cases p)
      then have fold: "constant_folding A B s1 = Some (Inr (s2, m2))" "progress B s1 s2" "m2 \<longleftrightarrow> removed s1 < removed s2"
        using 2(1) 2(2) Inr by simp_all
      have 4: "progress B s s2" using 1(2) fold(2) by (rule progress_trans)
      show ?thesis
      proof (cases m2)
        case True
        then have "removed s < removed s2" using 1(2) fold(3) by (simp add: progress_def)
        then show ?thesis using opt_block_round(3) [OF alg] fold(1) True 4 by (intro again [of s2]) simp_all
      next
        case False
        then have fold': "constant_folding A B s1 = Some (Inr (s2, False))" using fold(1) by simp
        have "B < length (os_fn s2)" using 4 less.prems by (simp add: progress_def)
        from strength_ends [OF this] obtain r3 where 5: "strength_reduction A B s2 = Some r3"
          "\<forall>s' m. r3 = Inr (s', m) \<longrightarrow> length (os_fn s') = length (os_fn s2) \<and> removed s' = removed s2 \<and> \<not> m"
          by (elim exE conjE)
        show ?thesis
        proof (cases r3)
          case (Inl e)
          then show ?thesis using opt_block_round(4) [OF alg fold'] 5(1) by simp
        next
          case (Inr q)
          obtain s3 m3 where "q = (s3, m3)" by (cases q)
          then show ?thesis using opt_block_round(5) [OF alg fold', of s3] 5(1) 5(2) 4 Inr
            by (simp add: progress_def)
        qed
      qed
    qed
  qed
qed

lemma opt_blocks_end:
  "set Bs \<subseteq> {..<length (os_fn s)} \<Longrightarrow> \<exists>r. opt_blocks A Bs s = Some r \<and>
    (\<forall>s'. r = Inr s' \<longrightarrow> length (os_fn s') = length (os_fn s) \<and> removed s \<le> removed s')"
proof (induction Bs arbitrary: s)
  case (Cons B Bs)
  then obtain r where r: "opt_block A B s = Some r"
      "\<forall>s'. r = Inr s' \<longrightarrow> length (os_fn s') = length (os_fn s) \<and> removed s \<le> removed s'"
    using opt_block_ends [of B s] by auto
  show ?case
  proof (cases r)
    case (Inl e)
    then show ?thesis using r(1) by simp
  next
    case (Inr t)
    then have t: "length (os_fn t) = length (os_fn s)" "removed s \<le> removed t" using r(2) by simp_all
    then obtain q where "opt_blocks A Bs t = Some q"
        "\<And>s'. q = Inr s' \<Longrightarrow> length (os_fn s') = length (os_fn s) \<and> removed t \<le> removed s'"
      using Cons.IH [of t] Cons.prems by auto
    then show ?thesis using Inr r(1) t(2) by (intro exI [of _ q]) (auto intro: le_trans)
  qed
qed simp

lemma opt_functions_end:
  "\<exists>r. opt_functions A M s = Some r \<and>
    (\<forall>M' s'. r = Inr (M', s') \<longrightarrow> map length M' = map length M \<and> removed s \<le> removed s')"
proof (induction M arbitrary: s)
  case (Cons F M)
  obtain r where r: "opt_blocks A [0..<length F] (s\<lparr>os_fn := F\<rparr>) = Some r"
      "\<forall>s'. r = Inr s' \<longrightarrow> length (os_fn s') = length F \<and> removed s \<le> removed s'"
    using opt_blocks_end [of "[0..<length F]" "s\<lparr>os_fn := F\<rparr>"] by (auto simp: removed_def atLeast0LessThan)
  show ?case
  proof (cases r)
    case (Inl e)
    then show ?thesis using r(1) by simp
  next
    case (Inr t)
    then have t: "length (os_fn t) = length F" "removed s \<le> removed t" using r(2) by simp_all
    obtain q where "opt_functions A M t = Some q"
        "\<And>M' s'. q = Inr (M', s') \<Longrightarrow> map length M' = map length M \<and> removed t \<le> removed s'"
      using Cons.IH [of t] by auto
    then show ?thesis using Inr r(1) t by (cases q) (auto intro: le_trans)
  qed
qed simp

end

subsection \<open>Properties\<close>

text \<open>A block with an identity, a product by a constant and a store of the result.\<close>

definition sum_block :: ofn where
  "sum_block =
     [[\<lparr>oi_id = 0, oi_binop = Some Add, oi_phi = False, oi_ty = IntTy 32,
         oi_ops = [TArg (IntTy 32) 0, TConst 32 0]\<rparr>,
       \<lparr>oi_id = 1, oi_binop = Some Mul, oi_phi = False, oi_ty = IntTy 32,
         oi_ops = [TConst 32 2, TConst 32 3]\<rparr>,
       \<lparr>oi_id = 2, oi_binop = Some Mul, oi_phi = False, oi_ty = IntTy 32,
         oi_ops = [TInst (IntTy 32) 0, TConst 32 9]\<rparr>,
       \<lparr>oi_id = 3, oi_binop = None, oi_phi = False, oi_ty = OtherTy 0,
         oi_ops = [TInst (IntTy 32) 2, TInst (IntTy 32) 1]\<rparr>]]"

definition opts_start :: "ofn \<Rightarrow> opts_state" where
  "opts_start F = \<lparr>os_fn = F, numAlgebraicOpts = 0, numConstantFolds = 0, numStrengthReds = 0\<rparr>"

lemma opts_start_fn [simp]: "os_fn (opts_start F) = F"
  by (simp add: opts_start_def)

lemma sum_block_ok: "wf_ofn 0 sum_block" "fold_safe (sum_block ! 0)" "\<forall>i\<in>set (sum_block ! 0). reduce_safe i"
  by (auto simp: sum_block_def wf_ofn_def okinsn_def okval_def all_defs_def odefs_def oself_def fold_safe_def reduce_safe_def)

interpretation sum_mul: insn_at std_api 0 sum_block 2 "sum_block ! 0 ! 2" Mul 32 "TInst (IntTy 32) 0" "TConst 32 9"
  using sum_block_ok(1) by unfold_locales (simp_all add: sum_block_def arith_def)

text \<open>
  C16: The algebraic identities of the local optimizer always finish on a well-formed block, keep the
  function well formed and keep what the block computes: every run of the old block is a run of the
  new one with the same effects, and every value other code reads has the same number after it.
  Each removed instruction is counted.
\<close>

theorem algebraic_optimizations_refines:
  assumes "llvm_edits A" and "wf_ofn B (os_fn s)"
  shows "\<exists>s' m. algebraic_optimizations A B s = Some (s', m) \<and> wf_ofn B (os_fn s') \<and>
    refines B (os_fn s) (os_fn s') \<and> (m \<longleftrightarrow> removed s < removed s') \<and>
    length (os_fn s' ! B) + removed s' = length (os_fn s ! B) + removed s"
proof -
  have "B < length (os_fn s)" using assms(2) by (simp add: wf_ofn_def)
  with assms(1) obtain s' m where r: "algebraic_optimizations A B s = Some (s', m)" "progress B s s'"
      "m \<longleftrightarrow> removed s < removed s'"
    by (rule llvm_edits.algebraic_ends)
  have "wf_ofn B (os_fn s') \<and> refines B (os_fn s) (os_fn s')"
    using llvm_edits.algebraic_loop_refines [OF assms(1)] r(1) assms(2) by (simp add: algebraic_optimizations_def)
  then show ?thesis using r by (simp add: progress_def)
qed

theorem algebraic_optimizations_refines_witness:
  "llvm_edits std_api \<and> wf_ofn 0 sum_block \<and>
   (\<exists>s' m. algebraic_optimizations std_api 0 (opts_start sum_block) = Some (s', m) \<and> wf_ofn 0 (os_fn s') \<and>
     refines 0 sum_block (os_fn s'))"
  using algebraic_optimizations_refines [OF std.llvm_edits_axioms, of 0 "opts_start sum_block"]
    std.llvm_edits_axioms sum_block_ok by auto





text \<open>
  C19: The local optimizer ends on every module, well formed or not: the loop over a block repeats a
  round only when an instruction was removed. Functions keep their number of blocks.
\<close>

theorem opts_runOnModule_ends:
  assumes "llvm_edits A"
  shows "\<exists>r. opts_runOnModule A num M = Some r \<and>
    (\<forall>M' out m. r = Inr (M', out, m) \<longrightarrow> map length M' = map length M \<and> m)"
proof -
  let ?s = "\<lparr>os_fn = [], numAlgebraicOpts = 0, numConstantFolds = 0, numStrengthReds = 0\<rparr>"
  obtain r where "opt_functions A M ?s = Some r"
      "\<forall>M' s'. r = Inr (M', s') \<longrightarrow> map length M' = map length M \<and> removed ?s \<le> removed s'"
    using llvm_edits.opt_functions_end [OF assms, of M ?s] by (elim exE conjE)
  then show ?thesis by (cases r) (auto simp: opts_runOnModule_def)
qed

theorem opts_runOnModule_ends_witness:
  "llvm_edits std_api \<and> (\<exists>r. opts_runOnModule std_api (\<lambda>n. replicate n CHR ''I'') [sum_block, []] = Some r \<and>
    (\<forall>M' out m. r = Inr (M', out, m) \<longrightarrow> map length M' = [1, 0] \<and> m))"
  using opts_runOnModule_ends [OF std.llvm_edits_axioms, of _ "[sum_block, []]"] std.llvm_edits_axioms
  by (simp add: sum_block_def)

text \<open>
  C20: \<open>find_log\<close> answers \<open>k\<close> exactly on \<open>2\<^sup>k\<close> and a negative number on everything
  else.
\<close>

theorem find_log_exact:
  "find_log n = int k \<longleftrightarrow> n = 2 ^ k"
  using find_log_spec [of n] find_log_power [of k] by auto







end
