(* ===== verification/IntMath.thy ===== *)
theory IntMath
  imports Prelude "HOL-Library.Word" "HOL-Library.Char_ord"
begin

unbundle bit_operations_syntax

section \<open>Integer arithmetic of the simulator\<close>

text \<open>
  \<open>gem5/src/base/intmath.hh\<close>, \<open>intmath.cc\<close> and \<open>bitfield.hh\<close>: primes, logarithms,
  rounding and bit fields. Templates are read at the widths the simulator uses them with;
  \<open>unsigned\<close> is a 32-bit word, \<open>uint64_t\<close> and \<open>Addr\<close> are 64-bit words, and
  \<open>int\<close> is an integer whose overflow ends in \<open>Undefined\<close>. Shifts by the width or more end
  there too.
\<close>

subsection \<open>Primes\<close>

definition int32 :: "int \<Rightarrow> int result" where
  "int32 x = (if - (2 ^ 31) \<le> x \<and> x < 2 ^ 31 then Inr x else Inl Undefined)"

function isPrime_loop :: "int \<Rightarrow> int \<Rightarrow> bool result" where
  "isPrime_loop n i = bind_res (int32 (i * i)) (\<lambda>s.
     if s \<le> n
     then (if n mod i = 0 \<or> n mod (i + 2) = 0 then Inr False else isPrime_loop n (i + 6))
     else Inr True)"
  by auto
termination
proof (relation "measure (\<lambda>(_, i). nat (2 ^ 31 - i))")
  fix n i s :: int
  assume "int32 (i * i) = Inr s"
  then have "i * i < 2 ^ 31" by (simp add: int32_def split: if_splits)
  moreover have "2 ^ 31 * 1 \<le> i * i" if "2 ^ 31 \<le> i" using that by (intro mult_mono) auto
  ultimately have "i < 2 ^ 31" by force
  then show "((n, i + 6), n, i) \<in> measure (\<lambda>(_, i). nat (2 ^ 31 - i))" by simp
qed simp

declare isPrime_loop.simps [simp del]

definition isPrime :: "int \<Rightarrow> bool result" where
  "isPrime n = (if n = 2 \<or> n = 3 then Inr True else isPrime_loop n 5)"

partial_function (option) prevPrime_loop :: "int \<Rightarrow> int \<Rightarrow> int result option" where
  "prevPrime_loop n decr =
     (case isPrime n of
        Inl e \<Rightarrow> Some (Inl e)
      | Inr p \<Rightarrow>
          if p then Some (Inr n)
          else (case int32 (n - decr) of
                  Inl e \<Rightarrow> Some (Inl e)
                | Inr n' \<Rightarrow> prevPrime_loop n' (6 - decr)))"

text \<open>The remainder of C++ has the sign of the dividend.\<close>

definition prevPrime :: "int \<Rightarrow> int result option" where
  "prevPrime n =
     (case int32 (if even n then n - 1 else n) of
        Inl e \<Rightarrow> Some (Inl e)
      | Inr n \<Rightarrow>
          (let decr = sgn n * (\<bar>n\<bar> mod 3)
           in if decr = 0 then
                (case int32 (n - 2) of Inl e \<Rightarrow> Some (Inl e) | Inr n \<Rightarrow> prevPrime_loop n 2)
              else if decr = 1 then prevPrime_loop n 4
              else prevPrime_loop n decr))"

subsection \<open>Powers of two and logarithms\<close>

definition leastSigBit :: "'a::len word \<Rightarrow> 'a word" where
  "leastSigBit n = n AND NOT (n - 1)"

definition isPowerOf2 :: "'a::len word \<Rightarrow> bool" where
  "isPowerOf2 n \<longleftrightarrow> n \<noteq> 0 \<and> leastSigBit n = n"

text \<open>
  One line of the cascades below: a mask, and the shift when it meets a set bit. The last line of a
  cascade in the source does not shift, but nothing reads its word. \<open>unsigned long\<close> is the 64-bit
  type of an LP64 target.
\<close>

definition log_stage :: "'a::len word \<Rightarrow> nat \<Rightarrow> nat \<times> 'a word \<Rightarrow> nat \<times> 'a word" where
  "log_stage m k = (\<lambda>(y, x). if x AND m \<noteq> 0 then (y + k, drop_bit k x) else (y, x))"

definition floorLog2 :: "32 word \<Rightarrow> nat result" where
  "floorLog2 x =
     (if x = 0 then Inl AssertionFailed
      else Inr (fst (log_stage 0x2 1 (log_stage 0xc 2 (log_stage 0xf0 4 (log_stage 0xff00 8
        (log_stage 0xffff0000 16 (0, x))))))))"

definition floorLog2_ul :: "64 word \<Rightarrow> nat result" where
  "floorLog2_ul x =
     (if x = 0 then Inl AssertionFailed
      else Inr (fst (log_stage 0x2 1 (log_stage 0xc 2 (log_stage 0xf0 4 (log_stage 0xff00 8
        (log_stage 0xffff0000 16 (log_stage 0xffffffff00000000 32 (0, x)))))))))"

definition floorLog2_ull :: "64 word \<Rightarrow> nat result" where
  "floorLog2_ull x =
     (if x = 0 then Inl AssertionFailed
      else Inr (fst (log_stage 0x2 1 (log_stage 0xc 2 (log_stage 0xf0 4 (log_stage 0xff00 8
        (log_stage 0xffff0000 16 (log_stage 0xffffffff00000000 32 (0, x)))))))))"

definition floorLog2_int :: "int \<Rightarrow> nat result" where
  "floorLog2_int x = (if x > 0 then floorLog2 (word_of_int x) else Inl AssertionFailed)"

definition floorLog2_long :: "int \<Rightarrow> nat result" where
  "floorLog2_long x = (if x > 0 then floorLog2_ul (word_of_int x) else Inl AssertionFailed)"

definition floorLog2_llong :: "int \<Rightarrow> nat result" where
  "floorLog2_llong x = (if x > 0 then floorLog2_ull (word_of_int x) else Inl AssertionFailed)"

definition ceilLog2 :: "32 word \<Rightarrow> nat result" where
  "ceilLog2 n = (if n = 1 then Inr 0 else bind_res (floorLog2 (n - 1)) (\<lambda>y. Inr (y + 1)))"

definition shl32 :: "32 word \<Rightarrow> nat \<Rightarrow> 32 word result" where
  "shl32 x k = (if k < 32 then Inr (push_bit k x) else Inl Undefined)"

definition floorPow2 :: "32 word \<Rightarrow> 32 word result" where
  "floorPow2 n = bind_res (floorLog2 n) (shl32 1)"

definition ceilPow2 :: "32 word \<Rightarrow> 32 word result" where
  "ceilPow2 n = bind_res (ceilLog2 n) (shl32 1)"

text \<open>
  The loop of \<open>power\<close>; the warnings about overflow are output only. Its counter is an \<open>int\<close>,
  which overflows before it reaches an exponent of \<open>2\<^sup>3\<^sup>1\<close> or more.
\<close>

fun power_loop :: "64 word \<Rightarrow> nat \<Rightarrow> 64 word \<Rightarrow> 64 word" where
  "power_loop n 0 result = result"
| "power_loop n (Suc k) result = power_loop n k (result * n)"

definition power_u64 :: "32 word \<Rightarrow> 32 word \<Rightarrow> 64 word result" where
  "power_u64 n e =
     (if e = 0 then Inr 1
      else if unat e < 2 ^ 31 then Inr (power_loop (ucast n) (unat e - 1) (ucast n)) else Inl Undefined)"

definition divCeil :: "64 word \<Rightarrow> 64 word \<Rightarrow> 64 word result" where
  "divCeil a b = (if b = 0 then Inl Undefined else Inr ((a + b - 1) div b))"

definition roundUp :: "64 word \<Rightarrow> 64 word \<Rightarrow> 64 word" where
  "roundUp val align = (let m = align - 1 in (val + m) AND NOT m)"

definition roundDown :: "64 word \<Rightarrow> 64 word \<Rightarrow> 64 word" where
  "roundDown val align = (let m = align - 1 in val AND NOT m)"

subsection \<open>Digits\<close>

definition isHex :: "char \<Rightarrow> bool" where
  "isHex c \<longleftrightarrow> (CHR ''0'' \<le> c \<and> c \<le> CHR ''9'') \<or> (CHR ''A'' \<le> c \<and> c \<le> CHR ''F'') \<or>
     (CHR ''a'' \<le> c \<and> c \<le> CHR ''f'')"

definition isOct :: "char \<Rightarrow> bool" where
  "isOct c \<longleftrightarrow> CHR ''0'' \<le> c \<and> c \<le> CHR ''7''"

definition isDec :: "char \<Rightarrow> bool" where
  "isDec c \<longleftrightarrow> CHR ''0'' \<le> c \<and> c \<le> CHR ''9''"

definition hex2Int :: "char \<Rightarrow> int" where
  "hex2Int c =
     (if CHR ''0'' \<le> c \<and> c \<le> CHR ''9'' then of_char c - of_char (CHR ''0'')
      else if CHR ''A'' \<le> c \<and> c \<le> CHR ''F'' then of_char c - of_char (CHR ''A'') + 10
      else if CHR ''a'' \<le> c \<and> c \<le> CHR ''f'' then of_char c - of_char (CHR ''a'') + 10
      else 0)"

subsection \<open>Bit fields\<close>

definition mask_bits :: "nat \<Rightarrow> 64 word result" where
  "mask_bits nbits =
     (if nbits = 64 then Inr (- 1) else if nbits < 64 then Inr (push_bit nbits 1 - 1) else Inl Undefined)"

text \<open>A shift of \<open>uint64_t\<close>.\<close>

definition shr64 :: "64 word \<Rightarrow> nat \<Rightarrow> 64 word result" where
  "shr64 x k = (if k < 64 then Inr (drop_bit k x) else Inl Undefined)"

definition shl64 :: "64 word \<Rightarrow> nat \<Rightarrow> 64 word result" where
  "shl64 x k = (if k < 64 then Inr (push_bit k x) else Inl Undefined)"

text \<open>With \<open>lo > hi + 1\<close> the number of bits is negative and the mask undefined.\<close>

definition field_mask :: "nat \<Rightarrow> nat \<Rightarrow> 64 word result" where
  "field_mask hi lo = (if lo \<le> hi + 1 then mask_bits (hi + 1 - lo) else Inl Undefined)"

definition bits :: "64 word \<Rightarrow> nat \<Rightarrow> nat \<Rightarrow> 64 word result" where
  "bits val hi lo =
     bind_res (field_mask hi lo) (\<lambda>m. bind_res (shr64 val lo) (\<lambda>v. Inr (v AND m)))"

definition bits1 :: "64 word \<Rightarrow> nat \<Rightarrow> 64 word result" where
  "bits1 val b = bits val b b"

definition mbits :: "64 word \<Rightarrow> nat \<Rightarrow> nat \<Rightarrow> 64 word result" where
  "mbits val hi lo =
     bind_res (mask_bits (hi + 1)) (\<lambda>m. bind_res (mask_bits lo) (\<lambda>l. Inr (val AND (m AND NOT l))))"

definition mask_range :: "nat \<Rightarrow> nat \<Rightarrow> 64 word result" where
  "mask_range hi lo = mbits (- 1) hi lo"

definition sext :: "nat \<Rightarrow> 64 word \<Rightarrow> 64 word result" where
  "sext N val =
     bind_res (if N = 0 then Inl Undefined else bits val (N - 1) (N - 1)) (\<lambda>sign_bit.
       if sign_bit \<noteq> 0 then bind_res (mask_bits N) (\<lambda>m. Inr (val OR NOT m)) else Inr val)"

definition insertBits :: "64 word \<Rightarrow> nat \<Rightarrow> nat \<Rightarrow> 64 word \<Rightarrow> 64 word result" where
  "insertBits val hi lo bit_val =
     bind_res (field_mask hi lo) (\<lambda>m. bind_res (shl64 m lo) (\<lambda>bmask.
       bind_res (shl64 bit_val lo) (\<lambda>v. Inr ((v AND bmask) OR (val AND NOT bmask)))))"

definition insertBits1 :: "64 word \<Rightarrow> nat \<Rightarrow> 64 word \<Rightarrow> 64 word result" where
  "insertBits1 val b bit_val = insertBits val b b bit_val"

text \<open>The in-place forms give the new value of the reference argument.\<close>

definition replaceBits :: "64 word \<Rightarrow> nat \<Rightarrow> nat \<Rightarrow> 64 word \<Rightarrow> 64 word result" where
  "replaceBits val hi lo bit_val = insertBits val hi lo bit_val"

definition replaceBits1 :: "64 word \<Rightarrow> nat \<Rightarrow> 64 word \<Rightarrow> 64 word result" where
  "replaceBits1 val b bit_val = insertBits val b b bit_val"

text \<open>The lines of the two searches: the test of a field, the count and the shift.\<close>

definition msb_stage :: "nat \<Rightarrow> nat \<times> 64 word \<Rightarrow> (nat \<times> 64 word) result" where
  "msb_stage k = (\<lambda>(msb, val). bind_res (bits val (2 * k - 1) k) (\<lambda>b.
     Inr (if b \<noteq> 0 then (msb + k, drop_bit k val) else (msb, val))))"

definition findMsbSet :: "64 word \<Rightarrow> nat result" where
  "findMsbSet val =
     (if val = 0 then Inr 0
      else bind_res (fold_res msb_stage [32, 16, 8, 4, 2, 1] (0, val)) (\<lambda>(msb, _). Inr msb))"

definition lsb_stage :: "nat \<Rightarrow> nat \<times> 64 word \<Rightarrow> (nat \<times> 64 word) result" where
  "lsb_stage k = (\<lambda>(lsb, val). bind_res (bits val (k - 1) 0) (\<lambda>b.
     Inr (if b = 0 then (lsb + k, drop_bit k val) else (lsb, val))))"

definition findLsbSet :: "64 word \<Rightarrow> nat result" where
  "findLsbSet val =
     (if val = 0 then Inr 64
      else bind_res (fold_res lsb_stage [32, 16, 8, 4, 2, 1] (0, val)) (\<lambda>(lsb, _). Inr lsb))"

definition isPow2 :: "'a::len word \<Rightarrow> bool" where
  "isPow2 v \<longleftrightarrow> v AND (v - 1) = 0"

end
