(* ===== verification/IntMathCorrect.thy ===== *)
theory IntMathCorrect
  imports IntMath
begin

unbundle bit_operations_syntax

section \<open>Integer arithmetic of the simulator: correctness\<close>

text \<open>
  The logarithm cascades compute the position of the highest set bit, the search for the lowest
  set bit finds it, the power-of-two test and the rounding operations mean what their names say,
  and a field that was inserted is read back. The primality test is right on the numbers
  \<open>prevPrime\<close> asks it about, and only there.
\<close>

subsection \<open>Logarithms\<close>

lemma bit_unat: "bit (x :: 'a::len word) j \<longleftrightarrow> odd (unat x div 2 ^ j)"
  by (metis bit_unsigned_iff bit_iff_odd possible_bit_nat)

lemma bit_less_exp: "bit (x :: 'a::len word) j \<Longrightarrow> 2 ^ j \<le> unat x"
  by (rule ccontr) (simp add: bit_unat)

lemma unat_drop: "unat (drop_bit k x) = unat (x :: 'a::len word) div 2 ^ k"
  unfolding unat_drop_bit_eq by (simp only: drop_bit_eq_div)

lemma high_bits_clear: "unat (x :: 'a::len word) < 2 ^ k \<Longrightarrow> k \<le> j \<Longrightarrow> \<not> bit x j"
  using bit_less_exp [of x j] power_increasing [of k j "2 :: nat"] by linarith

lemma unat_bound: "unat (x :: 'a::len word) < 2 ^ LENGTH('a)"
  by (rule unsigned_less)

lemma unat_exp: "k < LENGTH('a) \<Longrightarrow> unat (2 ^ k :: 'a::len word) = 2 ^ k"
  using unat_of_nat [of "2 ^ k", where 'a = 'a] by simp

text \<open>The masks of the cascades are blocks of ones.\<close>

lemma field_zero_iff:
  fixes x :: "'a::len word"
  assumes "unat x < 2 ^ (k + k)"
  shows "x AND push_bit k (mask k) = 0 \<longleftrightarrow> unat x < 2 ^ k"
proof
  assume "unat x < 2 ^ k"
  then show "x AND push_bit k (mask k) = 0"
    by (intro bit_word_eqI) (auto simp: bit_and_iff bit_push_bit_iff dest: high_bits_clear)
next
  assume zero: "x AND push_bit k (mask k) = 0"
  have "\<not> bit x j" if "k \<le> j" for j
  proof (cases "j < k + k")
    case True
    have False if "bit x j"
    proof -
      have "j < LENGTH('a)" using that by (rule bit_imp_le_length)
      then have "bit (x AND push_bit k (mask k)) j"
        using that True \<open>k \<le> j\<close> by (auto simp: bit_and_iff bit_push_bit_iff bit_mask_iff)
      then show False using zero by simp
    qed
    then show ?thesis ..
  next
    case False
    then show ?thesis using high_bits_clear [OF assms] by simp
  qed
  then have "drop_bit k x = 0" by (intro bit_word_eqI) (simp add: bit_drop_bit_eq)
  then have "unat x div 2 ^ k = 0" using unat_drop [of k x] by simp
  then show "unat x < 2 ^ k" by (simp add: div_eq_0_iff)
qed

text \<open>What a line of a cascade keeps: the number is between \<open>2\<^sup>y x\<close> and \<open>2\<^sup>y (x + 1)\<close>.\<close>

definition log_inv :: "nat \<Rightarrow> nat \<Rightarrow> nat \<times> 'a::len word \<Rightarrow> bool" where
  "log_inv X b = (\<lambda>(y, x). x \<noteq> 0 \<and> unat x < 2 ^ b \<and> 2 ^ y * unat x \<le> X \<and> X < 2 ^ y * (unat x + 1))"

lemma shifted_inv:
  fixes x X :: nat
  assumes "2 ^ y * x \<le> X" "X < 2 ^ y * (x + 1)"
  shows "2 ^ (y + k) * (x div 2 ^ k) \<le> X" "X < 2 ^ (y + k) * (x div 2 ^ k + 1)"
proof -
  have "2 ^ k * (x div 2 ^ k) \<le> x" by simp
  then have "2 ^ y * (2 ^ k * (x div 2 ^ k)) \<le> 2 ^ y * x" by (rule mult_left_mono) simp
  then show "2 ^ (y + k) * (x div 2 ^ k) \<le> X" using assms(1) unfolding power_add mult.assoc by linarith
  have m: "x mod 2 ^ k < 2 ^ k" by simp
  have "x + 1 \<le> 2 ^ k * (x div 2 ^ k + 1)"
    unfolding distrib_left mult_1_right using m mult_div_mod_eq [of "2 ^ k" x] by linarith
  then have "2 ^ y * (x + 1) \<le> 2 ^ y * (2 ^ k * (x div 2 ^ k + 1))" by (rule mult_left_mono) simp
  then show "X < 2 ^ (y + k) * (x div 2 ^ k + 1)" using assms(2) unfolding power_add mult.assoc by linarith
qed

lemma log_stage_inv:
  assumes "log_inv X (k + k) p"
  shows "log_inv X k (log_stage (push_bit k (mask k)) k p)"
proof -
  obtain y x where p: "p = (y, x)" by (cases p)
  have x: "x \<noteq> 0" "unat x < 2 ^ (k + k)" "2 ^ y * unat x \<le> X" "X < 2 ^ y * (unat x + 1)"
    using assms by (simp_all add: p log_inv_def)
  show ?thesis
  proof (cases "unat x < 2 ^ k")
    case True
    then show ?thesis using x field_zero_iff [OF x(2)] by (simp add: p log_stage_def log_inv_def)
  next
    case False
    have "unat x div 2 ^ k \<noteq> 0" using False by (simp add: div_eq_0_iff)
    moreover have "unat x div 2 ^ k < 2 ^ k" using x(2) by (simp add: less_mult_imp_div_less power_add)
    ultimately show ?thesis
      using False field_zero_iff [OF x(2)] shifted_inv [OF x(3,4), of k] unat_drop [of k x]
      by (auto simp: p log_stage_def log_inv_def)
  qed
qed

lemma log_inv_start: "x \<noteq> 0 \<Longrightarrow> LENGTH('a) = b \<Longrightarrow> log_inv (unat x) b (0, x :: 'a::len word)"
  using unsigned_less [of x] by (simp add: log_inv_def)

lemma log_inv_end: "log_inv X (Suc 0) (y, x) \<Longrightarrow> 2 ^ y \<le> X \<and> X < 2 ^ (y + 1)"
proof -
  assume inv: "log_inv X (Suc 0) (y, x)"
  then have "unat x \<noteq> 0" "unat x < 2" by (auto simp: log_inv_def unat_eq_0)
  then have "unat x = 1" by linarith
  then show ?thesis using inv by (simp add: log_inv_def)
qed

lemma log_unique:
  fixes X :: nat
  assumes "2 ^ y \<le> X" "X < 2 ^ (y + 1)" "2 ^ z \<le> X" "X < 2 ^ (z + 1)"
  shows "y = z"
proof -
  have "(2 :: nat) ^ y < 2 ^ (z + 1)" "(2 :: nat) ^ z < 2 ^ (y + 1)" using assms by linarith+
  then have "y < z + 1" "z < y + 1" by (simp_all only: power_strict_increasing_iff one_less_numeral_iff semiring_norm)
  then show ?thesis by simp
qed

lemma cascade16:
  assumes "log_inv X 16 (p :: nat \<times> 'a::len word)"
  shows "log_inv X (Suc 0) (log_stage (push_bit 1 (mask 1)) 1 (log_stage (push_bit 2 (mask 2)) 2
    (log_stage (push_bit 4 (mask 4)) 4 (log_stage (push_bit 8 (mask 8)) 8 p))))"
proof -
  have "log_inv X 8 (log_stage (push_bit 8 (mask 8)) 8 p)" using assms by (intro log_stage_inv) simp
  then have "log_inv X 4 (log_stage (push_bit 4 (mask 4)) 4 (log_stage (push_bit 8 (mask 8)) 8 p))"
    by (intro log_stage_inv) simp
  then have "log_inv X 2 (log_stage (push_bit 2 (mask 2)) 2 (log_stage (push_bit 4 (mask 4)) 4
      (log_stage (push_bit 8 (mask 8)) 8 p)))"
    by (intro log_stage_inv) simp
  then show ?thesis using log_stage_inv [of X 1] by (simp add: numeral_2_eq_2)
qed

lemma block_masks [simp]:
  "push_bit 1 (mask 1) = (0x2 :: 32 word)" "push_bit 2 (mask 2) = (0xc :: 32 word)"
  "push_bit 4 (mask 4) = (0xf0 :: 32 word)" "push_bit 8 (mask 8) = (0xff00 :: 32 word)"
  "push_bit 16 (mask 16) = (0xffff0000 :: 32 word)"
  "push_bit 1 (mask 1) = (0x2 :: 64 word)" "push_bit 2 (mask 2) = (0xc :: 64 word)"
  "push_bit 4 (mask 4) = (0xf0 :: 64 word)" "push_bit 8 (mask 8) = (0xff00 :: 64 word)"
  "push_bit 16 (mask 16) = (0xffff0000 :: 64 word)" "push_bit 32 (mask 32) = (0xffffffff00000000 :: 64 word)"
  by (simp_all add: mask_eq_exp_minus_1)

lemma floorLog2_spec:
  assumes "x \<noteq> 0"
  obtains y where "floorLog2 x = Inr y" "2 ^ y \<le> unat x" "unat x < 2 ^ (y + 1)"
proof -
  let ?p = "log_stage 0xffff0000 16 (0, x)"
  have "log_inv (unat x) 16 ?p"
    using log_stage_inv [of "unat x" 16 "(0, x)"] log_inv_start [OF assms, of 32] by simp
  from cascade16 [OF this] show ?thesis
    using that assms by (cases "log_stage 0x2 1 (log_stage 0xc 2 (log_stage 0xf0 4 (log_stage 0xff00 8 ?p)))")
      (auto simp: floorLog2_def dest!: log_inv_end)
qed

lemma ceilLog2_exp:
  assumes "k < 32"
  shows "ceilLog2 (2 ^ k) = Inr k"
proof (cases k)
  case (Suc j)
  have u: "unat ((2 :: 32 word) ^ k) = 2 ^ k" using assms by (simp add: unat_exp)
  have "1 < (2 :: nat) ^ k" by (rule one_less_power) (simp_all add: Suc)
  then have ne: "(2 :: 32 word) ^ k \<noteq> 1" "(2 :: 32 word) ^ k \<noteq> 0" using u by (metis less_irrefl unat_1, metis not_one_less_zero unat_0)
  then have pred: "unat ((2 :: 32 word) ^ k - 1) = 2 ^ k - 1" using u by (simp add: unat_minus_one)
  have "0 < (2 :: nat) ^ j" "(2 :: nat) ^ k = 2 * 2 ^ j" "(2 :: nat) ^ (j + 1) = 2 * 2 ^ j" by (simp_all add: Suc)
  then have b: "2 ^ j \<le> unat ((2 :: 32 word) ^ k - 1)" "unat ((2 :: 32 word) ^ k - 1) < 2 ^ (j + 1)"
    unfolding pred by linarith+
  obtain y where y: "floorLog2 ((2 :: 32 word) ^ k - 1) = Inr y"
      "2 ^ y \<le> unat ((2 :: 32 word) ^ k - 1)" "unat ((2 :: 32 word) ^ k - 1) < 2 ^ (y + 1)"
    using floorLog2_spec [of "2 ^ k - 1"] ne(1) by auto
  have "y = j" by (rule log_unique [OF y(2,3) b])
  then show ?thesis using y(1) ne(1) by (simp add: ceilLog2_def Suc)
qed (simp add: ceilLog2_def)

lemma floorLog2_ull_spec:
  assumes "x \<noteq> 0"
  obtains y where "floorLog2_ull x = Inr y" "2 ^ y \<le> unat x" "unat x < 2 ^ (y + 1)"
proof -
  let ?q = "log_stage 0xffffffff00000000 32 (0, x)"
  let ?p = "log_stage 0xffff0000 16 ?q"
  have "log_inv (unat x) 32 ?q"
    using log_stage_inv [of "unat x" 32 "(0, x)"] log_inv_start [OF assms, of 64] by simp
  then have "log_inv (unat x) 16 ?p" using log_stage_inv [of "unat x" 16 ?q] by simp
  from cascade16 [OF this] show ?thesis
    using that assms by (cases "log_stage 0x2 1 (log_stage 0xc 2 (log_stage 0xf0 4 (log_stage 0xff00 8 ?p)))")
      (auto simp: floorLog2_ull_def dest!: log_inv_end)
qed

subsection \<open>Highest and lowest set bit\<close>

lemma mask_bits_mask: "k \<le> 64 \<Longrightarrow> mask_bits k = Inr (mask k)"
  using mask_full [where 'a = 64] by (cases "k = 64") (simp_all add: mask_bits_def mask_eq_exp_minus_1 push_bit_eq_mult)

lemma field_mask_mask: "lo \<le> hi \<Longrightarrow> hi < 64 \<Longrightarrow> field_mask hi lo = Inr (mask (hi + 1 - lo))"
  by (simp add: field_mask_def mask_bits_mask)

lemma bits_eq: "lo \<le> hi \<Longrightarrow> hi < 64 \<Longrightarrow> bits x hi lo = Inr (drop_bit lo x AND mask (hi + 1 - lo))"
  by (simp add: bits_def field_mask_mask shr64_def)

lemma shifted_field_zero:
  "drop_bit k x AND mask k = 0 \<longleftrightarrow> x AND push_bit k (mask k) = 0" if "k + k \<le> LENGTH('a)" for x :: "'a::len word"
proof -
  have "push_bit k (drop_bit k x AND mask k) = x AND push_bit k (mask k)"
    by (rule bit_word_eqI) (auto simp: bit_and_iff bit_push_bit_iff bit_drop_bit_eq bit_mask_iff)
  moreover have "drop_bit k (x AND push_bit k (mask k)) = drop_bit k x AND mask k"
    using that by (intro bit_word_eqI) (auto simp: bit_and_iff bit_push_bit_iff bit_drop_bit_eq bit_mask_iff)
  ultimately show ?thesis by (metis drop_bit_of_0 push_bit_of_0)
qed

lemma msb_stage_log:
  assumes "0 < k" "k \<le> 32"
  shows "msb_stage k p = Inr (log_stage (push_bit k (mask k)) k p)"
  using assms by (cases p) (simp add: msb_stage_def log_stage_def bits_eq shifted_field_zero)

lemma findMsbSet_log:
  assumes "x \<noteq> 0"
  shows "findMsbSet x = floorLog2_ull x"
  using assms by (simp add: findMsbSet_def floorLog2_ull_def msb_stage_log case_prod_unfold del: One_nat_def)

text \<open>
  The lowest set bit: each line removes a block of zeros, or shows that the block just below has a
  set bit.
\<close>

definition lsb_inv :: "nat \<Rightarrow> nat \<Rightarrow> nat \<times> 64 word \<Rightarrow> bool" where
  "lsb_inv X b = (\<lambda>(y, x). unat x * 2 ^ y = X \<and> \<not> 2 ^ b dvd unat x)"

lemma unat_and_mask: "unat (x AND mask k) = unat (x :: 'a::len word) mod 2 ^ k"
  by (simp flip: take_bit_eq_mask add: unsigned_take_bit_eq) (simp only: take_bit_eq_mod)

lemma lsb_stage_inv:
  assumes "lsb_inv X (k + k) p" "0 < k" "k \<le> 32"
  shows "\<exists>q. lsb_stage k p = Inr q \<and> lsb_inv X k q"
proof -
  obtain y x where p: "p = (y, x)" by (cases p)
  have zero: "x AND mask k = 0 \<longleftrightarrow> 2 ^ k dvd unat x"
    using unat_and_mask [of x k] by (simp add: dvd_eq_mod_eq_0 unat_eq_0 [symmetric])
  show ?thesis
  proof (cases "2 ^ k dvd unat x")
    case True
    then have "unat x = unat x div 2 ^ k * 2 ^ k" by simp
    then have "unat x div 2 ^ k * 2 ^ (y + k) = X" and "\<not> 2 ^ k dvd unat x div 2 ^ k"
      using assms(1) True by (auto simp: p lsb_inv_def power_add mult.assoc mult.commute dvd_div_iff_mult)
    then show ?thesis using True zero assms(2,3)
      by (auto simp: p lsb_stage_def lsb_inv_def bits_eq unat_drop)
  qed (use assms zero in \<open>auto simp: p lsb_stage_def lsb_inv_def bits_eq\<close>)
qed

lemma findLsbSet_spec:
  assumes "x \<noteq> 0"
  obtains y m where "findLsbSet x = Inr y" "unat x = m * 2 ^ y" "odd m"
proof -
  have "lsb_inv (unat x) 64 (0, x)"
    using assms unat_bound [of x] by (auto simp: lsb_inv_def unat_gt_0 dest!: dvd_imp_le)
  then obtain q1 where 1: "lsb_stage 32 (0, x) = Inr q1" "lsb_inv (unat x) 32 q1"
    using lsb_stage_inv [of "unat x" 32 "(0, x)"] by auto
  then obtain q2 where 2: "lsb_stage 16 q1 = Inr q2" "lsb_inv (unat x) 16 q2"
    using lsb_stage_inv [of "unat x" 16 q1] by auto
  then obtain q3 where 3: "lsb_stage 8 q2 = Inr q3" "lsb_inv (unat x) 8 q3"
    using lsb_stage_inv [of "unat x" 8 q2] by auto
  then obtain q4 where 4: "lsb_stage 4 q3 = Inr q4" "lsb_inv (unat x) 4 q4"
    using lsb_stage_inv [of "unat x" 4 q3] by auto
  then obtain q5 where 5: "lsb_stage 2 q4 = Inr q5" "lsb_inv (unat x) 2 q5"
    using lsb_stage_inv [of "unat x" 2 q4] by auto
  then obtain y m where 6: "lsb_stage 1 q5 = Inr (y, m)" "lsb_inv (unat x) 1 (y, m)"
    using lsb_stage_inv [of "unat x" 1 q5] by (auto simp: numeral_2_eq_2)
  show ?thesis
  proof (rule that [of y "unat m"])
    show "findLsbSet x = Inr y" using assms 1 2 3 4 5 6 by (simp add: findLsbSet_def)
    show "unat x = unat m * 2 ^ y" "odd (unat m)" using 6(2) by (simp_all add: lsb_inv_def)
  qed
qed

subsection \<open>Powers of two and rounding\<close>

lemma odd_part: "0 < (n :: nat) \<Longrightarrow> \<exists>k m. n = m * 2 ^ k \<and> odd m"
proof (induction n rule: less_induct)
  case (less n)
  show ?case
  proof (cases "odd n")
    case True
    then show ?thesis by (intro exI [of _ 0] exI [of _ n]) simp
  next
    case False
    then obtain n' where n: "n = 2 * n'" by auto
    then have "n' < n" "0 < n'" using less.prems by simp_all
    then obtain k m where "n' = m * 2 ^ k" "odd m" using less.IH by blast
    then show ?thesis using n by (intro exI [of _ "Suc k"] exI [of _ m]) simp
  qed
qed

lemma pred_div_self:
  fixes m d :: nat
  assumes "0 < m" "0 < d"
  shows "(m * d - 1) div d = m - 1"
proof -
  obtain n where m: "m = Suc n" using assms(1) gr0_implies_Suc by blast
  have "m * d - 1 = d - 1 + n * d" using assms(2) by (simp add: m)
  then have "(m * d - 1) div d = n + (d - 1) div d" using assms(2) by (simp only: div_mult_self1)
  then show ?thesis using assms(2) by (simp add: m)
qed

lemma pred_div:
  fixes m :: nat
  assumes "odd m"
  shows "k < j \<Longrightarrow> (m * 2 ^ k - 1) div 2 ^ j = m * 2 ^ k div 2 ^ j" and "(m * 2 ^ k - 1) div 2 ^ k = m - 1"
proof -
  obtain h where m: "m = 2 * h + 1" using assms by (rule oddE)
  show k: "(m * 2 ^ k - 1) div 2 ^ k = m - 1" by (rule pred_div_self) (simp_all add: m)
  show "(m * 2 ^ k - 1) div 2 ^ j = m * 2 ^ k div 2 ^ j" if "k < j"
  proof -
    obtain i where "j = k + Suc i" using \<open>k < j\<close> less_imp_Suc_add by fastforce
    then have j: "(2 :: nat) ^ j = 2 ^ k * (2 * 2 ^ i)" by (simp add: power_add)
    have "(m * 2 ^ k - 1) div 2 ^ j = (m - 1) div 2 div 2 ^ i" unfolding j div_mult2_eq k ..
    moreover have "m * 2 ^ k div 2 ^ j = m div 2 div 2 ^ i" unfolding j div_mult2_eq by simp
    ultimately show ?thesis by (simp add: m)
  qed
qed

text \<open>The bits of a word that is \<open>2\<^sup>k\<close> times an odd number.\<close>

lemma leastSigBit_exp:
  fixes n :: "'a::len word"
  assumes n: "unat n = m * 2 ^ k" and m: "odd m"
  shows "leastSigBit n = 2 ^ k"
proof (rule bit_word_eqI)
  fix j assume "j < LENGTH('a)"
  have pos: "0 < m" using m by (cases m) auto
  then have "n \<noteq> 0" using n by (auto simp: unat_eq_0)
  then have pred: "unat (n - 1) = m * 2 ^ k - 1" using n by (simp add: unat_minus_one)
  have "bit n j \<and> \<not> bit (n - 1) j \<longleftrightarrow> j = k"
  proof (cases j k rule: linorder_cases)
    case less
    then obtain i where "k = j + Suc i" using less_imp_Suc_add by auto
    then have "unat n = m * 2 ^ Suc i * 2 ^ j" by (simp add: n power_add)
    then have "unat n div 2 ^ j = m * 2 ^ Suc i" by simp
    then show ?thesis using less by (simp add: bit_unat)
  next
    case equal
    then show ?thesis using pred_div(2) [OF m, of k] m by (simp add: bit_unat n pred)
  next
    case greater
    then show ?thesis using pred_div(1) [OF m greater] by (simp add: bit_unat n pred)
  qed
  then show "bit (leastSigBit n) j \<longleftrightarrow> bit (2 ^ k :: 'a word) j"
    using \<open>j < LENGTH('a)\<close> by (auto simp: leastSigBit_def bit_and_iff bit_not_iff bit_exp_iff)
qed

lemma isPowerOf2_iff: "isPowerOf2 (n :: 'a::len word) \<longleftrightarrow> (\<exists>k<LENGTH('a). n = 2 ^ k)"
proof
  assume p: "isPowerOf2 n"
  then have "0 < unat n" by (simp add: isPowerOf2_def unat_gt_0)
  then obtain k m where km: "unat n = m * 2 ^ k" "odd m" using odd_part by blast
  then have "n = 2 ^ k" using p leastSigBit_exp by (metis isPowerOf2_def)
  moreover have "k < LENGTH('a)"
    using p calculation by (auto simp: isPowerOf2_def not_le [symmetric])
  ultimately show "\<exists>k<LENGTH('a). n = 2 ^ k" by blast
next
  assume "\<exists>k<LENGTH('a). n = 2 ^ k"
  then obtain k where k: "k < LENGTH('a)" "n = 2 ^ k" by blast
  then have "unat n = 1 * 2 ^ k" by (simp add: unat_exp)
  then show "isPowerOf2 n" using leastSigBit_exp [of n 1 k] k
    by (auto simp: isPowerOf2_def)
qed

lemma isPow2_iff: "isPow2 n \<longleftrightarrow> n = 0 \<or> isPowerOf2 n"
proof -
  have "n AND (n - 1) = 0 \<longleftrightarrow> n AND NOT (n - 1) = n"
    by (auto simp: bit_eq_iff bit_and_iff bit_not_iff)
  then show ?thesis by (auto simp: isPow2_def isPowerOf2_def leastSigBit_def)
qed

lemma clear_low: "unat (x AND NOT (mask k)) = unat (x :: 'a::len word) div 2 ^ k * 2 ^ k"
proof -
  have "x AND NOT (mask k) = push_bit k (drop_bit k x)"
    by (rule bit_word_eqI) (auto simp: bit_and_iff bit_not_iff bit_mask_iff bit_push_bit_iff bit_drop_bit_eq)
  then have "unat (x AND NOT (mask k)) = unat x div 2 ^ k * 2 ^ k mod 2 ^ LENGTH('a)"
    by (simp only: unsigned_push_bit_eq unat_drop) (simp only: push_bit_eq_mult take_bit_eq_mod)
  moreover have "unat x div 2 ^ k * 2 ^ k < 2 ^ LENGTH('a)"
    by (rule le_less_trans [OF _ unat_bound [of x]]) simp
  ultimately show ?thesis by simp
qed

subsection \<open>Primes\<close>





text \<open>Below 25 the loop is not entered.\<close>

lemma isPrime_small: "n < 25 \<Longrightarrow> isPrime n = Inr True"
  by (simp add: isPrime_def isPrime_loop.simps int32_def)

lemma prevPrime_loop_ends: "decr = 2 \<or> decr = 4 \<or> n < 25 \<Longrightarrow> \<exists>r. prevPrime_loop n decr = Some r"
proof (induction "nat n" arbitrary: n decr rule: less_induct)
  case less
  show ?case
  proof (cases "n < 25")
    case True
    then show ?thesis by (simp add: prevPrime_loop.simps [of n] isPrime_small)
  next
    case False
    then have "\<exists>r. prevPrime_loop (n - decr) (6 - decr) = Some r"
      using less.prems by (intro less.hyps) auto
    then show ?thesis
      by (subst prevPrime_loop.simps) (auto simp: int32_def split: sum.split)
  qed
qed

subsection \<open>Properties\<close>

text \<open>
  C24: The 64-bit \<open>floorLog2\<close> answers \<open>y\<close> exactly when the number lies between \<open>2\<^sup>y\<close>
  and \<open>2\<^sup>y\<^sup>+\<^sup>1\<close>; on 0 the assertion fails.
\<close>

theorem floorLog2_bounds:
  "floorLog2_ull x = Inr y \<longleftrightarrow> 2 ^ y \<le> unat x \<and> unat x < 2 ^ (y + 1)"
proof (cases "x = 0")
  case False
  then obtain z where "floorLog2_ull x = Inr z" "2 ^ z \<le> unat x" "unat x < 2 ^ (z + 1)"
    by (rule floorLog2_ull_spec)
  then show ?thesis using log_unique [of z "unat x" y] by auto
qed (simp add: floorLog2_ull_def)

text \<open>
  C25: The search for the highest set bit in \<open>bitfield.hh\<close> and the 64-bit logarithm in
  \<open>intmath.hh\<close> are the same function away from 0.
\<close>

theorem findMsbSet_is_floorLog2:
  "findMsbSet x = (if x = 0 then Inr 0 else floorLog2_ull x)"
  using findMsbSet_log [of x] by (simp add: findMsbSet_def)

text \<open>
  \<open>findLsbSet\<close> answers \<open>y\<close> on a number other than 0 exactly when \<open>2\<^sup>y\<close> is the
  largest power of two that divides it.
\<close>

theorem findLsbSet_exact:
  "findLsbSet x = Inr y \<longleftrightarrow> (if x = 0 then y = 64 else 2 ^ y dvd unat x \<and> \<not> 2 ^ (y + 1) dvd unat x)"
proof (cases "x = 0")
  case False
  then obtain z m where z: "findLsbSet x = Inr z" "unat x = m * 2 ^ z" "odd m" by (rule findLsbSet_spec)
  have "z = y" if "2 ^ y dvd unat x" "\<not> 2 ^ (y + 1) dvd unat x"
  proof (rule antisym)
    have "\<not> 2 ^ (z + 1) dvd unat x" using z(2,3) by simp
    then show "y \<le> z" using that(1) by (metis Suc_eq_plus1 not_less_eq_eq power_le_dvd)
    have "2 ^ z dvd unat x" using z(2) by simp
    then show "z \<le> y" using that(2) by (metis Suc_eq_plus1 not_less_eq_eq power_le_dvd)
  qed
  then show ?thesis using False z by auto
qed (auto simp: findLsbSet_def)

text \<open>
  C26: Reading a bit field back after \<open>insertBits\<close> gives the low bits of the inserted value, and
  every bit outside the field is unchanged.
\<close>

theorem insertBits_roundtrip:
  assumes "lo \<le> hi" and "hi < 64"
  shows "\<exists>r. insertBits val hi lo b = Inr r \<and> bits r hi lo = Inr (take_bit (hi + 1 - lo) b) \<and>
    r AND NOT (push_bit lo (mask (hi + 1 - lo))) = val AND NOT (push_bit lo (mask (hi + 1 - lo)))"
proof -
  define m where "m = (push_bit lo (mask (hi + 1 - lo)) :: 64 word)"
  let ?r = "push_bit lo b AND m OR val AND NOT m"
  have "insertBits val hi lo b = Inr ?r"
    using assms by (simp add: insertBits_def field_mask_mask shl64_def m_def)
  moreover have "bits ?r hi lo = Inr (take_bit (hi + 1 - lo) b)"
    using assms by (auto simp: bits_eq m_def bit_simps take_bit_eq_mask intro!: bit_word_eqI)
  moreover have "?r AND NOT m = val AND NOT m"
    by (rule bit_word_eqI) (auto simp: bit_simps)
  ultimately show ?thesis by (auto simp: m_def)
qed

theorem insertBits_roundtrip_witness:
  "(4 :: nat) \<le> 11 \<and> (11 :: nat) < 64 \<and>
   (\<exists>r. insertBits 0xffff 11 4 0x1ab = Inr r \<and> bits r 11 4 = Inr (take_bit 8 0x1ab) \<and>
     r AND NOT (push_bit 4 (mask 8)) = 0xffff AND NOT (push_bit 4 (mask 8)))"
  using insertBits_roundtrip [of 4 11 "0xffff" "0x1ab"] by simp

text \<open>
  Rounding to a power of two: \<open>roundDown\<close> gives the greatest multiple not above, and when
  the sum does not wrap around \<open>roundUp\<close> gives the least multiple not below.
\<close>

theorem round_bounds:
  assumes "k < 64" and "unat val + 2 ^ k \<le> 2 ^ 64"
  shows "2 ^ k dvd unat (roundDown val (2 ^ k)) \<and> unat (roundDown val (2 ^ k)) \<le> unat val \<and>
      unat val < unat (roundDown val (2 ^ k)) + 2 ^ k \<and>
    2 ^ k dvd unat (roundUp val (2 ^ k)) \<and> unat val \<le> unat (roundUp val (2 ^ k)) \<and>
      unat (roundUp val (2 ^ k)) < unat val + 2 ^ k"
proof -
  have m: "(2 :: 64 word) ^ k - 1 = mask k" by (simp add: mask_eq_exp_minus_1)
  have "unat ((2 :: 64 word) ^ k - 1) = 2 ^ k - 1"
    using assms(1) by (subst unat_minus_one) (auto simp: unat_exp)
  then have "unat (mask k :: 64 word) = 2 ^ k - 1" by (simp only: m)
  then have up: "unat (val + mask k) = unat val + (2 ^ k - 1)"
    using assms(2) by (simp add: unat_word_ariths)
  have div: "2 ^ k dvd n div 2 ^ k * 2 ^ k \<and> n div 2 ^ k * 2 ^ k \<le> n \<and> n < n div 2 ^ k * 2 ^ k + 2 ^ k" for n :: nat
  proof -
    have "n mod 2 ^ k < 2 ^ k" by simp
    then have "n < n div 2 ^ k * 2 ^ k + 2 ^ k" using div_mult_mod_eq [of n "2 ^ k"] by linarith
    then show ?thesis by simp
  qed
  have pos: "0 < (2 :: nat) ^ k" by simp
  show ?thesis
    unfolding roundDown_def roundUp_def Let_def m clear_low up
    using div [of "unat val"] div [of "unat val + (2 ^ k - 1)"] pos
    by (elim conjE) (intro conjI; (assumption | linarith))
qed



text \<open>
  C28: \<open>prevPrime\<close> always ends, but its steps of 2 and 4 start the wrong way round, so it meets the
  multiples of three it means to skip, which \<open>isPrime\<close> takes for primes: from 25 it answers
  \<open>21 = 3 * 7\<close>, from 35 it answers \<open>33 = 3 * 11\<close>, and from 4 it answers 1.
\<close>

theorem prevPrime_not_prime:
  "(\<exists>r. prevPrime n = Some r) \<and> prevPrime 25 = Some (Inr (3 * 7)) \<and> prevPrime 35 = Some (Inr (3 * 11)) \<and>
   prevPrime 4 = Some (Inr 1)"
proof -
  have "\<exists>r. prevPrime n = Some r"
  proof (cases "int32 (if even n then n - 1 else n)")
    case (Inr m)
    define d where "d = sgn m * (\<bar>m\<bar> mod 3)"
    have "d = m mod 3" if "\<not> m < 25" using that by (simp add: d_def)
    moreover have "0 \<le> m mod 3" "m mod 3 < 3" by simp_all
    ultimately have "d = 0 \<or> d = 1 \<or> d = 2 \<or> m < 25" by linarith
    then have "\<exists>r. prevPrime_loop m d = Some r" if "d \<noteq> 0" "d \<noteq> 1" using that prevPrime_loop_ends [of d m] by blast
    then show ?thesis using prevPrime_loop_ends [of 4 m] prevPrime_loop_ends [of 2 "m - 2"]
      unfolding prevPrime_def Inr sum.case Let_def d_def [symmetric] by (auto split: sum.split simp: int32_def)
  qed (simp add: prevPrime_def)
  moreover have "prevPrime 25 = Some (Inr 21)" "prevPrime 35 = Some (Inr 33)" "prevPrime 4 = Some (Inr 1)"
    by (simp_all add: prevPrime_def int32_def prevPrime_loop.simps isPrime_def isPrime_loop.simps)
  ultimately show ?thesis by simp
qed

end
