(* ===== verification/Predictor.thy ===== *)
theory Predictor
  imports IntMathCorrect
begin

unbundle bit_operations_syntax

section \<open>Branch prediction: counters, tables and the interface of a direction predictor\<close>

text \<open>
  \<open>gem5/src/cpu/pred/sat_counter.hh\<close>, the reading and writing of \<open>std::vector\<close> that all
  predictors share (an index out of range is undefined), and the virtual functions of
  \<open>BPredUnit\<close> that a direction predictor provides, as a record of operations. The locale
  \<open>direction_predictor\<close> states what the unit relies on: no operation fails in a state that
  satisfies the invariant, and \<open>squash\<close> of the history a prediction left brings back the
  speculative state from before it. A history object is an optional value, \<open>None\<close> for the null
  pointer; freeing it is not observable.
\<close>

type_synonym addr = "64 word"
type_synonym u32 = "32 word"

subsection \<open>Vectors\<close>

definition vec_get :: "'a list \<Rightarrow> u32 \<Rightarrow> 'a result" where
  "vec_get xs i = (if unat i < length xs then Inr (xs ! unat i) else Inl Undefined)"

definition vec_upd :: "'a list \<Rightarrow> u32 \<Rightarrow> ('a \<Rightarrow> 'a) \<Rightarrow> 'a list result" where
  "vec_upd xs i f = (if unat i < length xs then Inr (xs[unat i := f (xs ! unat i)]) else Inl Undefined)"

lemma vec_get_Inr [simp]: "unat i < length xs \<Longrightarrow> vec_get xs i = Inr (xs ! unat i)"
  by (simp add: vec_get_def)

lemma vec_upd_Inr [simp]: "unat i < length xs \<Longrightarrow> vec_upd xs i f = Inr (xs[unat i := f (xs ! unat i)])"
  by (simp add: vec_upd_def)

lemma list_all_update: "list_all P xs \<Longrightarrow> (i < length xs \<Longrightarrow> P y) \<Longrightarrow> list_all P (xs[i := y])"
  by (cases "i < length xs") (auto simp: list_all_length nth_list_update)

text \<open>An address shifted and masked to a table index.\<close>

lemma and_mask_index: "unat (x AND mask k :: 'a::len word) < 2 ^ k"
  by (simp add: unat_and_mask)

lemma ucast_and_mask: "ucast (x AND ucast (mask k :: u32)) = (ucast (x :: addr) :: u32) AND mask k"
  by (rule bit_word_eqI) (auto simp: bit_simps)

lemma unat_ucast_u8: "unat (ucast (c :: 8 word) :: u32) = unat c"
proof -
  have "unat (ucast c :: u32) = take_bit 32 (unat c)" by (simp add: unsigned_ucast_eq)
  moreover have "unat c < 2 ^ 32" using unat_bound [of c] by simp
  ultimately show ?thesis by (simp add: take_bit_nat_eq_self_iff)
qed

lemma unat_pred: "0 < (x :: 'a::len word) \<Longrightarrow> unat (x - 1) = unat x - 1"
  by (intro unat_minus_one) (simp add: word_gt_0)

lemma exp_minus_1_mask: "(2 :: 'a::len word) ^ k - 1 = mask k"
  by (simp add: mask_eq_exp_minus_1)

subsection \<open>Saturating counters\<close>

record sat_counter =
  sc_initialVal :: "8 word"
  sc_maxVal :: "8 word"
  sc_counter :: "8 word"

text \<open>The default constructor leaves \<open>maxVal\<close> as it finds it; here it is an argument.\<close>

definition sat_default :: "8 word \<Rightarrow> sat_counter" where
  "sat_default junk = \<lparr>sc_initialVal = 0, sc_maxVal = junk, sc_counter = 0\<rparr>"

definition max_of_bits :: "u32 \<Rightarrow> 8 word result" where
  "max_of_bits bs = (if bs < 31 then Inr (ucast (push_bit (unat bs) (1 :: u32) - 1)) else Inl Undefined)"

definition sat_bits :: "u32 \<Rightarrow> sat_counter result" where
  "sat_bits bs = bind_res (max_of_bits bs) (\<lambda>m. Inr \<lparr>sc_initialVal = 0, sc_maxVal = m, sc_counter = 0\<rparr>)"

definition sat_bits_initial :: "u32 \<Rightarrow> 8 word \<Rightarrow> sat_counter result" where
  "sat_bits_initial bs initial_val = bind_res (max_of_bits bs) (\<lambda>m.
     if initial_val > m then Inl ExitFailure
     else Inr \<lparr>sc_initialVal = initial_val, sc_maxVal = m, sc_counter = initial_val\<rparr>)"

definition setBits :: "u32 \<Rightarrow> sat_counter \<Rightarrow> sat_counter result" where
  "setBits bs c = bind_res (max_of_bits bs) (\<lambda>m. Inr (c\<lparr>sc_maxVal := m\<rparr>))"

definition sat_reset :: "sat_counter \<Rightarrow> sat_counter" where
  "sat_reset c = c\<lparr>sc_counter := sc_initialVal c\<rparr>"

definition increment :: "sat_counter \<Rightarrow> sat_counter" where
  "increment c = (if sc_counter c < sc_maxVal c then c\<lparr>sc_counter := sc_counter c + 1\<rparr> else c)"

definition decrement :: "sat_counter \<Rightarrow> sat_counter" where
  "decrement c = (if sc_counter c > 0 then c\<lparr>sc_counter := sc_counter c - 1\<rparr> else c)"

definition sat_read :: "sat_counter \<Rightarrow> 8 word" where
  "sat_read c = sc_counter c"

definition sat_ok :: "8 word \<Rightarrow> sat_counter \<Rightarrow> bool" where
  "sat_ok m c \<longleftrightarrow> sc_maxVal c = m \<and> sc_counter c \<le> m \<and> sc_initialVal c = 0"

text \<open>The counter as a number: it moves by one and stays between 0 and its maximum.\<close>

lemma increment_value: "unat (sc_counter (increment c)) =
    (if sc_counter c < sc_maxVal c then unat (sc_counter c) + 1 else unat (sc_counter c))"
proof -
  have "unat (sc_counter c + 1) = unat (sc_counter c) + 1" if "sc_counter c < sc_maxVal c"
    using that unat_bound [of "sc_maxVal c"] by (simp add: word_less_nat_alt unat_word_ariths)
  then show ?thesis by (simp add: increment_def)
qed

lemma decrement_value: "unat (sc_counter (decrement c)) = unat (sc_counter c) - 1"
  by (auto simp: decrement_def unat_minus_one word_gt_0 unat_eq_0 not_less)

lemma sat_ok_step [simp, intro]:
  "sat_ok m c \<Longrightarrow> sat_ok m (increment c)" "sat_ok m c \<Longrightarrow> sat_ok m (decrement c)" "sat_ok m c \<Longrightarrow> sat_ok m (sat_reset c)"
proof -
  assume ok: "sat_ok m c"
  show "sat_ok m (increment c)"
    using ok increment_value [of c]
    by (auto simp: sat_ok_def increment_def word_le_nat_alt word_less_nat_alt split: if_splits)
  show "sat_ok m (decrement c)"
    using ok decrement_value [of c]
    by (auto simp: sat_ok_def decrement_def word_le_nat_alt split: if_splits)
  show "sat_ok m (sat_reset c)"
    using ok by (simp add: sat_ok_def sat_reset_def)
qed

lemma setBits_default:
  "max_of_bits bs = Inr m \<Longrightarrow> setBits bs (sat_default junk) = Inr \<lparr>sc_initialVal = 0, sc_maxVal = m, sc_counter = 0\<rparr>"
  by (simp add: setBits_def sat_default_def)

text \<open>A table of \<open>n\<close> counters after \<open>resize\<close> and the loop of \<open>setBits\<close>.\<close>

definition counter_table :: "u32 \<Rightarrow> u32 \<Rightarrow> sat_counter list result" where
  "counter_table n bs = fold_res (\<lambda>c cs. bind_res (setBits bs c) (\<lambda>c'. Inr (cs @ [c'])))
     (replicate (unat n) (sat_default 0)) []"

lemma counter_table_ok:
  assumes "max_of_bits bs = Inr m"
  shows "counter_table n bs = Inr (replicate (unat n) \<lparr>sc_initialVal = 0, sc_maxVal = m, sc_counter = 0\<rparr>)"
proof -
  have "fold_res (\<lambda>c cs. bind_res (setBits bs c) (\<lambda>c'. Inr (cs @ [c']))) (replicate k (sat_default 0)) acc =
      Inr (acc @ replicate k \<lparr>sc_initialVal = 0, sc_maxVal = m, sc_counter = 0\<rparr>)" for k acc
    by (induction k arbitrary: acc) (simp_all add: setBits_default [OF assms])
  then show ?thesis by (simp add: counter_table_def)
qed

lemma counter_table_Inr:
  assumes "counter_table n bs = Inr cs" and "n \<noteq> 0"
  shows "bs < 31 \<and> cs = replicate (unat n) \<lparr>sc_initialVal = 0,
    sc_maxVal = ucast (push_bit (unat bs) (1 :: u32) - 1), sc_counter = 0\<rparr>"
proof (cases "bs < 31")
  case True
  then show ?thesis using assms(1) counter_table_ok [of bs _ n] by (simp add: max_of_bits_def)
next
  case False
  obtain k where "unat n = Suc k" using assms(2) by (metis not0_implies_Suc unat_eq_0)
  then show ?thesis using assms(1) False by (simp add: counter_table_def setBits_def max_of_bits_def)
qed

lemma fresh_counters_ok: "list_all (sat_ok m) (replicate k \<lparr>sc_initialVal = 0, sc_maxVal = m, sc_counter = 0\<rparr>)"
  by (simp add: list_all_length sat_ok_def)

text \<open>The counters of one table have a common maximum and are within it.\<close>

definition counters_ok :: "sat_counter list \<Rightarrow> bool" where
  "counters_ok cs \<longleftrightarrow> (\<exists>m. list_all (sat_ok m) cs)"

lemma counters_ok_update [intro]:
  assumes "counters_ok cs" and "f = increment \<or> f = decrement"
  shows "counters_ok (cs[j := f (cs ! j)])"
proof -
  obtain m where m: "list_all (sat_ok m) cs" using assms(1) by (auto simp: counters_ok_def)
  have "sat_ok m (f (cs ! j))" if "j < length cs" using m that assms(2) by (auto simp: list_all_length)
  then show ?thesis using list_all_update [OF m] by (auto simp: counters_ok_def)
qed

lemma counter_table_facts:
  assumes "counter_table n bs = Inr cs" and "n = 2 ^ k" and "k < 32"
  shows "length cs = 2 ^ k" and "counters_ok cs" and "bs < 31"
proof -
  have "unat n = 2 ^ k" using assms(2,3) by (simp add: unat_exp)
  then have "n \<noteq> 0" by auto
  from counter_table_Inr [OF assms(1) this] show "length cs = 2 ^ k" "counters_ok cs" "bs < 31"
    using fresh_counters_ok assms(2,3) by (auto simp: counters_ok_def unat_exp)
qed

text \<open>\<open>(ULL(1) << (bits - 1)) - 1\<close>, kept in an \<open>unsigned\<close>.\<close>

definition threshold :: "u32 \<Rightarrow> u32 result" where
  "threshold bs = bind_res (shl64 1 (unat (bs - 1))) (\<lambda>x. Inr (ucast (x - 1)))"

lemma threshold_Inr: "threshold bs = Inr t \<Longrightarrow> t = ucast (2 ^ unat (bs - 1) - 1 :: 64 word)"
  by (auto simp: threshold_def shl64_def split: if_splits)

lemma ucast_mask32: "(ucast (mask k :: 64 word) :: u32) = mask k"
  by (rule bit_word_eqI) (auto simp: bit_simps)

subsection \<open>Direction predictors\<close>

record ('p, 'h) predictor_ops =
  bp_lookup :: "'p \<Rightarrow> addr \<Rightarrow> (bool \<times> 'h option \<times> 'p) result"
  bp_uncondBranch :: "'p \<Rightarrow> 'h option \<times> 'p"
  bp_btbUpdate :: "'p \<Rightarrow> addr \<Rightarrow> 'p result"
  bp_update :: "'p \<Rightarrow> addr \<Rightarrow> bool \<Rightarrow> 'h option \<Rightarrow> bool \<Rightarrow> 'p result"
  bp_squash :: "'p \<Rightarrow> 'h option \<Rightarrow> 'p result"
  bp_retireSquashed :: "'p \<Rightarrow> 'h option \<Rightarrow> 'p result"

text \<open>
  \<open>inv\<close> is the invariant of the predictor, \<open>hist\<close> says which history objects belong to a
  predictor, and \<open>spec\<close> reads the state that is changed speculatively.
\<close>

locale direction_predictor =
  fixes P :: "('p, 'h) predictor_ops" and inv :: "'p \<Rightarrow> bool" and hist :: "'p \<Rightarrow> 'h option \<Rightarrow> bool"
    and spec :: "'p \<Rightarrow> 'g"
  assumes lookup: "inv p \<Longrightarrow> \<exists>t h p'. bp_lookup P p a = Inr (t, h, p') \<and> inv p' \<and> hist p' = hist p \<and> hist p h \<and>
      (\<forall>q q'. inv q \<longrightarrow> hist q = hist p \<longrightarrow> bp_squash P q h = Inr q' \<longrightarrow> spec q' = spec p)"
    and uncond: "inv p \<Longrightarrow> \<exists>h p'. bp_uncondBranch P p = (h, p') \<and> inv p' \<and> hist p' = hist p \<and> hist p h \<and>
      (\<forall>q q'. inv q \<longrightarrow> hist q = hist p \<longrightarrow> bp_squash P q h = Inr q' \<longrightarrow> spec q' = spec p)"
    and btbUpdate: "inv p \<Longrightarrow> \<exists>p'. bp_btbUpdate P p a = Inr p' \<and> inv p' \<and> hist p' = hist p"
    and update: "inv p \<Longrightarrow> hist p h \<Longrightarrow> \<exists>p'. bp_update P p a t h sq = Inr p' \<and> inv p' \<and> hist p' = hist p"
    and squash: "inv p \<Longrightarrow> hist p h \<Longrightarrow> \<exists>p'. bp_squash P p h = Inr p' \<and> inv p' \<and> hist p' = hist p"
    and retire: "inv p \<Longrightarrow> hist p h \<Longrightarrow> bp_retireSquashed P p h = Inr p"

end
