(* ===== verification/LocalBP.thy ===== *)
theory LocalBP
  imports Predictor
begin

unbundle bit_operations_syntax

section \<open>The local predictor\<close>

text \<open>
  \<open>gem5/src/cpu/pred/2bit_local.hh\<close> and \<open>.cc\<close>: a table of counters indexed by the branch
  address. It keeps no history, so its history objects are null and there is nothing to restore.
\<close>

record local_bp =
  lb_localCtrs :: "sat_counter list"
  lb_localPredictorSize :: u32
  lb_localPredictorSets :: u32
  lb_localCtrBits :: u32
  lb_instShiftAmt :: u32
  lb_indexMask :: u32

definition LocalBP_new :: "u32 \<Rightarrow> u32 \<Rightarrow> u32 \<Rightarrow> local_bp result" where
  "LocalBP_new localPredictorSize localCtrBits instShiftAmt =
     (if \<not> isPowerOf2 localPredictorSize then Inl ExitFailure
      else if localCtrBits = 0 then Inl Undefined
      else let localPredictorSets = localPredictorSize div localCtrBits
           in if \<not> isPowerOf2 localPredictorSets then Inl ExitFailure
              else bind_res (counter_table localPredictorSets localCtrBits) (\<lambda>localCtrs.
                Inr \<lparr>lb_localCtrs = localCtrs, lb_localPredictorSize = localPredictorSize,
                  lb_localPredictorSets = localPredictorSets, lb_localCtrBits = localCtrBits,
                  lb_instShiftAmt = instShiftAmt, lb_indexMask = localPredictorSets - 1\<rparr>))"

definition lb_reset :: "local_bp \<Rightarrow> local_bp result" where
  "lb_reset p =
     (if length (lb_localCtrs p) < unat (lb_localPredictorSets p) then Inl Undefined
      else Inr (p\<lparr>lb_localCtrs := map sat_reset (take (unat (lb_localPredictorSets p)) (lb_localCtrs p)) @
        drop (unat (lb_localPredictorSets p)) (lb_localCtrs p)\<rparr>))"

definition lb_getLocalIndex :: "local_bp \<Rightarrow> addr \<Rightarrow> u32 result" where
  "lb_getLocalIndex p branch_addr =
     bind_res (shr64 branch_addr (unat (lb_instShiftAmt p))) (\<lambda>x. Inr (ucast (x AND ucast (lb_indexMask p))))"

text \<open>The count is promoted to \<open>int\<close> before the shift.\<close>

definition lb_getPrediction :: "local_bp \<Rightarrow> 8 word \<Rightarrow> bool result" where
  "lb_getPrediction p count =
     (if unat (lb_localCtrBits p - 1) < 32 then Inr (drop_bit (unat (lb_localCtrBits p - 1)) (ucast count :: u32) \<noteq> 0)
      else Inl Undefined)"

definition lb_btbUpdate :: "local_bp \<Rightarrow> addr \<Rightarrow> local_bp result" where
  "lb_btbUpdate p branch_addr = Inr p"

definition lb_lookup :: "local_bp \<Rightarrow> addr \<Rightarrow> (bool \<times> unit option \<times> local_bp) result" where
  "lb_lookup p branch_addr =
     bind_res (lb_getLocalIndex p branch_addr) (\<lambda>local_predictor_idx.
     bind_res (vec_get (lb_localCtrs p) local_predictor_idx) (\<lambda>c.
     bind_res (lb_getPrediction p (sat_read c)) (\<lambda>taken.
     Inr (taken, None, p))))"

definition lb_update :: "local_bp \<Rightarrow> addr \<Rightarrow> bool \<Rightarrow> unit option \<Rightarrow> bool \<Rightarrow> local_bp result" where
  "lb_update p branch_addr taken bp_history squashed =
     (if bp_history \<noteq> None then Inl AssertionFailed
      else bind_res (lb_getLocalIndex p branch_addr) (\<lambda>local_predictor_idx.
        bind_res (vec_upd (lb_localCtrs p) local_predictor_idx (if taken then increment else decrement))
          (\<lambda>cs. Inr (p\<lparr>lb_localCtrs := cs\<rparr>))))"

definition lb_retireSquashed :: "local_bp \<Rightarrow> unit option \<Rightarrow> local_bp result" where
  "lb_retireSquashed p bp_history = (if bp_history \<noteq> None then Inl AssertionFailed else Inr p)"

definition lb_squash :: "local_bp \<Rightarrow> unit option \<Rightarrow> local_bp result" where
  "lb_squash p bp_history = (if bp_history \<noteq> None then Inl AssertionFailed else Inr p)"

definition lb_uncondBranch :: "local_bp \<Rightarrow> unit option \<times> local_bp" where
  "lb_uncondBranch p = (None, p)"

definition local_ops :: "(local_bp, unit) predictor_ops" where
  "local_ops = \<lparr>bp_lookup = lb_lookup, bp_uncondBranch = lb_uncondBranch, bp_btbUpdate = lb_btbUpdate,
     bp_update = lb_update, bp_squash = lb_squash, bp_retireSquashed = lb_retireSquashed\<rparr>"

subsection \<open>Invariant\<close>

definition lb_inv :: "local_bp \<Rightarrow> bool" where
  "lb_inv p \<longleftrightarrow>
     (\<exists>k<32. lb_localPredictorSets p = 2 ^ k \<and> lb_indexMask p = mask k \<and> length (lb_localCtrs p) = 2 ^ k) \<and>
     unat (lb_instShiftAmt p) < 64 \<and> 0 < lb_localCtrBits p \<and> lb_localCtrBits p < 31 \<and>
     list_all (sat_ok (ucast (push_bit (unat (lb_localCtrBits p)) (1 :: u32) - 1))) (lb_localCtrs p)"

lemma lb_index:
  assumes "lb_inv p"
  obtains i where "lb_getLocalIndex p a = Inr i" "unat i < length (lb_localCtrs p)"
proof -
  obtain k where k: "lb_indexMask p = mask k" "length (lb_localCtrs p) = 2 ^ k" and sh: "unat (lb_instShiftAmt p) < 64"
    using assms by (auto simp: lb_inv_def)
  have "lb_getLocalIndex p a = Inr (ucast (drop_bit (unat (lb_instShiftAmt p)) a) AND mask k)"
    using sh by (simp add: lb_getLocalIndex_def shr64_def k ucast_and_mask)
  then show ?thesis using that and_mask_index k(2) by metis
qed

lemma lb_prediction:
  assumes "lb_inv p"
  shows "lb_getPrediction p c = Inr (drop_bit (unat (lb_localCtrBits p) - 1) (ucast c :: u32) \<noteq> 0)"
proof -
  have "0 < lb_localCtrBits p" "unat (lb_localCtrBits p) < 31" using assms by (simp_all add: lb_inv_def word_less_nat_alt)
  then show ?thesis by (simp add: lb_getPrediction_def unat_pred)
qed

lemma LocalBP_new_inv:
  assumes "LocalBP_new sz bs sh = Inr p" and "unat sh < 64"
  shows "lb_inv p"
proof -
  have "bs \<noteq> 0" and sets: "isPowerOf2 (sz div bs)"
    using assms(1) by (auto simp: LocalBP_new_def Let_def split: if_splits)
  obtain cs where cs: "counter_table (sz div bs) bs = Inr cs"
      "p = \<lparr>lb_localCtrs = cs, lb_localPredictorSize = sz, lb_localPredictorSets = sz div bs,
        lb_localCtrBits = bs, lb_instShiftAmt = sh, lb_indexMask = sz div bs - 1\<rparr>"
    using assms(1) by (auto simp: LocalBP_new_def Let_def bind_res_Inr_iff split: if_splits)
  have "sz div bs \<noteq> 0" using sets by (simp add: isPowerOf2_def)
  from counter_table_Inr [OF cs(1) this] show ?thesis
    using assms(2) sets \<open>bs \<noteq> 0\<close> by (auto simp: cs(2) lb_inv_def isPowerOf2_iff fresh_counters_ok word_gt_0 exp_minus_1_mask unat_exp)
qed

interpretation local_bp: direction_predictor local_ops lb_inv "\<lambda>_ h. h = None" "\<lambda>_. ()"
proof
  fix p a t h sq
  assume inv: "lb_inv p"
  obtain i where i: "lb_getLocalIndex p a = Inr i" "unat i < length (lb_localCtrs p)"
    using lb_index [OF inv] .
  show "\<exists>t h p'. bp_lookup local_ops p a = Inr (t, h, p') \<and> lb_inv p' \<and> (\<lambda>h. h = None) = (\<lambda>h. h = None) \<and> h = None \<and>
      (\<forall>q q'. lb_inv q \<longrightarrow> (\<lambda>h. h = None) = (\<lambda>h. h = None) \<longrightarrow> bp_squash local_ops q h = Inr q' \<longrightarrow> () = ())"
    using i inv by (simp add: local_ops_def lb_lookup_def lb_prediction)
  show "\<exists>p'. bp_update local_ops p a t h sq = Inr p' \<and> lb_inv p' \<and> (\<lambda>h. h = None) = (\<lambda>h. h = None)" if "h = None"
    using that i inv
    by (auto simp: local_ops_def lb_update_def lb_inv_def list_all_length nth_list_update)
qed (simp_all add: local_ops_def lb_uncondBranch_def lb_btbUpdate_def lb_squash_def lb_retireSquashed_def)

subsection \<open>Learning\<close>

text \<open>The counter a branch uses, and the updates of \<open>n\<close> resolved branches at one address.\<close>

definition lb_count :: "local_bp \<Rightarrow> addr \<Rightarrow> nat" where
  "lb_count p a = (case lb_getLocalIndex p a of Inr i \<Rightarrow> unat (sc_counter (lb_localCtrs p ! unat i)) | Inl _ \<Rightarrow> 0)"

fun train :: "local_bp \<Rightarrow> addr \<Rightarrow> bool \<Rightarrow> nat \<Rightarrow> local_bp result" where
  "train p a taken 0 = Inr p"
| "train p a taken (Suc n) = bind_res (lb_update p a taken None False) (\<lambda>q. train q a taken n)"

lemma max_value: "b \<le> 8 \<Longrightarrow> unat (ucast (push_bit b (1 :: u32) - 1) :: 8 word) = 2 ^ b - 1"
proof -
  assume b: "b \<le> 8"
  have "(ucast (mask b :: u32) :: 8 word) = mask b" by (rule bit_word_eqI) (auto simp: bit_simps)
  then have "(ucast (push_bit b (1 :: u32) - 1) :: 8 word) = mask b"
    by (simp add: push_bit_eq_mult exp_minus_1_mask)
  moreover have "unat (mask b :: 8 word) = unat ((- 1 :: 8 word) AND mask b)" by simp
  moreover have "(- 1 :: 8 word) = 255" by simp
  then have "unat (- 1 :: 8 word) = 2 ^ 8 - 1" by (simp only:) simp
  moreover have "(2 ^ 8 - 1) mod 2 ^ b = 2 ^ b - (1 :: nat)"
  proof -
    have "b \<in> {0, 1, 2, 3, 4, 5, 6, 7, 8}" using b by auto
    then show ?thesis by auto
  qed
  ultimately show ?thesis unfolding unat_and_mask by simp
qed

lemma lb_update_step:
  assumes inv: "lb_inv p" and bits: "unat (lb_localCtrBits p) \<le> 8"
  obtains q where "lb_update p a t None sq = Inr q" "lb_inv q" "lb_localCtrBits q = lb_localCtrBits p"
    "lb_count q a = (if t then min (2 ^ unat (lb_localCtrBits p) - 1) (lb_count p a + 1) else lb_count p a - 1)"
proof -
  obtain i where i: "lb_getLocalIndex p a = Inr i" "unat i < length (lb_localCtrs p)" using lb_index [OF inv] .
  let ?c = "lb_localCtrs p ! unat i" let ?f = "if t then increment else decrement"
  let ?q = "p\<lparr>lb_localCtrs := (lb_localCtrs p)[unat i := ?f ?c]\<rparr>"
  have ok: "sat_ok (ucast (push_bit (unat (lb_localCtrBits p)) (1 :: u32) - 1)) ?c"
    using inv i(2) by (simp add: lb_inv_def list_all_length)
  have q: "lb_update p a t None sq = Inr ?q" using i by (simp add: lb_update_def)
  have "lb_inv ?q" using local_bp.update [OF inv, of None a t sq] q by (auto simp: local_ops_def)
  moreover have "lb_getLocalIndex ?q a = Inr i" using i(1) by (simp add: lb_getLocalIndex_def)
  then have "lb_count ?q a = unat (sc_counter (?f ?c))" using i(2) by (simp add: lb_count_def)
  then have "lb_count ?q a = (if t then min (2 ^ unat (lb_localCtrBits p) - 1) (lb_count p a + 1) else lb_count p a - 1)"
    using ok max_value [OF bits] i(1)
    by (auto simp: increment_value decrement_value lb_count_def sat_ok_def word_less_nat_alt word_le_nat_alt)
  ultimately show ?thesis using that [OF q] by simp
qed

lemma lb_count_max:
  assumes inv: "lb_inv p" and bits: "unat (lb_localCtrBits p) \<le> 8"
  shows "lb_count p a \<le> 2 ^ unat (lb_localCtrBits p) - 1"
proof -
  obtain i where i: "lb_getLocalIndex p a = Inr i" "unat i < length (lb_localCtrs p)" using lb_index [OF inv] .
  then have "sat_ok (ucast (push_bit (unat (lb_localCtrBits p)) (1 :: u32) - 1)) (lb_localCtrs p ! unat i)"
    using inv by (simp add: lb_inv_def list_all_length)
  then show ?thesis using max_value [OF bits] i(1) by (simp add: lb_count_def sat_ok_def word_le_nat_alt)
qed

lemma train_count:
  assumes "lb_inv p" and "unat (lb_localCtrBits p) \<le> 8"
  shows "\<exists>q. train p a t n = Inr q \<and> lb_inv q \<and> lb_localCtrBits q = lb_localCtrBits p \<and>
    lb_count q a = (if t then min (2 ^ unat (lb_localCtrBits p) - 1) (lb_count p a + n) else lb_count p a - n)"
  using assms
proof (induction n arbitrary: p)
  case 0
  then show ?case using lb_count_max [of p a] by simp
next
  case (Suc n)
  obtain q where q: "lb_update p a t None False = Inr q" "lb_inv q" "lb_localCtrBits q = lb_localCtrBits p"
      "lb_count q a = (if t then min (2 ^ unat (lb_localCtrBits p) - 1) (lb_count p a + 1) else lb_count p a - 1)"
    using lb_update_step [OF Suc.prems] .
  obtain r where "train q a t n = Inr r" "lb_inv r" "lb_localCtrBits r = lb_localCtrBits q"
      "lb_count r a = (if t then min (2 ^ unat (lb_localCtrBits q) - 1) (lb_count q a + n) else lb_count q a - n)"
    using Suc.IH [OF q(2)] q(3) Suc.prems(2) by auto
  then show ?case using q by (intro exI [of _ r]) (auto simp: min_def)
qed

lemma lb_lookup_count:
  assumes inv: "lb_inv p"
  shows "lb_lookup p a = Inr (2 ^ (unat (lb_localCtrBits p) - 1) \<le> lb_count p a, None, p)"
proof -
  obtain i where i: "lb_getLocalIndex p a = Inr i" "unat i < length (lb_localCtrs p)" using lb_index [OF inv] .
  let ?c = "sc_counter (lb_localCtrs p ! unat i)" and ?k = "unat (lb_localCtrBits p) - 1"
  have "drop_bit ?k (ucast ?c :: u32) = 0 \<longleftrightarrow> unat ?c < 2 ^ ?k"
    using unat_drop [of ?k "ucast ?c :: u32"] by (simp add: unat_eq_0 [symmetric] div_eq_0_iff unat_ucast_u8)
  then show ?thesis using i by (simp add: lb_lookup_def lb_prediction [OF inv] sat_read_def lb_count_def not_less)
qed

definition small_local :: "local_bp result" where
  "small_local = LocalBP_new 8 2 2"

text \<open>
  C29: The local predictor learns: whatever the state, with counters of \<open>b\<close> bits (1 to 8) after
  \<open>2\<^sup>b\<^sup>-\<^sup>1\<close> or more outcomes of the same kind at an address it predicts that outcome there.
\<close>

theorem local_predictor_learns:
  assumes "lb_inv p" and "unat (lb_localCtrBits p) \<le> 8" and "2 ^ (unat (lb_localCtrBits p) - 1) \<le> n"
  shows "\<exists>q. train p a taken n = Inr q \<and> lb_lookup q a = Inr (taken, None, q)"
proof -
  define b where "b = unat (lb_localCtrBits p)"
  obtain q where q: "train p a taken n = Inr q" "lb_inv q" "lb_localCtrBits q = lb_localCtrBits p"
      "lb_count q a = (if taken then min (2 ^ b - 1) (lb_count p a + n) else lb_count p a - n)"
    unfolding b_def using train_count [OF assms(1,2), of a taken n] by (elim exE conjE)
  have "0 < b" using assms(1) by (simp add: lb_inv_def b_def word_less_nat_alt)
  then have half: "(2 :: nat) ^ b = 2 * 2 ^ (b - 1)" by (cases b) simp_all
  have n: "2 ^ (b - 1) \<le> n" and le: "lb_count p a \<le> 2 ^ b - 1"
    using assms(3) lb_count_max [OF assms(1,2)] by (simp_all add: b_def)
  have pos: "0 < (2 :: nat) ^ (b - 1)" by simp
  have "2 ^ (b - 1) \<le> lb_count q a \<longleftrightarrow> taken"
  proof (cases taken)
    case True
    then show ?thesis using n half pos q(4) by simp
  next
    case False
    have "lb_count p a - n < 2 ^ (b - 1)" using n le half pos by linarith
    then have "lb_count q a < 2 ^ (b - 1)" using False by (simp add: q(4))
    then show ?thesis using False by simp
  qed
  then show ?thesis using q lb_lookup_count [OF q(2), of a] by (simp add: b_def)
qed

theorem local_predictor_learns_witness:
  "\<exists>p. small_local = Inr p \<and> lb_inv p \<and> unat (lb_localCtrBits p) \<le> 8 \<and> 2 ^ (unat (lb_localCtrBits p) - 1) \<le> (2 :: nat) \<and>
    (\<exists>q. train p 0x40 True 2 = Inr q \<and> lb_lookup q 0x40 = Inr (True, None, q))"
proof -
  have "isPowerOf2 (8 :: u32)" "isPowerOf2 (4 :: u32)"
    by (auto simp: isPowerOf2_def leastSigBit_def)
  then obtain p where p: "small_local = Inr p" "lb_localCtrBits p = 2"
    by (simp add: small_local_def LocalBP_new_def counter_table_ok max_of_bits_def)
  then have "lb_inv p" using LocalBP_new_inv [of 8 2 2] by (simp add: small_local_def)
  then show ?thesis using p local_predictor_learns [of p 2 "0x40" True] by auto
qed

end
