(* ===== verification/TournamentBP.thy ===== *)
theory TournamentBP
  imports Predictor
begin

unbundle bit_operations_syntax

section \<open>The tournament predictor\<close>

text \<open>
  \<open>gem5/src/cpu/pred/tournament.hh\<close> and \<open>.cc\<close>: a local predictor with its history table, a
  global predictor and a choice predictor between them.
\<close>

record tb_history =
  th_globalHistory :: u32
  th_localHistory :: u32
  th_localPredTaken :: bool
  th_globalPredTaken :: bool
  th_globalUsed :: bool

record tournament_bp =
  tb_localCtrs :: "sat_counter list"
  tb_localPredictorSize :: u32
  tb_localPredictorMask :: u32
  tb_localCtrBits :: u32
  tb_localHistoryTable :: "u32 list"
  tb_localHistoryTableSize :: u32
  tb_localHistoryBits :: nat
  tb_globalCtrs :: "sat_counter list"
  tb_globalPredictorSize :: u32
  tb_globalCtrBits :: u32
  tb_globalHistory :: u32
  tb_globalHistoryBits :: nat
  tb_globalHistoryMask :: u32
  tb_choiceHistoryMask :: u32
  tb_historyRegisterMask :: u32
  tb_choiceCtrs :: "sat_counter list"
  tb_choicePredictorSize :: u32
  tb_choiceCtrBits :: u32
  tb_instShiftAmt :: u32
  tb_localThreshold :: u32
  tb_globalThreshold :: u32
  tb_choiceThreshold :: u32

record tb_params =
  tp_localPredictorSize :: u32
  tp_localCtrBits :: u32
  tp_localHistoryTableSize :: u32
  tp_globalPredictorSize :: u32
  tp_globalCtrBits :: u32
  tp_choicePredictorSize :: u32
  tp_choiceCtrBits :: u32
  tp_instShiftAmt :: u32

definition invalidPredictorIndex :: u32 where
  "invalidPredictorIndex = - 1"

text \<open>The checks of the constructor, in its order, and the tables it fills.\<close>

definition TournamentBP_new :: "tb_params \<Rightarrow> tournament_bp result" where
  "TournamentBP_new P =
     bind_res (ceilLog2 (tp_localPredictorSize P)) (\<lambda>localHistoryBits.
     bind_res (ceilLog2 (tp_globalPredictorSize P)) (\<lambda>gbits.
     bind_res (ceilLog2 (tp_choicePredictorSize P)) (\<lambda>cbits.
     let globalHistoryBits = (if gbits > cbits then gbits else cbits) in
     if \<not> isPowerOf2 (tp_localPredictorSize P) then Inl ExitFailure
     else if \<not> isPowerOf2 (tp_globalPredictorSize P) then Inl ExitFailure
     else bind_res (counter_table (tp_localPredictorSize P) (tp_localCtrBits P)) (\<lambda>localCtrs.
     bind_res (mask_bits localHistoryBits) (\<lambda>lmask.
     if \<not> isPowerOf2 (tp_localHistoryTableSize P) then Inl ExitFailure
     else bind_res (counter_table (tp_globalPredictorSize P) (tp_globalCtrBits P)) (\<lambda>globalCtrs.
     if \<not> isPowerOf2 (tp_choicePredictorSize P) then Inl ExitFailure
     else bind_res (counter_table (tp_choicePredictorSize P) (tp_choiceCtrBits P)) (\<lambda>choiceCtrs.
     bind_res (mask_bits globalHistoryBits) (\<lambda>hmask.
     let globalHistoryMask = tp_globalPredictorSize P - 1;
         choiceHistoryMask = tp_choicePredictorSize P - 1;
         historyRegisterMask = ucast hmask in
     if globalHistoryMask > historyRegisterMask then Inl ExitFailure
     else if choiceHistoryMask > historyRegisterMask then Inl ExitFailure
     else bind_res (threshold (tp_localCtrBits P)) (\<lambda>localThreshold.
     bind_res (threshold (tp_globalCtrBits P)) (\<lambda>globalThreshold.
     bind_res (threshold (tp_choiceCtrBits P)) (\<lambda>choiceThreshold.
     Inr \<lparr>tb_localCtrs = localCtrs, tb_localPredictorSize = tp_localPredictorSize P,
       tb_localPredictorMask = ucast lmask, tb_localCtrBits = tp_localCtrBits P,
       tb_localHistoryTable = replicate (unat (tp_localHistoryTableSize P)) 0,
       tb_localHistoryTableSize = tp_localHistoryTableSize P, tb_localHistoryBits = localHistoryBits,
       tb_globalCtrs = globalCtrs, tb_globalPredictorSize = tp_globalPredictorSize P,
       tb_globalCtrBits = tp_globalCtrBits P, tb_globalHistory = 0, tb_globalHistoryBits = globalHistoryBits,
       tb_globalHistoryMask = globalHistoryMask, tb_choiceHistoryMask = choiceHistoryMask,
       tb_historyRegisterMask = historyRegisterMask, tb_choiceCtrs = choiceCtrs,
       tb_choicePredictorSize = tp_choicePredictorSize P, tb_choiceCtrBits = tp_choiceCtrBits P,
       tb_instShiftAmt = tp_instShiftAmt P, tb_localThreshold = localThreshold,
       tb_globalThreshold = globalThreshold, tb_choiceThreshold = choiceThreshold\<rparr>)))))))))))"

definition calcLocHistIdx :: "tournament_bp \<Rightarrow> addr \<Rightarrow> u32 result" where
  "calcLocHistIdx p branch_addr =
     bind_res (shr64 branch_addr (unat (tb_instShiftAmt p)))
       (\<lambda>x. Inr (ucast (x AND ucast (tb_localHistoryTableSize p - 1))))"

definition updateGlobalHistTaken :: "tournament_bp \<Rightarrow> tournament_bp" where
  "updateGlobalHistTaken p =
     p\<lparr>tb_globalHistory := (push_bit 1 (tb_globalHistory p) OR 1) AND tb_historyRegisterMask p\<rparr>"

definition updateGlobalHistNotTaken :: "tournament_bp \<Rightarrow> tournament_bp" where
  "updateGlobalHistNotTaken p =
     p\<lparr>tb_globalHistory := push_bit 1 (tb_globalHistory p) AND tb_historyRegisterMask p\<rparr>"

definition updateLocalHistTaken :: "u32 \<Rightarrow> tournament_bp \<Rightarrow> tournament_bp result" where
  "updateLocalHistTaken i p =
     bind_res (vec_upd (tb_localHistoryTable p) i (\<lambda>h. push_bit 1 h OR 1)) (\<lambda>t. Inr (p\<lparr>tb_localHistoryTable := t\<rparr>))"

definition updateLocalHistNotTaken :: "u32 \<Rightarrow> tournament_bp \<Rightarrow> tournament_bp result" where
  "updateLocalHistNotTaken i p =
     bind_res (vec_upd (tb_localHistoryTable p) i (push_bit 1)) (\<lambda>t. Inr (p\<lparr>tb_localHistoryTable := t\<rparr>))"

definition tb_btbUpdate :: "tournament_bp \<Rightarrow> addr \<Rightarrow> tournament_bp result" where
  "tb_btbUpdate p branch_addr =
     bind_res (calcLocHistIdx p branch_addr) (\<lambda>i.
     let p = p\<lparr>tb_globalHistory := tb_globalHistory p AND (tb_historyRegisterMask p AND NOT 1)\<rparr> in
     bind_res (vec_upd (tb_localHistoryTable p) i (\<lambda>h. h AND (tb_localPredictorMask p AND NOT 1)))
       (\<lambda>t. Inr (p\<lparr>tb_localHistoryTable := t\<rparr>)))"

definition tb_lookup :: "tournament_bp \<Rightarrow> addr \<Rightarrow> (bool \<times> tb_history option \<times> tournament_bp) result" where
  "tb_lookup p branch_addr =
     bind_res (calcLocHistIdx p branch_addr) (\<lambda>local_history_idx.
     bind_res (vec_get (tb_localHistoryTable p) local_history_idx) (\<lambda>h.
     let local_predictor_idx = h AND tb_localPredictorMask p in
     bind_res (vec_get (tb_localCtrs p) local_predictor_idx) (\<lambda>lc.
     let local_prediction = ucast (sat_read lc) > tb_localThreshold p in
     bind_res (vec_get (tb_globalCtrs p) (tb_globalHistory p AND tb_globalHistoryMask p)) (\<lambda>gc.
     let global_prediction = ucast (sat_read gc) > tb_globalThreshold p in
     bind_res (vec_get (tb_choiceCtrs p) (tb_globalHistory p AND tb_choiceHistoryMask p)) (\<lambda>cc.
     let choice_prediction = ucast (sat_read cc) > tb_choiceThreshold p;
         history = \<lparr>th_globalHistory = tb_globalHistory p, th_localHistory = local_predictor_idx,
           th_localPredTaken = local_prediction, th_globalPredTaken = global_prediction,
           th_globalUsed = choice_prediction\<rparr> in
     if \<not> local_history_idx < tb_localHistoryTableSize p then Inl AssertionFailed
     else if choice_prediction then
       (if global_prediction
        then bind_res (updateLocalHistTaken local_history_idx (updateGlobalHistTaken p)) (\<lambda>p. Inr (True, Some history, p))
        else bind_res (updateLocalHistNotTaken local_history_idx (updateGlobalHistNotTaken p)) (\<lambda>p. Inr (False, Some history, p)))
     else
       (if local_prediction
        then bind_res (updateLocalHistTaken local_history_idx (updateGlobalHistTaken p)) (\<lambda>p. Inr (True, Some history, p))
        else bind_res (updateLocalHistNotTaken local_history_idx (updateGlobalHistNotTaken p)) (\<lambda>p. Inr (False, Some history, p))))))))"

definition tb_uncondBranch :: "tournament_bp \<Rightarrow> tb_history option \<times> tournament_bp" where
  "tb_uncondBranch p =
     (Some \<lparr>th_globalHistory = tb_globalHistory p, th_localHistory = invalidPredictorIndex,
        th_localPredTaken = True, th_globalPredTaken = True, th_globalUsed = True\<rparr>,
      updateGlobalHistTaken p)"

text \<open>The parts of \<open>update\<close>: the choice counter, the two direction counters, and the histories.\<close>

definition tb_update_choice :: "tb_history \<Rightarrow> bool \<Rightarrow> tournament_bp \<Rightarrow> tournament_bp result" where
  "tb_update_choice history taken p =
     (if th_localPredTaken history \<noteq> th_globalPredTaken history then
        (let choice_predictor_idx = th_globalHistory history AND tb_choiceHistoryMask p in
         if th_localPredTaken history = taken then
           bind_res (vec_upd (tb_choiceCtrs p) choice_predictor_idx decrement) (\<lambda>cs. Inr (p\<lparr>tb_choiceCtrs := cs\<rparr>))
         else if th_globalPredTaken history = taken then
           bind_res (vec_upd (tb_choiceCtrs p) choice_predictor_idx increment) (\<lambda>cs. Inr (p\<lparr>tb_choiceCtrs := cs\<rparr>))
         else Inr p)
      else Inr p)"

definition tb_update_counters :: "tb_history \<Rightarrow> bool \<Rightarrow> tournament_bp \<Rightarrow> tournament_bp result" where
  "tb_update_counters history taken p =
     (let global_predictor_idx = th_globalHistory history AND tb_globalHistoryMask p;
          old_local_pred_index = th_localHistory history AND tb_localPredictorMask p;
          old_local_pred_valid = (th_localHistory history \<noteq> invalidPredictorIndex);
          step = (if taken then increment else decrement) in
      bind_res (vec_upd (tb_globalCtrs p) global_predictor_idx step) (\<lambda>gs.
      let p = p\<lparr>tb_globalCtrs := gs\<rparr> in
      if old_local_pred_valid
      then bind_res (vec_upd (tb_localCtrs p) old_local_pred_index step) (\<lambda>ls. Inr (p\<lparr>tb_localCtrs := ls\<rparr>))
      else Inr p))"

definition tb_update_history :: "u32 \<Rightarrow> tb_history \<Rightarrow> bool \<Rightarrow> tournament_bp \<Rightarrow> tournament_bp result" where
  "tb_update_history local_history_idx history taken p =
     (let low = (if taken then 1 else 0);
          p = p\<lparr>tb_globalHistory := (push_bit 1 (th_globalHistory history) OR low) AND tb_historyRegisterMask p\<rparr> in
      if th_localHistory history \<noteq> invalidPredictorIndex
      then bind_res (vec_upd (tb_localHistoryTable p) local_history_idx (\<lambda>_. push_bit 1 (th_localHistory history) OR low))
        (\<lambda>t. Inr (p\<lparr>tb_localHistoryTable := t\<rparr>))
      else Inr p)"

definition tb_update :: "tournament_bp \<Rightarrow> addr \<Rightarrow> bool \<Rightarrow> tb_history option \<Rightarrow> bool \<Rightarrow> tournament_bp result" where
  "tb_update p branch_addr taken bp_history squashed =
     bind_res (calcLocHistIdx p branch_addr) (\<lambda>local_history_idx.
     bind_res (vec_get (tb_localHistoryTable p) local_history_idx) (\<lambda>local_predictor_hist.
     bind_res (case bp_history of
         None \<Rightarrow> Inr p
       | Some history \<Rightarrow>
           if \<not> th_localHistory history AND tb_localPredictorMask p < tb_localPredictorSize p then Inl AssertionFailed
           else (let historyPred = (if th_globalUsed history then th_globalPredTaken history else th_localPredTaken history) in
             bind_res (if historyPred \<noteq> taken \<or> \<not> squashed
               then bind_res (tb_update_choice history taken p) (tb_update_counters history taken)
               else Inr p) (\<lambda>p.
             if squashed then tb_update_history local_history_idx history taken p else Inr p)))
       (\<lambda>p. if \<not> local_history_idx < tb_localHistoryTableSize p then Inl AssertionFailed else Inr p)))"

definition tb_retireSquashed :: "tournament_bp \<Rightarrow> tb_history option \<Rightarrow> tournament_bp result" where
  "tb_retireSquashed p bp_history = Inr p"

definition tb_squash :: "tournament_bp \<Rightarrow> tb_history option \<Rightarrow> tournament_bp result" where
  "tb_squash p bp_history =
     (case bp_history of
        None \<Rightarrow> Inl NullDereference
      | Some history \<Rightarrow> Inr (p\<lparr>tb_globalHistory := th_globalHistory history\<rparr>))"

definition tournament_ops :: "(tournament_bp, tb_history) predictor_ops" where
  "tournament_ops = \<lparr>bp_lookup = tb_lookup, bp_uncondBranch = tb_uncondBranch, bp_btbUpdate = tb_btbUpdate,
     bp_update = tb_update, bp_squash = tb_squash, bp_retireSquashed = tb_retireSquashed\<rparr>"

subsection \<open>Invariant\<close>

text \<open>
  Every table has a power of two entries and its mask selects among them, the counters are within
  their range, and the global history keeps to its register.
\<close>

definition tb_inv :: "tournament_bp \<Rightarrow> bool" where
  "tb_inv p \<longleftrightarrow>
     (\<exists>k<32. tb_localPredictorSize p = 2 ^ k \<and> tb_localPredictorMask p = mask k \<and> length (tb_localCtrs p) = 2 ^ k) \<and>
     (\<exists>k<32. tb_localHistoryTableSize p = 2 ^ k \<and> length (tb_localHistoryTable p) = 2 ^ k) \<and>
     (\<exists>k. tb_globalHistoryMask p = mask k \<and> length (tb_globalCtrs p) = 2 ^ k) \<and>
     (\<exists>k. tb_choiceHistoryMask p = mask k \<and> length (tb_choiceCtrs p) = 2 ^ k) \<and>
     (\<exists>k. tb_historyRegisterMask p = mask k) \<and>
     tb_globalHistory p AND tb_historyRegisterMask p = tb_globalHistory p \<and> unat (tb_instShiftAmt p) < 64 \<and>
     counters_ok (tb_localCtrs p) \<and> counters_ok (tb_globalCtrs p) \<and> counters_ok (tb_choiceCtrs p)"

definition tb_hist :: "tournament_bp \<Rightarrow> tb_history option \<Rightarrow> bool" where
  "tb_hist p h \<longleftrightarrow> (\<exists>r. h = Some r \<and> th_globalHistory r AND tb_historyRegisterMask p = th_globalHistory r)"

lemma tb_index:
  assumes "tb_inv p"
  obtains i where "calcLocHistIdx p a = Inr i" "unat i < length (tb_localHistoryTable p)" "i < tb_localHistoryTableSize p"
proof -
  obtain k where k: "k < 32" "tb_localHistoryTableSize p = 2 ^ k" "length (tb_localHistoryTable p) = 2 ^ k"
    and sh: "unat (tb_instShiftAmt p) < 64"
    using assms by (auto simp: tb_inv_def)
  let ?i = "ucast (drop_bit (unat (tb_instShiftAmt p)) a) AND mask k :: u32"
  have "calcLocHistIdx p a = Inr ?i"
    using sh by (simp add: calcLocHistIdx_def shr64_def k exp_minus_1_mask ucast_and_mask)
  moreover have "unat ?i < 2 ^ k" by (rule and_mask_index)
  ultimately show ?thesis using that k by (simp add: word_less_nat_alt unat_exp)
qed

lemma tb_tables:
  assumes "tb_inv p"
  shows "unat (x AND tb_localPredictorMask p) < length (tb_localCtrs p)"
    and "unat (x AND tb_globalHistoryMask p) < length (tb_globalCtrs p)"
    and "unat (x AND tb_choiceHistoryMask p) < length (tb_choiceCtrs p)"
    and "x AND tb_localPredictorMask p < tb_localPredictorSize p"
  using assms and_mask_index by (auto simp: tb_inv_def word_less_nat_alt unat_exp)

lemma masked: "(x AND m) AND m = (x AND m :: 'a::len word)"
  by (simp add: and.assoc)

text \<open>Each field an operation writes, and that the invariant allows it.\<close>

lemma tb_inv_writes:
  assumes "tb_inv p"
  shows "tb_inv (p\<lparr>tb_globalHistory := x AND tb_historyRegisterMask p\<rparr>)"
    and "tb_inv (p\<lparr>tb_localHistoryTable := (tb_localHistoryTable p)[j := h]\<rparr>)"
    and "f = increment \<or> f = decrement \<Longrightarrow> tb_inv (p\<lparr>tb_choiceCtrs := (tb_choiceCtrs p)[j := f (tb_choiceCtrs p ! j)]\<rparr>)"
    and "f = increment \<or> f = decrement \<Longrightarrow> tb_inv (p\<lparr>tb_globalCtrs := (tb_globalCtrs p)[j := f (tb_globalCtrs p ! j)]\<rparr>)"
    and "f = increment \<or> f = decrement \<Longrightarrow> tb_inv (p\<lparr>tb_localCtrs := (tb_localCtrs p)[j := f (tb_localCtrs p ! j)]\<rparr>)"
  using assms by (simp_all add: tb_inv_def masked counters_ok_update)

lemma tb_hist_writes [simp]:
  "tb_hist (p\<lparr>tb_globalHistory := x\<rparr>) = tb_hist p" "tb_hist (p\<lparr>tb_localHistoryTable := t\<rparr>) = tb_hist p"
  "tb_hist (p\<lparr>tb_choiceCtrs := cs\<rparr>) = tb_hist p" "tb_hist (p\<lparr>tb_globalCtrs := cs\<rparr>) = tb_hist p"
  "tb_hist (p\<lparr>tb_localCtrs := cs\<rparr>) = tb_hist p"
  by (simp_all add: tb_hist_def fun_eq_iff)

text \<open>What an operation keeps.\<close>

definition tb_keeps :: "tournament_bp \<Rightarrow> tournament_bp \<Rightarrow> bool" where
  "tb_keeps p q \<longleftrightarrow> tb_inv q \<and> tb_hist q = tb_hist p \<and> length (tb_localHistoryTable q) = length (tb_localHistoryTable p) \<and>
     tb_localHistoryTableSize q = tb_localHistoryTableSize p"

lemma tb_keeps_trans: "tb_keeps p q \<Longrightarrow> tb_keeps q r \<Longrightarrow> tb_keeps p r"
  by (simp add: tb_keeps_def)

lemma global_history_ok:
  assumes "tb_inv p"
  shows "tb_keeps p (updateGlobalHistTaken p)" "tb_keeps p (updateGlobalHistNotTaken p)"
  using tb_inv_writes(1) [OF assms] by (simp_all add: tb_keeps_def updateGlobalHistTaken_def updateGlobalHistNotTaken_def)

lemma local_history_ok:
  assumes "tb_inv p" and "unat i < length (tb_localHistoryTable p)"
  shows "\<exists>q. updateLocalHistTaken i p = Inr q \<and> tb_keeps p q" "\<exists>q. updateLocalHistNotTaken i p = Inr q \<and> tb_keeps p q"
  using tb_inv_writes(2) [OF assms(1)] assms(2)
  by (simp_all add: tb_keeps_def updateLocalHistTaken_def updateLocalHistNotTaken_def)

lemma both_histories_ok:
  assumes "tb_inv p" and "unat i < length (tb_localHistoryTable p)"
  shows "\<exists>q. updateLocalHistTaken i (updateGlobalHistTaken p) = Inr q \<and> tb_keeps p q"
    and "\<exists>q. updateLocalHistNotTaken i (updateGlobalHistNotTaken p) = Inr q \<and> tb_keeps p q"
proof -
  have step: "tb_inv q \<and> unat i < length (tb_localHistoryTable q)" if "tb_keeps p q" for q
    using that assms(2) by (simp add: tb_keeps_def)
  note g = global_history_ok [OF assms(1)]
  show "\<exists>q. updateLocalHistTaken i (updateGlobalHistTaken p) = Inr q \<and> tb_keeps p q"
    using local_history_ok(1) [of "updateGlobalHistTaken p" i] step [OF g(1)] tb_keeps_trans [OF g(1)] by blast
  show "\<exists>q. updateLocalHistNotTaken i (updateGlobalHistNotTaken p) = Inr q \<and> tb_keeps p q"
    using local_history_ok(2) [of "updateGlobalHistNotTaken p" i] step [OF g(2)] tb_keeps_trans [OF g(2)] by blast
qed

text \<open>The history of a prediction records the global history as it was.\<close>

lemma tb_lookup_ok:
  assumes inv: "tb_inv p"
  shows "\<exists>t h q. tb_lookup p a = Inr (t, Some h, q) \<and> tb_keeps p q \<and> th_globalHistory h = tb_globalHistory p"
proof -
  obtain i where i: "calcLocHistIdx p a = Inr i" "unat i < length (tb_localHistoryTable p)" "i < tb_localHistoryTableSize p"
    using tb_index [OF inv] .
  obtain q1 q2 where q: "updateLocalHistTaken i (updateGlobalHistTaken p) = Inr q1" "tb_keeps p q1"
      "updateLocalHistNotTaken i (updateGlobalHistNotTaken p) = Inr q2" "tb_keeps p q2"
    using both_histories_ok [OF inv i(2)] by blast
  have choose: "\<exists>t h q. (if cp then if gp then Inr (True, Some hh, q1) else Inr (False, Some hh, q2)
        else if lp then Inr (True, Some hh, q1) else Inr (False, Some hh, q2)) = (Inr (t, Some h, q) :: _ result) \<and>
      tb_keeps p q \<and> th_globalHistory h = tb_globalHistory p"
    if "th_globalHistory hh = tb_globalHistory p" for cp gp lp hh
    using q(2,4) that by (cases cp; cases gp; cases lp) auto
  show ?thesis
    unfolding tb_lookup_def i(1) bind_res_simps Let_def vec_get_Inr [OF i(2)] vec_get_Inr [OF tb_tables(1) [OF inv]]
      vec_get_Inr [OF tb_tables(2) [OF inv]] vec_get_Inr [OF tb_tables(3) [OF inv]]
    by (simp only: i(3) q(1,3) bind_res_simps simp_thms if_False) (rule choose, simp)
qed

lemma tb_update_choice_ok:
  assumes "tb_inv p"
  shows "\<exists>q. tb_update_choice h t p = Inr q \<and> tb_keeps p q"
  using tb_inv_writes(3) [OF assms] tb_tables(3) [OF assms] assms
  by (auto simp: tb_update_choice_def Let_def tb_keeps_def)

lemma tb_update_counters_ok:
  assumes inv: "tb_inv p"
  shows "\<exists>q. tb_update_counters h t p = Inr q \<and> tb_keeps p q"
proof -
  let ?g = "th_globalHistory h AND tb_globalHistoryMask p" and ?f = "if t then increment else decrement"
  let ?q = "p\<lparr>tb_globalCtrs := (tb_globalCtrs p)[unat ?g := ?f (tb_globalCtrs p ! unat ?g)]\<rparr>"
  have q: "tb_inv ?q" by (rule tb_inv_writes(4) [OF inv]) simp
  have r: "tb_inv (?q\<lparr>tb_localCtrs := (tb_localCtrs ?q)[j := ?f (tb_localCtrs ?q ! j)]\<rparr>)" for j
    by (rule tb_inv_writes(5) [OF q]) simp
  show ?thesis using tb_tables(1,2) [OF inv] q r by (simp add: tb_update_counters_def Let_def tb_keeps_def)
qed

lemma tb_update_history_ok:
  assumes inv: "tb_inv p" and i: "unat i < length (tb_localHistoryTable p)"
  shows "\<exists>q. tb_update_history i h t p = Inr q \<and> tb_keeps p q"
proof -
  let ?p = "p\<lparr>tb_globalHistory := (push_bit 1 (th_globalHistory h) OR (if t then 1 else 0)) AND tb_historyRegisterMask p\<rparr>"
  have p: "tb_inv ?p" by (rule tb_inv_writes(1) [OF inv])
  have r: "tb_inv (?p\<lparr>tb_localHistoryTable := (tb_localHistoryTable ?p)[j := x]\<rparr>)" for j x
    by (rule tb_inv_writes(2) [OF p])
  show ?thesis using i p r by (simp add: tb_update_history_def Let_def tb_keeps_def)
qed

lemma tb_update_ok:
  assumes inv: "tb_inv p"
  shows "\<exists>q. tb_update p a t h sq = Inr q \<and> tb_keeps p q"
proof -
  obtain i where i: "calcLocHistIdx p a = Inr i" "unat i < length (tb_localHistoryTable p)" "i < tb_localHistoryTableSize p"
    using tb_index [OF inv] .
  have refl: "tb_keeps p p" using inv by (simp add: tb_keeps_def)
  have counters: "\<exists>q. bind_res (tb_update_choice r t p) (tb_update_counters r t) = Inr q \<and> tb_keeps p q" for r
    using tb_update_choice_ok [OF inv, of r t] tb_update_counters_ok tb_keeps_trans
    by (fastforce simp: tb_keeps_def)
  have first: "\<exists>q. (if c then bind_res (tb_update_choice r t p) (tb_update_counters r t) else Inr p) = Inr q \<and> tb_keeps p q"
    for r c using counters refl by simp
  have histories: "\<exists>q'. (if sq then tb_update_history i r t q else Inr q) = Inr q' \<and> tb_keeps p q'"
    if "tb_keeps p q" for r q
    using tb_update_history_ok [of q i r t] that i(2) tb_keeps_trans [OF that] by (auto simp: tb_keeps_def)
  show ?thesis
  proof (cases h)
    case None
    then show ?thesis using i refl by (simp add: tb_update_def)
  next
    case (Some r)
    let ?hp = "if th_globalUsed r then th_globalPredTaken r else th_localPredTaken r"
    obtain q1 where q1: "(if ?hp \<noteq> t \<or> \<not> sq then bind_res (tb_update_choice r t p) (tb_update_counters r t) else Inr p) = Inr q1"
        "tb_keeps p q1" using first by blast
    obtain q2 where q2: "(if sq then tb_update_history i r t q1 else Inr q1) = Inr q2" "tb_keeps p q2"
      using histories [OF q1(2)] by blast
    then have "i < tb_localHistoryTableSize q2" using i(3) by (simp add: tb_keeps_def)
    then show ?thesis
      unfolding tb_update_def Some option.case Let_def q1(1)
      using i tb_tables(4) [OF inv] q2 by simp
  qed
qed

lemma tb_btbUpdate_ok:
  assumes inv: "tb_inv p"
  shows "\<exists>q. tb_btbUpdate p a = Inr q \<and> tb_keeps p q"
proof -
  obtain i where i: "calcLocHistIdx p a = Inr i" "unat i < length (tb_localHistoryTable p)" "i < tb_localHistoryTableSize p"
    using tb_index [OF inv] .
  let ?p = "p\<lparr>tb_globalHistory := tb_globalHistory p AND (tb_historyRegisterMask p AND NOT 1)\<rparr>"
  have "tb_globalHistory p AND (tb_historyRegisterMask p AND NOT 1) = (tb_globalHistory p AND NOT 1) AND tb_historyRegisterMask p"
    by (simp add: ac_simps)
  then have p: "tb_inv ?p" using tb_inv_writes(1) [OF inv, of "tb_globalHistory p AND NOT 1"] by simp
  have r: "tb_inv (?p\<lparr>tb_localHistoryTable := (tb_localHistoryTable ?p)[j := x]\<rparr>)" for j x
    by (rule tb_inv_writes(2) [OF p])
  show ?thesis using i r by (simp add: tb_btbUpdate_def Let_def tb_keeps_def)
qed

interpretation tournament: direction_predictor tournament_ops tb_inv tb_hist tb_globalHistory
proof
  fix p a t h sq
  assume inv: "tb_inv p"
  have gh: "tb_globalHistory p AND tb_historyRegisterMask p = tb_globalHistory p" using inv by (simp add: tb_inv_def)
  obtain t' h' q where "tb_lookup p a = Inr (t', Some h', q)" "tb_keeps p q" "th_globalHistory h' = tb_globalHistory p"
    using tb_lookup_ok [OF inv] by blast
  then show "\<exists>t h p'. bp_lookup tournament_ops p a = Inr (t, h, p') \<and> tb_inv p' \<and> tb_hist p' = tb_hist p \<and> tb_hist p h \<and>
      (\<forall>q q'. tb_inv q \<longrightarrow> tb_hist q = tb_hist p \<longrightarrow> bp_squash tournament_ops q h = Inr q' \<longrightarrow>
        tb_globalHistory q' = tb_globalHistory p)"
    using gh by (intro exI [of _ t'] exI [of _ "Some h'"] exI [of _ q])
      (auto simp: tournament_ops_def tb_keeps_def tb_hist_def tb_squash_def)
  show "\<exists>h p'. bp_uncondBranch tournament_ops p = (h, p') \<and> tb_inv p' \<and> tb_hist p' = tb_hist p \<and> tb_hist p h \<and>
      (\<forall>q q'. tb_inv q \<longrightarrow> tb_hist q = tb_hist p \<longrightarrow> bp_squash tournament_ops q h = Inr q' \<longrightarrow>
        tb_globalHistory q' = tb_globalHistory p)"
    using gh global_history_ok(1) [OF inv]
    by (auto simp: tournament_ops_def tb_uncondBranch_def tb_keeps_def tb_hist_def tb_squash_def)
  show "\<exists>p'. bp_btbUpdate tournament_ops p a = Inr p' \<and> tb_inv p' \<and> tb_hist p' = tb_hist p"
    using tb_btbUpdate_ok [OF inv, of a] by (auto simp: tournament_ops_def tb_keeps_def)
  show "\<exists>p'. bp_update tournament_ops p a t h sq = Inr p' \<and> tb_inv p' \<and> tb_hist p' = tb_hist p"
    using tb_update_ok [OF inv, of a t h sq] by (auto simp: tournament_ops_def tb_keeps_def)
  show "\<exists>p'. bp_squash tournament_ops p h = Inr p' \<and> tb_inv p' \<and> tb_hist p' = tb_hist p" if "tb_hist p h"
    using that tb_inv_writes(1) [OF inv] by (auto simp: tournament_ops_def tb_squash_def tb_hist_def fun_eq_iff) metis
  show "bp_retireSquashed tournament_ops p h = Inr p"
    by (simp add: tournament_ops_def tb_retireSquashed_def)
qed

subsection \<open>The constructor\<close>

lemma TournamentBP_new_inv:
  assumes new: "TournamentBP_new P = Inr p" and sh: "unat (tp_instShiftAmt P) < 64"
  shows "tb_inv p"
proof -
  obtain lb gb cb lc gc cc lm hm lt gt ct where
    logs: "ceilLog2 (tp_localPredictorSize P) = Inr lb" "ceilLog2 (tp_globalPredictorSize P) = Inr gb"
      "ceilLog2 (tp_choicePredictorSize P) = Inr cb"
    and pows: "isPowerOf2 (tp_localPredictorSize P)" "isPowerOf2 (tp_globalPredictorSize P)"
      "isPowerOf2 (tp_localHistoryTableSize P)" "isPowerOf2 (tp_choicePredictorSize P)"
    and tabs: "counter_table (tp_localPredictorSize P) (tp_localCtrBits P) = Inr lc"
      "counter_table (tp_globalPredictorSize P) (tp_globalCtrBits P) = Inr gc"
      "counter_table (tp_choicePredictorSize P) (tp_choiceCtrBits P) = Inr cc"
    and masks: "mask_bits lb = Inr lm" "mask_bits (if gb > cb then gb else cb) = Inr hm"
    and p: "p = \<lparr>tb_localCtrs = lc, tb_localPredictorSize = tp_localPredictorSize P,
       tb_localPredictorMask = ucast lm, tb_localCtrBits = tp_localCtrBits P,
       tb_localHistoryTable = replicate (unat (tp_localHistoryTableSize P)) 0,
       tb_localHistoryTableSize = tp_localHistoryTableSize P, tb_localHistoryBits = lb,
       tb_globalCtrs = gc, tb_globalPredictorSize = tp_globalPredictorSize P,
       tb_globalCtrBits = tp_globalCtrBits P, tb_globalHistory = 0,
       tb_globalHistoryBits = (if gb > cb then gb else cb),
       tb_globalHistoryMask = tp_globalPredictorSize P - 1, tb_choiceHistoryMask = tp_choicePredictorSize P - 1,
       tb_historyRegisterMask = ucast hm, tb_choiceCtrs = cc,
       tb_choicePredictorSize = tp_choicePredictorSize P, tb_choiceCtrBits = tp_choiceCtrBits P,
       tb_instShiftAmt = tp_instShiftAmt P, tb_localThreshold = lt,
       tb_globalThreshold = gt, tb_choiceThreshold = ct\<rparr>"
    using new unfolding TournamentBP_new_def Let_def bind_res_Inr_iff
    by (elim exE conjE) (simp split: if_split_asm add: bind_res_Inr_iff; elim exE conjE; metis)
  obtain kl kg kh kc where k: "kl < 32" "tp_localPredictorSize P = 2 ^ kl" "kg < 32" "tp_globalPredictorSize P = 2 ^ kg"
      "kh < 32" "tp_localHistoryTableSize P = 2 ^ kh" "kc < 32" "tp_choicePredictorSize P = 2 ^ kc"
    using pows by (auto simp: isPowerOf2_iff)
  have bits: "lb = kl" "gb = kg" "cb = kc" using logs k by (simp_all add: ceilLog2_exp)
  have m: "lm = mask kl" "hm = mask (if gb > cb then gb else cb)"
    using masks bits k by (auto simp: mask_bits_mask split: if_splits)
  note t = counter_table_facts [OF tabs(1) k(2,1)] counter_table_facts [OF tabs(2) k(4,3)] counter_table_facts [OF tabs(3) k(8,7)]
  show ?thesis
    unfolding p tb_inv_def
    using sh k t by (auto simp: m ucast_mask32 exp_minus_1_mask unat_exp)
qed

definition tb_small :: tb_params where
  "tb_small = \<lparr>tp_localPredictorSize = 4, tp_localCtrBits = 2, tp_localHistoryTableSize = 4,
     tp_globalPredictorSize = 8, tp_globalCtrBits = 2, tp_choicePredictorSize = 8, tp_choiceCtrBits = 2,
     tp_instShiftAmt = 2\<rparr>"

text \<open>
  The states a predictor goes through, with the histories of the branches still in flight: any order
  of predictions, corrections, updates and squashes.
\<close>

inductive tb_reach :: "tb_params \<Rightarrow> tournament_bp \<Rightarrow> tb_history list \<Rightarrow> bool" for P where
  new: "TournamentBP_new P = Inr p \<Longrightarrow> tb_reach P p []"
| lookup: "tb_reach P p hs \<Longrightarrow> tb_lookup p a = Inr (t, Some h, q) \<Longrightarrow> tb_reach P q (h # hs)"
| uncond: "tb_reach P p hs \<Longrightarrow> tb_uncondBranch p = (Some h, q) \<Longrightarrow> tb_reach P q (h # hs)"
| btb: "tb_reach P p hs \<Longrightarrow> tb_btbUpdate p a = Inr q \<Longrightarrow> tb_reach P q hs"
| update: "tb_reach P p hs \<Longrightarrow> h \<in> set hs \<Longrightarrow> tb_update p a t (Some h) sq = Inr q \<Longrightarrow>
    tb_reach P q (if sq then hs else remove1 h hs)"
| squash: "tb_reach P p hs \<Longrightarrow> h \<in> set hs \<Longrightarrow> tb_squash p (Some h) = Inr q \<Longrightarrow> tb_reach P q (remove1 h hs)"

lemma tb_reach_inv:
  assumes "tb_reach P p hs" and "unat (tp_instShiftAmt P) < 64"
  shows "tb_inv p \<and> (\<forall>h\<in>set hs. tb_hist p (Some h))"
  using assms(1)
proof induction
  case (new p)
  then show ?case using TournamentBP_new_inv assms(2) by simp
next
  case (lookup p hs a t h q)
  then have gh: "tb_globalHistory p AND tb_historyRegisterMask p = tb_globalHistory p" by (simp add: tb_inv_def)
  have "tb_keeps p q" "th_globalHistory h = tb_globalHistory p"
    using tb_lookup_ok [of p a] lookup.IH lookup.hyps(2) by auto
  then show ?case using lookup.IH gh by (auto simp: tb_keeps_def) (simp add: tb_hist_def)
next
  case (uncond p hs h q)
  then have gh: "tb_globalHistory p AND tb_historyRegisterMask p = tb_globalHistory p" by (simp add: tb_inv_def)
  have "tb_keeps p q" "th_globalHistory h = tb_globalHistory p"
    using global_history_ok(1) [of p] uncond.IH uncond.hyps(2) by (auto simp: tb_uncondBranch_def)
  then show ?case using uncond.IH gh by (auto simp: tb_keeps_def) (simp add: tb_hist_def)
next
  case (btb p hs a q)
  then show ?case using tb_btbUpdate_ok [of p a] by (auto simp: tb_keeps_def)
next
  case (update p hs h a t sq q)
  then have "tb_keeps p q" using tb_update_ok [of p a t "Some h" sq] by auto
  then show ?case using update.IH by (auto simp: tb_keeps_def dest: notin_set_remove1)
next
  case (squash p hs h q)
  then have "tb_inv q \<and> tb_hist q = tb_hist p" using tournament.squash [of p "Some h"] by (auto simp: tournament_ops_def)
  then show ?case using squash.IH by (auto dest: notin_set_remove1)
qed

text \<open>
  C30: A tournament predictor that its constructor accepts stays well formed through any order of
  predictions, corrections, updates and squashes: every counter is within its maximum, the global
  history within its register, and no operation reads a table out of range or fails an assertion.
\<close>

theorem tournament_type_safe:
  assumes "tb_reach P p hs" and "unat (tp_instShiftAmt P) < 64" and "h \<in> set hs"
  shows "tb_inv p \<and> (\<exists>t g q. tb_lookup p a = Inr (t, Some g, q)) \<and> (\<exists>q. tb_btbUpdate p a = Inr q) \<and>
    (\<exists>q. tb_update p a taken (Some h) squashed = Inr q) \<and> (\<exists>q. tb_squash p (Some h) = Inr q)"
proof -
  have inv: "tb_inv p" using tb_reach_inv [OF assms(1,2)] by simp
  show ?thesis
    using inv tb_lookup_ok [OF inv, of a] tb_btbUpdate_ok [OF inv, of a] tb_update_ok [OF inv, of a taken "Some h" squashed]
    by (auto simp: tb_squash_def)
qed

theorem tournament_type_safe_witness:
  "\<exists>p t h q. TournamentBP_new tb_small = Inr p \<and> tb_lookup p 0x40 = Inr (t, Some h, q) \<and> tb_reach tb_small q [h] \<and>
    unat (tp_instShiftAmt tb_small) < 64 \<and> tb_inv q \<and> (\<exists>r. tb_update q 0x40 True (Some h) True = Inr r)"
proof -
  have sh: "unat (tp_instShiftAmt tb_small) < 64" by (simp add: tb_small_def)
  have "\<not> isl (TournamentBP_new tb_small)" by code_simp
  then obtain p where p: "TournamentBP_new tb_small = Inr p" by (cases "TournamentBP_new tb_small") auto
  then have r: "tb_reach tb_small p []" by (rule tb_reach.new)
  then obtain t h q where l: "tb_lookup p 0x40 = Inr (t, Some h, q)"
    using tb_lookup_ok tb_reach_inv [OF r sh] by blast
  then have "tb_reach tb_small q [h]" using r by (blast intro: tb_reach.lookup)
  then show ?thesis using p l sh tournament_type_safe [of tb_small q "[h]" h "0x40" True True] by auto
qed


end
