(* ===== verification/BiModeBP.thy ===== *)
theory BiModeBP
  imports Predictor
begin

unbundle bit_operations_syntax

section \<open>The bi-mode predictor\<close>

text \<open>
  \<open>gem5/src/cpu/pred/bi_mode.hh\<close> and \<open>.cc\<close>: two tables of direction counters indexed by the
  address and the global history, and a table of choice counters indexed by the address.
\<close>

record bm_history =
  bh_globalHistoryReg :: u32
  bh_takenUsed :: bool
  bh_takenPred :: bool
  bh_notTakenPred :: bool
  bh_finalPred :: bool

record bi_mode_bp =
  bm_choiceCounters :: "sat_counter list"
  bm_takenCounters :: "sat_counter list"
  bm_notTakenCounters :: "sat_counter list"
  bm_instShiftAmt :: u32
  bm_globalHistoryReg :: u32
  bm_globalHistoryBits :: nat
  bm_historyRegisterMask :: u32
  bm_choicePredictorSize :: u32
  bm_choiceCtrBits :: u32
  bm_choiceHistoryMask :: u32
  bm_globalPredictorSize :: u32
  bm_globalCtrBits :: u32
  bm_globalHistoryMask :: u32
  bm_choiceThreshold :: u32
  bm_takenThreshold :: u32
  bm_notTakenThreshold :: u32

text \<open>All three thresholds are computed from the width of the choice counters.\<close>

definition BiModeBP_new :: "u32 \<Rightarrow> u32 \<Rightarrow> u32 \<Rightarrow> u32 \<Rightarrow> u32 \<Rightarrow> bi_mode_bp result" where
  "BiModeBP_new instShiftAmt globalPredictorSize choicePredictorSize choiceCtrBits globalCtrBits =
     bind_res (ceilLog2 globalPredictorSize) (\<lambda>globalHistoryBits.
     if \<not> isPowerOf2 choicePredictorSize then Inl ExitFailure
     else if \<not> isPowerOf2 globalPredictorSize then Inl ExitFailure
     else bind_res (counter_table choicePredictorSize choiceCtrBits) (\<lambda>choiceCounters.
     bind_res (counter_table globalPredictorSize globalCtrBits) (\<lambda>takenCounters.
     bind_res (counter_table globalPredictorSize globalCtrBits) (\<lambda>notTakenCounters.
     bind_res (mask_bits globalHistoryBits) (\<lambda>hmask.
     bind_res (threshold choiceCtrBits) (\<lambda>t.
     Inr \<lparr>bm_choiceCounters = choiceCounters, bm_takenCounters = takenCounters, bm_notTakenCounters = notTakenCounters,
       bm_instShiftAmt = instShiftAmt, bm_globalHistoryReg = 0, bm_globalHistoryBits = globalHistoryBits,
       bm_historyRegisterMask = ucast hmask, bm_choicePredictorSize = choicePredictorSize,
       bm_choiceCtrBits = choiceCtrBits, bm_choiceHistoryMask = choicePredictorSize - 1,
       bm_globalPredictorSize = globalPredictorSize, bm_globalCtrBits = globalCtrBits,
       bm_globalHistoryMask = globalPredictorSize - 1, bm_choiceThreshold = t,
       bm_takenThreshold = t, bm_notTakenThreshold = t\<rparr>))))))"

definition updateGlobalHistReg :: "bool \<Rightarrow> bi_mode_bp \<Rightarrow> bi_mode_bp" where
  "updateGlobalHistReg taken p =
     p\<lparr>bm_globalHistoryReg := (if taken then push_bit 1 (bm_globalHistoryReg p) OR 1
        else push_bit 1 (bm_globalHistoryReg p)) AND bm_historyRegisterMask p\<rparr>"

definition bm_uncondBranch :: "bi_mode_bp \<Rightarrow> bm_history option \<times> bi_mode_bp" where
  "bm_uncondBranch p =
     (Some \<lparr>bh_globalHistoryReg = bm_globalHistoryReg p, bh_takenUsed = True, bh_takenPred = True,
        bh_notTakenPred = True, bh_finalPred = True\<rparr>,
      updateGlobalHistReg True p)"

definition bm_squash :: "bi_mode_bp \<Rightarrow> bm_history option \<Rightarrow> bi_mode_bp result" where
  "bm_squash p bpHistory =
     (case bpHistory of
        None \<Rightarrow> Inl NullDereference
      | Some history \<Rightarrow> Inr (p\<lparr>bm_globalHistoryReg := bh_globalHistoryReg history\<rparr>))"

text \<open>The two indices a branch uses under a given global history.\<close>

definition bm_indices :: "bi_mode_bp \<Rightarrow> addr \<Rightarrow> u32 \<Rightarrow> (u32 \<times> u32) result" where
  "bm_indices p branchAddr reg =
     bind_res (shr64 branchAddr (unat (bm_instShiftAmt p))) (\<lambda>x.
     let choiceHistoryIdx = ucast (x AND ucast (bm_choiceHistoryMask p));
         globalHistoryIdx = ucast ((x XOR ucast reg) AND ucast (bm_globalHistoryMask p)) in
     if \<not> choiceHistoryIdx < bm_choicePredictorSize p then Inl AssertionFailed
     else if \<not> globalHistoryIdx < bm_globalPredictorSize p then Inl AssertionFailed
     else Inr (choiceHistoryIdx, globalHistoryIdx))"

definition bm_lookup :: "bi_mode_bp \<Rightarrow> addr \<Rightarrow> (bool \<times> bm_history option \<times> bi_mode_bp) result" where
  "bm_lookup p branchAddr =
     bind_res (bm_indices p branchAddr (bm_globalHistoryReg p)) (\<lambda>(choiceHistoryIdx, globalHistoryIdx).
     bind_res (vec_get (bm_choiceCounters p) choiceHistoryIdx) (\<lambda>cc.
     bind_res (vec_get (bm_takenCounters p) globalHistoryIdx) (\<lambda>tc.
     bind_res (vec_get (bm_notTakenCounters p) globalHistoryIdx) (\<lambda>nc.
     let choicePrediction = ucast (sat_read cc) > bm_choiceThreshold p;
         takenGHBPrediction = ucast (sat_read tc) > bm_takenThreshold p;
         notTakenGHBPrediction = ucast (sat_read nc) > bm_notTakenThreshold p;
         finalPrediction = (if choicePrediction then takenGHBPrediction else notTakenGHBPrediction) in
     Inr (finalPrediction,
       Some \<lparr>bh_globalHistoryReg = bm_globalHistoryReg p, bh_takenUsed = choicePrediction,
         bh_takenPred = takenGHBPrediction, bh_notTakenPred = notTakenGHBPrediction, bh_finalPred = finalPrediction\<rparr>,
       updateGlobalHistReg finalPrediction p)))))"

definition bm_btbUpdate :: "bi_mode_bp \<Rightarrow> addr \<Rightarrow> bi_mode_bp result" where
  "bm_btbUpdate p branchAddr =
     Inr (p\<lparr>bm_globalHistoryReg := bm_globalHistoryReg p AND (bm_historyRegisterMask p AND NOT 1)\<rparr>)"

text \<open>The parts of \<open>update\<close>: the direction table that was used, the choice table, the history.\<close>

definition bm_update_direction :: "bm_history \<Rightarrow> bool \<Rightarrow> u32 \<Rightarrow> bi_mode_bp \<Rightarrow> bi_mode_bp result" where
  "bm_update_direction history taken globalHistoryIdx p =
     (if bh_takenUsed history
      then bind_res (vec_upd (bm_takenCounters p) globalHistoryIdx (if taken then increment else decrement))
        (\<lambda>cs. Inr (p\<lparr>bm_takenCounters := cs\<rparr>))
      else bind_res (vec_upd (bm_notTakenCounters p) globalHistoryIdx (if taken then increment else decrement))
        (\<lambda>cs. Inr (p\<lparr>bm_notTakenCounters := cs\<rparr>)))"

definition bm_update_choice :: "bm_history \<Rightarrow> bool \<Rightarrow> u32 \<Rightarrow> bi_mode_bp \<Rightarrow> bi_mode_bp result" where
  "bm_update_choice history taken choiceHistoryIdx p =
     (let step = bind_res (vec_upd (bm_choiceCounters p) choiceHistoryIdx (if taken then increment else decrement))
        (\<lambda>cs. Inr (p\<lparr>bm_choiceCounters := cs\<rparr>)) in
      if bh_finalPred history = taken
      then (if bh_finalPred history = bh_takenUsed history then step else Inr p)
      else step)"

definition bm_update :: "bi_mode_bp \<Rightarrow> addr \<Rightarrow> bool \<Rightarrow> bm_history option \<Rightarrow> bool \<Rightarrow> bi_mode_bp result" where
  "bm_update p branchAddr taken bpHistory squashed =
     (case bpHistory of
        None \<Rightarrow> Inr p
      | Some history \<Rightarrow>
          bind_res (bm_indices p branchAddr (bh_globalHistoryReg history)) (\<lambda>(choiceHistoryIdx, globalHistoryIdx).
          bind_res (bm_update_direction history taken globalHistoryIdx p) (\<lambda>p.
          bind_res (bm_update_choice history taken choiceHistoryIdx p) (\<lambda>p.
          Inr (if squashed
            then p\<lparr>bm_globalHistoryReg := (if taken then push_bit 1 (bh_globalHistoryReg history) OR 1
                else push_bit 1 (bh_globalHistoryReg history)) AND bm_historyRegisterMask p\<rparr>
            else p)))))"

definition bm_retireSquashed :: "bi_mode_bp \<Rightarrow> bm_history option \<Rightarrow> bi_mode_bp result" where
  "bm_retireSquashed p bpHistory = Inr p"

definition bi_mode_ops :: "(bi_mode_bp, bm_history) predictor_ops" where
  "bi_mode_ops = \<lparr>bp_lookup = bm_lookup, bp_uncondBranch = bm_uncondBranch, bp_btbUpdate = bm_btbUpdate,
     bp_update = bm_update, bp_squash = bm_squash, bp_retireSquashed = bm_retireSquashed\<rparr>"

subsection \<open>Invariant\<close>

definition bm_inv :: "bi_mode_bp \<Rightarrow> bool" where
  "bm_inv p \<longleftrightarrow>
     (\<exists>k<32. bm_choicePredictorSize p = 2 ^ k \<and> bm_choiceHistoryMask p = mask k \<and> length (bm_choiceCounters p) = 2 ^ k) \<and>
     (\<exists>k<32. bm_globalPredictorSize p = 2 ^ k \<and> bm_globalHistoryMask p = mask k \<and> length (bm_takenCounters p) = 2 ^ k \<and>
        length (bm_notTakenCounters p) = 2 ^ k \<and> bm_historyRegisterMask p = mask k) \<and>
     bm_globalHistoryReg p AND bm_historyRegisterMask p = bm_globalHistoryReg p \<and> unat (bm_instShiftAmt p) < 64 \<and>
     counters_ok (bm_choiceCounters p) \<and> counters_ok (bm_takenCounters p) \<and> counters_ok (bm_notTakenCounters p)"

definition bm_hist :: "bi_mode_bp \<Rightarrow> bm_history option \<Rightarrow> bool" where
  "bm_hist p h \<longleftrightarrow> (\<exists>r. h = Some r \<and> bh_globalHistoryReg r AND bm_historyRegisterMask p = bh_globalHistoryReg r)"

lemma ucast_xor: "(ucast ((x :: addr) XOR ucast (r :: u32)) :: u32) = ucast x XOR r"
  by (rule bit_word_eqI) (auto simp: bit_simps)

lemma bm_indices_ok:
  assumes "bm_inv p"
  obtains c g where "bm_indices p a r = Inr (c, g)" "unat c < length (bm_choiceCounters p)"
    "unat g < length (bm_takenCounters p)" "unat g < length (bm_notTakenCounters p)"
proof -
  obtain k where k: "k < 32" "bm_choicePredictorSize p = 2 ^ k" "bm_choiceHistoryMask p = mask k" "length (bm_choiceCounters p) = 2 ^ k"
    using assms by (auto simp: bm_inv_def)
  obtain j where j: "j < 32" "bm_globalPredictorSize p = 2 ^ j" "bm_globalHistoryMask p = mask j" "length (bm_takenCounters p) = 2 ^ j"
      "length (bm_notTakenCounters p) = 2 ^ j" and sh: "unat (bm_instShiftAmt p) < 64"
    using assms by (auto simp: bm_inv_def)
  let ?x = "ucast (drop_bit (unat (bm_instShiftAmt p)) a) :: u32"
  have lt: "unat (?x AND mask k) < 2 ^ k" "unat ((?x XOR r) AND mask j) < 2 ^ j" by (rule and_mask_index)+
  then have "bm_indices p a r = Inr (?x AND mask k, (?x XOR r) AND mask j)"
    using sh k j by (simp add: bm_indices_def shr64_def Let_def ucast_and_mask ucast_xor word_less_nat_alt unat_exp)
  then show ?thesis using that lt k j by simp
qed

lemma bm_inv_writes:
  assumes "bm_inv p"
  shows "bm_inv (p\<lparr>bm_globalHistoryReg := x AND bm_historyRegisterMask p\<rparr>)"
    and "f = increment \<or> f = decrement \<Longrightarrow> bm_inv (p\<lparr>bm_takenCounters := (bm_takenCounters p)[j := f (bm_takenCounters p ! j)]\<rparr>)"
    and "f = increment \<or> f = decrement \<Longrightarrow> bm_inv (p\<lparr>bm_notTakenCounters := (bm_notTakenCounters p)[j := f (bm_notTakenCounters p ! j)]\<rparr>)"
    and "f = increment \<or> f = decrement \<Longrightarrow> bm_inv (p\<lparr>bm_choiceCounters := (bm_choiceCounters p)[j := f (bm_choiceCounters p ! j)]\<rparr>)"
  using assms by (simp_all add: bm_inv_def and.assoc counters_ok_update)

definition bm_keeps :: "bi_mode_bp \<Rightarrow> bi_mode_bp \<Rightarrow> bool" where
  "bm_keeps p q \<longleftrightarrow> bm_inv q \<and> bm_historyRegisterMask q = bm_historyRegisterMask p \<and>
     length (bm_choiceCounters q) = length (bm_choiceCounters p)"

lemma bm_keeps_hist: "bm_keeps p q \<Longrightarrow> bm_hist q = bm_hist p"
  by (simp add: bm_keeps_def bm_hist_def fun_eq_iff)

lemma bm_register_ok: "bm_inv p \<Longrightarrow> bm_keeps p (updateGlobalHistReg t p)"
  using bm_inv_writes(1) [of p] by (simp add: bm_keeps_def updateGlobalHistReg_def)

lemma bm_lookup_ok:
  assumes inv: "bm_inv p"
  shows "\<exists>t h. bm_lookup p a = Inr (t, Some h, updateGlobalHistReg t p) \<and> bh_globalHistoryReg h = bm_globalHistoryReg p"
proof -
  obtain c g where "bm_indices p a (bm_globalHistoryReg p) = Inr (c, g)" "unat c < length (bm_choiceCounters p)"
    "unat g < length (bm_takenCounters p)" "unat g < length (bm_notTakenCounters p)" using bm_indices_ok [OF inv] .
  then show ?thesis by (simp add: bm_lookup_def Let_def)
qed

lemma bm_update_direction_ok:
  assumes "bm_inv p" "unat g < length (bm_takenCounters p)" "unat g < length (bm_notTakenCounters p)"
  shows "\<exists>q. bm_update_direction h t g p = Inr q \<and> bm_keeps p q"
  using assms bm_inv_writes(2,3) [OF assms(1)] by (simp add: bm_update_direction_def bm_keeps_def)

lemma bm_update_choice_ok:
  assumes "bm_inv p" "unat c < length (bm_choiceCounters p)"
  shows "\<exists>q. bm_update_choice h t c p = Inr q \<and> bm_keeps p q"
  using assms bm_inv_writes(4) [OF assms(1)] by (simp add: bm_update_choice_def bm_keeps_def Let_def)

lemma bm_update_ok:
  assumes inv: "bm_inv p"
  shows "\<exists>q. bm_update p a t h sq = Inr q \<and> bm_keeps p q"
proof (cases h)
  case None
  then show ?thesis using inv by (simp add: bm_update_def bm_keeps_def)
next
  case (Some r)
  obtain c g where i: "bm_indices p a (bh_globalHistoryReg r) = Inr (c, g)" "unat c < length (bm_choiceCounters p)"
    "unat g < length (bm_takenCounters p)" "unat g < length (bm_notTakenCounters p)" using bm_indices_ok [OF inv] .
  obtain q1 where q1: "bm_update_direction r t g p = Inr q1" "bm_keeps p q1"
    using bm_update_direction_ok [OF inv i(3,4)] by blast
  then have "bm_inv q1" "unat c < length (bm_choiceCounters q1)" using i(2) by (simp_all add: bm_keeps_def)
  then obtain q2 where q2: "bm_update_choice r t c q1 = Inr q2" "bm_keeps q1 q2"
    using bm_update_choice_ok by blast
  then have "bm_inv q2" by (simp add: bm_keeps_def)
  from bm_inv_writes(1) [OF this] show ?thesis using Some i(1) q1 q2 by (simp add: bm_update_def bm_keeps_def)
qed

interpretation bi_mode: direction_predictor bi_mode_ops bm_inv bm_hist bm_globalHistoryReg
proof
  fix p a t h sq
  assume inv: "bm_inv p"
  have gh: "bm_globalHistoryReg p AND bm_historyRegisterMask p = bm_globalHistoryReg p" using inv by (simp add: bm_inv_def)
  obtain t' h' where "bm_lookup p a = Inr (t', Some h', updateGlobalHistReg t' p)" "bh_globalHistoryReg h' = bm_globalHistoryReg p"
    using bm_lookup_ok [OF inv] by blast
  then show "\<exists>t h p'. bp_lookup bi_mode_ops p a = Inr (t, h, p') \<and> bm_inv p' \<and> bm_hist p' = bm_hist p \<and> bm_hist p h \<and>
      (\<forall>q q'. bm_inv q \<longrightarrow> bm_hist q = bm_hist p \<longrightarrow> bp_squash bi_mode_ops q h = Inr q' \<longrightarrow>
        bm_globalHistoryReg q' = bm_globalHistoryReg p)"
    using gh bm_register_ok [OF inv, of t'] bm_keeps_hist [OF bm_register_ok [OF inv, of t']]
    by (intro exI [of _ t'] exI [of _ "Some h'"] exI [of _ "updateGlobalHistReg t' p"])
      (auto simp: bi_mode_ops_def bm_hist_def bm_squash_def bm_keeps_def)
  show "\<exists>h p'. bp_uncondBranch bi_mode_ops p = (h, p') \<and> bm_inv p' \<and> bm_hist p' = bm_hist p \<and> bm_hist p h \<and>
      (\<forall>q q'. bm_inv q \<longrightarrow> bm_hist q = bm_hist p \<longrightarrow> bp_squash bi_mode_ops q h = Inr q' \<longrightarrow>
        bm_globalHistoryReg q' = bm_globalHistoryReg p)"
    using gh bm_register_ok [OF inv, of True] bm_keeps_hist [OF bm_register_ok [OF inv, of True]]
    by (auto simp: bi_mode_ops_def bm_uncondBranch_def bm_hist_def bm_squash_def bm_keeps_def)
  show "\<exists>p'. bp_btbUpdate bi_mode_ops p a = Inr p' \<and> bm_inv p' \<and> bm_hist p' = bm_hist p"
  proof -
    have "bm_globalHistoryReg p AND (bm_historyRegisterMask p AND NOT 1) =
        (bm_globalHistoryReg p AND NOT 1) AND bm_historyRegisterMask p"
      by (simp add: and.assoc and.commute and.left_commute)
    then show ?thesis using bm_inv_writes(1) [OF inv, of "bm_globalHistoryReg p AND NOT 1"]
      by (simp add: bi_mode_ops_def bm_btbUpdate_def bm_hist_def fun_eq_iff)
  qed
  show "\<exists>p'. bp_update bi_mode_ops p a t h sq = Inr p' \<and> bm_inv p' \<and> bm_hist p' = bm_hist p"
    using bm_update_ok [OF inv, of a t h sq] by (auto simp: bi_mode_ops_def bm_keeps_def bm_hist_def fun_eq_iff)
  show "\<exists>p'. bp_squash bi_mode_ops p h = Inr p' \<and> bm_inv p' \<and> bm_hist p' = bm_hist p" if "bm_hist p h"
  proof -
    obtain r where r: "h = Some r" "bh_globalHistoryReg r AND bm_historyRegisterMask p = bh_globalHistoryReg r"
      using \<open>bm_hist p h\<close> by (auto simp: bm_hist_def)
    then show ?thesis using bm_inv_writes(1) [OF inv, of "bh_globalHistoryReg r"]
      by (simp add: bi_mode_ops_def bm_squash_def bm_hist_def fun_eq_iff)
  qed
  show "bp_retireSquashed bi_mode_ops p h = Inr p"
    by (simp add: bi_mode_ops_def bm_retireSquashed_def)
qed

subsection \<open>The constructor and the thresholds\<close>

lemma BiModeBP_new_facts:
  assumes new: "BiModeBP_new sh gs cs cb gb = Inr p" and sh: "unat sh < 64"
  shows "bm_inv p" and "cb < 31" and "gb < 31"
    and "list_all (sat_ok (ucast (2 ^ unat gb - 1 :: u32))) (bm_takenCounters p)"
    and "list_all (sat_ok (ucast (2 ^ unat gb - 1 :: u32))) (bm_notTakenCounters p)"
    and "bm_takenThreshold p = ucast (2 ^ unat (cb - 1) - 1 :: 64 word)"
    and "bm_notTakenThreshold p = ucast (2 ^ unat (cb - 1) - 1 :: 64 word)"
proof -
  have pows: "isPowerOf2 cs" "isPowerOf2 gs"
    using new by (auto simp: BiModeBP_new_def bind_res_Inr_iff simp del: bind_res_simps split: if_split_asm)
  obtain lg cc tc nc hm th where
    p: "\<lparr>bm_choiceCounters = cc, bm_takenCounters = tc, bm_notTakenCounters = nc, bm_instShiftAmt = sh,
       bm_globalHistoryReg = 0, bm_globalHistoryBits = lg, bm_historyRegisterMask = ucast hm,
       bm_choicePredictorSize = cs, bm_choiceCtrBits = cb, bm_choiceHistoryMask = cs - 1,
       bm_globalPredictorSize = gs, bm_globalCtrBits = gb, bm_globalHistoryMask = gs - 1,
       bm_choiceThreshold = th, bm_takenThreshold = th, bm_notTakenThreshold = th\<rparr> = p"
    and logs: "ceilLog2 gs = Inr lg"
    and tabs: "counter_table cs cb = Inr cc" "counter_table gs gb = Inr tc" "counter_table gs gb = Inr nc"
    and m: "mask_bits lg = Inr hm" and th: "threshold cb = Inr th"
    using new
    by (simp only: BiModeBP_new_def pows simp_thms if_False bind_res_Inr_iff sum.inject) (elim exE conjE, rule that, assumption+)
  obtain kc kg where k: "kc < 32" "cs = 2 ^ kc" "kg < 32" "gs = 2 ^ kg" using pows by (auto simp: isPowerOf2_iff)
  have lg: "lg = kg" and hm: "hm = mask kg" using logs m k by (auto simp: ceilLog2_exp mask_bits_mask)
  note t = counter_table_facts [OF tabs(1) k(2,1)] counter_table_facts [OF tabs(2) k(4,3)] counter_table_facts [OF tabs(3) k(4,3)]
  show "bm_inv p" unfolding p [symmetric] bm_inv_def using sh k t by (auto simp: hm ucast_mask32 exp_minus_1_mask unat_exp)
  have "gs \<noteq> 0" using pows(2) by (simp add: isPowerOf2_def)
  then show "list_all (sat_ok (ucast (2 ^ unat gb - 1 :: u32))) (bm_takenCounters p)"
    "list_all (sat_ok (ucast (2 ^ unat gb - 1 :: u32))) (bm_notTakenCounters p)"
    using counter_table_Inr [OF tabs(2)] counter_table_Inr [OF tabs(3)] fresh_counters_ok by (simp_all flip: p)
  show "cb < 31" "gb < 31" using t by simp_all
  show "bm_takenThreshold p = ucast (2 ^ unat (cb - 1) - 1 :: 64 word)"
    "bm_notTakenThreshold p = ucast (2 ^ unat (cb - 1) - 1 :: 64 word)"
    using threshold_Inr [OF th] by (simp_all flip: p)
qed

inductive bm_reach :: "bi_mode_bp \<Rightarrow> bi_mode_bp \<Rightarrow> bm_history list \<Rightarrow> bool" for p0 where
  start: "bm_reach p0 p0 []"
| lookup: "bm_reach p0 p hs \<Longrightarrow> bm_lookup p a = Inr (t, Some h, q) \<Longrightarrow> bm_reach p0 q (h # hs)"
| uncond: "bm_reach p0 p hs \<Longrightarrow> bm_uncondBranch p = (Some h, q) \<Longrightarrow> bm_reach p0 q (h # hs)"
| btb: "bm_reach p0 p hs \<Longrightarrow> bm_btbUpdate p a = Inr q \<Longrightarrow> bm_reach p0 q hs"
| update: "bm_reach p0 p hs \<Longrightarrow> h \<in> set hs \<Longrightarrow> bm_update p a t (Some h) sq = Inr q \<Longrightarrow>
    bm_reach p0 q (if sq then hs else remove1 h hs)"
| squash: "bm_reach p0 p hs \<Longrightarrow> h \<in> set hs \<Longrightarrow> bm_squash p (Some h) = Inr q \<Longrightarrow> bm_reach p0 q (remove1 h hs)"

text \<open>The maximum of the direction counters and the thresholds do not change.\<close>

definition bm_limits :: "8 word \<Rightarrow> bi_mode_bp \<Rightarrow> bi_mode_bp \<Rightarrow> bool" where
  "bm_limits m p0 p \<longleftrightarrow> list_all (sat_ok m) (bm_takenCounters p) \<and> list_all (sat_ok m) (bm_notTakenCounters p) \<and>
     bm_takenThreshold p = bm_takenThreshold p0 \<and> bm_notTakenThreshold p = bm_notTakenThreshold p0"

lemma list_all_step:
  assumes "list_all (sat_ok m) cs"
  shows "list_all (sat_ok m) (cs[j := (if t then increment else decrement) (cs ! j)])"
  using assms by (intro list_all_update) (auto simp: list_all_length)

lemma bm_update_limits:
  assumes "bm_update p a t (Some h) sq = Inr q" and "bm_limits m p0 p"
  shows "bm_limits m p0 q"
proof -
  obtain cg p1 p2 where u: "bm_update_direction h t (snd cg) p = Inr p1" "bm_update_choice h t (fst cg) p1 = Inr p2"
      "q = (if sq then p2\<lparr>bm_globalHistoryReg := (if t then push_bit 1 (bh_globalHistoryReg h) OR 1
        else push_bit 1 (bh_globalHistoryReg h)) AND bm_historyRegisterMask p2\<rparr> else p2)"
    using assms(1) unfolding bm_update_def option.case bind_res_Inr_iff case_prod_unfold by blast
  have "bm_limits m p0 p1"
    using u(1) assms(2) list_all_step [of m "bm_takenCounters p" _ t] list_all_step [of m "bm_notTakenCounters p" _ t]
    by (auto simp: bm_update_direction_def bm_limits_def bind_res_Inr_iff vec_upd_def split: if_splits)
  then have "bm_limits m p0 p2"
    using u(2) by (auto simp: bm_update_choice_def bm_limits_def bind_res_Inr_iff Let_def split: if_splits)
  then show ?thesis by (simp add: u(3) bm_limits_def)
qed

lemma bm_reach_limits:
  assumes "bm_reach p0 p hs" and "bm_inv p0" and "bm_limits m p0 p0"
  shows "bm_inv p \<and> (\<forall>h\<in>set hs. bm_hist p (Some h)) \<and> bm_limits m p0 p"
  using assms(1)
proof induction
  case start
  then show ?case using assms(2,3) by simp
next
  case (lookup p hs a t h q)
  then have gh: "bm_globalHistoryReg p AND bm_historyRegisterMask p = bm_globalHistoryReg p" by (simp add: bm_inv_def)
  have "q = updateGlobalHistReg t p" "bh_globalHistoryReg h = bm_globalHistoryReg p"
    using bm_lookup_ok [of p a] lookup.IH lookup.hyps(2) by auto
  then show ?case using lookup.IH gh bm_register_ok [of p t]
    by (auto simp: bm_keeps_def bm_hist_def bm_limits_def updateGlobalHistReg_def)
next
  case (uncond p hs h q)
  then have gh: "bm_globalHistoryReg p AND bm_historyRegisterMask p = bm_globalHistoryReg p" by (simp add: bm_inv_def)
  have "q = updateGlobalHistReg True p" "bh_globalHistoryReg h = bm_globalHistoryReg p"
    using uncond.hyps(2) by (auto simp: bm_uncondBranch_def)
  then show ?case using uncond.IH gh bm_register_ok [of p True]
    by (auto simp: bm_keeps_def bm_hist_def bm_limits_def updateGlobalHistReg_def)
next
  case (btb p hs a q)
  then have "bm_inv q" using bi_mode.btbUpdate [of p a] by (auto simp: bi_mode_ops_def)
  then show ?case using btb by (auto simp: bm_btbUpdate_def bm_hist_def bm_limits_def)
next
  case (update p hs h a t sq q)
  then have k: "bm_keeps p q" using bm_update_ok [of p a t "Some h" sq] by auto
  then show ?case using update.IH bm_update_limits [OF update.hyps(3)] bm_keeps_hist [OF k]
    by (auto simp: bm_keeps_def dest: notin_set_remove1)
next
  case (squash p hs h q)
  then have "bm_inv q" using bi_mode.squash [of p "Some h"] by (auto simp: bi_mode_ops_def)
  then show ?case using squash by (auto simp: bm_squash_def bm_hist_def bm_limits_def dest: notin_set_remove1)
qed

lemma unat_exp_pred: "k < LENGTH('a) \<Longrightarrow> unat (2 ^ k - 1 :: 'a::len word) = 2 ^ k - 1"
  by (subst unat_minus_one) (auto simp: unat_exp)

text \<open>With narrow direction counters no counter is above the threshold.\<close>

lemma narrow_limit:
  assumes g: "g < c" and c: "c < 31" and m: "m = (ucast (2 ^ g - 1 :: u32) :: 8 word)"
    and t: "t = (ucast (2 ^ (c - 1) - 1 :: 64 word) :: u32)" and x: "x \<le> m"
  shows "\<not> t < ucast x"
proof -
  have "unat m \<le> 2 ^ g - 1"
    using g c unat_exp_pred [of g, where 'a = 32] by (simp add: m unsigned_ucast_eq take_bit_nat_def)
  moreover have "(2 :: nat) ^ g \<le> 2 ^ (c - 1)" using g by (intro power_increasing) auto
  moreover have "(2 :: nat) ^ (c - 1) \<le> 2 ^ 30" using c by (intro power_increasing) auto
  then have "(2 :: nat) ^ (c - 1) - 1 < 2 ^ 32" by simp
  then have "unat t = 2 ^ (c - 1) - 1"
    using c unat_exp_pred [of "c - 1", where 'a = 64] by (simp add: t unsigned_ucast_eq take_bit_nat_eq_self_iff)
  moreover have "unat x \<le> unat m" using x by (simp add: word_le_nat_alt)
  ultimately have "unat x \<le> unat t" by linarith
  then show ?thesis by (simp add: word_less_nat_alt unat_ucast_u8)
qed

text \<open>
  C32: The thresholds of the direction tables are computed from the width of the choice counters. With
  direction counters narrower than the choice counters no direction counter can exceed its threshold,
  so whatever outcomes the predictor is trained with, it predicts every conditional branch not taken.
\<close>

theorem bi_mode_never_taken:
  assumes "BiModeBP_new sh gs cs cb gb = Inr p0" and "unat sh < 64" and "0 < gb" and "gb < cb" and "bm_reach p0 p hs"
  shows "\<exists>h q. bm_lookup p a = Inr (False, h, q)"
proof -
  note new = BiModeBP_new_facts [OF assms(1,2)]
  define m where "m = (ucast (2 ^ unat gb - 1 :: u32) :: 8 word)"
  have lim: "bm_inv p \<and> bm_limits m p0 p"
    using bm_reach_limits [OF assms(5) new(1), of m] new(4,5) by (simp add: bm_limits_def m_def)
  have b: "unat gb < unat cb" "0 < cb" "unat cb < 31" using assms(3,4) new(2) by (auto simp: word_less_nat_alt)
  obtain c g where i: "bm_indices p a (bm_globalHistoryReg p) = Inr (c, g)" "unat c < length (bm_choiceCounters p)"
    "unat g < length (bm_takenCounters p)" "unat g < length (bm_notTakenCounters p)" using bm_indices_ok lim by blast
  have "sc_counter (bm_takenCounters p ! unat g) \<le> m" "sc_counter (bm_notTakenCounters p ! unat g) \<le> m"
    using lim i(3,4) by (auto simp: bm_limits_def list_all_length sat_ok_def)
  moreover have "bm_takenThreshold p = ucast (2 ^ (unat cb - 1) - 1 :: 64 word)"
      "bm_notTakenThreshold p = ucast (2 ^ (unat cb - 1) - 1 :: 64 word)"
    using lim new(6,7) b(2) by (simp_all add: bm_limits_def unat_pred)
  ultimately have "\<not> bm_takenThreshold p < ucast (sc_counter (bm_takenCounters p ! unat g))"
      "\<not> bm_notTakenThreshold p < ucast (sc_counter (bm_notTakenCounters p ! unat g))"
    using narrow_limit [OF b(1,3) m_def] by blast+
  then show ?thesis using i by (simp add: bm_lookup_def Let_def sat_read_def)
qed

theorem bi_mode_never_taken_witness:
  "\<exists>p0 h p. BiModeBP_new 2 8 8 3 2 = Inr p0 \<and> unat (2 :: u32) < 64 \<and> (0 :: u32) < 2 \<and> (2 :: u32) < 3 \<and>
    bm_uncondBranch p0 = (Some h, p) \<and> bm_reach p0 p [h] \<and> (\<exists>h q. bm_lookup p 0x40 = Inr (False, h, q))"
proof -
  have "\<not> isl (BiModeBP_new 2 8 8 3 2)" by code_simp
  then obtain p0 where p0: "BiModeBP_new 2 8 8 3 2 = Inr p0" by (cases "BiModeBP_new 2 8 8 3 2") auto
  obtain h p where h: "bm_uncondBranch p0 = (Some h, p)" by (simp add: bm_uncondBranch_def)
  then have "bm_reach p0 p [h]" by (blast intro: bm_reach.start bm_reach.uncond)
  then show ?thesis using p0 h bi_mode_never_taken [of 2 8 8 3 2 p0 p "[h]" "0x40"] by auto
qed

end
