(* ===== verification/RAS.thy ===== *)
theory RAS
  imports Predictor
begin

section \<open>The return address stack\<close>

text \<open>
  \<open>gem5/src/cpu/pred/ras.hh\<close> and \<open>.cc\<close>: a ring of return addresses. The type of program
  counters belongs to the instruction set the simulator is built for; here it is a type variable, and
  \<open>set(0)\<close> an argument. The ring implements a stack of bounded depth that forgets its oldest
  entries.
\<close>

record 'pc ras =
  addrStack :: "'pc list"
  ras_numEntries :: u32
  usedEntries :: u32
  tos :: u32

definition ras_reset :: "'pc \<Rightarrow> 'pc ras \<Rightarrow> 'pc ras result" where
  "ras_reset pc0 r =
     (if unat (ras_numEntries r) \<le> length (addrStack r)
      then Inr (r\<lparr>usedEntries := 0, tos := 0,
        addrStack := replicate (unat (ras_numEntries r)) pc0 @ drop (unat (ras_numEntries r)) (addrStack r)\<rparr>)
      else Inl Undefined)"

text \<open>\<open>resize\<close> fills with default program counters, which \<open>reset\<close> overwrites.\<close>

definition ras_init :: "'pc \<Rightarrow> u32 \<Rightarrow> 'pc ras result" where
  "ras_init pc0 n = ras_reset pc0 \<lparr>addrStack = replicate (unat n) pc0, ras_numEntries = n, usedEntries = 0, tos = 0\<rparr>"

definition ras_top :: "'pc ras \<Rightarrow> 'pc result" where
  "ras_top r = vec_get (addrStack r) (tos r)"

definition topIdx :: "'pc ras \<Rightarrow> u32" where
  "topIdx r = tos r"

definition ras_empty :: "'pc ras \<Rightarrow> bool" where
  "ras_empty r \<longleftrightarrow> usedEntries r = 0"

definition ras_full :: "'pc ras \<Rightarrow> bool" where
  "ras_full r \<longleftrightarrow> usedEntries r = ras_numEntries r"

definition incrTos :: "'pc ras \<Rightarrow> 'pc ras" where
  "incrTos r = r\<lparr>tos := (if tos r + 1 = ras_numEntries r then 0 else tos r + 1)\<rparr>"

definition decrTos :: "'pc ras \<Rightarrow> 'pc ras" where
  "decrTos r = r\<lparr>tos := (if tos r = 0 then ras_numEntries r - 1 else tos r - 1)\<rparr>"

definition ras_push :: "'pc \<Rightarrow> 'pc ras \<Rightarrow> 'pc ras result" where
  "ras_push return_addr r =
     (let r = incrTos r in
      bind_res (vec_upd (addrStack r) (tos r) (\<lambda>_. return_addr)) (\<lambda>s.
      let r = r\<lparr>addrStack := s\<rparr> in
      Inr (if usedEntries r \<noteq> ras_numEntries r then r\<lparr>usedEntries := usedEntries r + 1\<rparr> else r)))"

definition ras_pop :: "'pc ras \<Rightarrow> 'pc ras" where
  "ras_pop r = decrTos (if usedEntries r > 0 then r\<lparr>usedEntries := usedEntries r - 1\<rparr> else r)"

definition ras_restore :: "u32 \<Rightarrow> 'pc \<Rightarrow> 'pc ras \<Rightarrow> 'pc ras result" where
  "ras_restore top_entry_idx restored r =
     (let r = r\<lparr>tos := top_entry_idx\<rparr> in
      bind_res (vec_upd (addrStack r) (tos r) (\<lambda>_. restored)) (\<lambda>s. Inr (r\<lparr>addrStack := s\<rparr>)))"

subsection \<open>The bounded stack it implements\<close>

definition ras_inv :: "'pc ras \<Rightarrow> bool" where
  "ras_inv r \<longleftrightarrow> length (addrStack r) = unat (ras_numEntries r) \<and> tos r < ras_numEntries r \<and>
     usedEntries r \<le> ras_numEntries r"

text \<open>The slot \<open>i\<close> places below the top \<open>t\<close> in a ring of \<open>n\<close>.\<close>

definition ring_index :: "nat \<Rightarrow> nat \<Rightarrow> nat \<Rightarrow> nat" where
  "ring_index n t i = (if i \<le> t then t - i else t + n - i)"

definition ras_stack :: "'pc ras \<Rightarrow> 'pc list" where
  "ras_stack r = map (\<lambda>i. addrStack r ! ring_index (unat (ras_numEntries r)) (unat (tos r)) i) [0..<unat (usedEntries r)]"

lemma ring_up:
  assumes "t < n" and "Suc i < n"
  shows "ring_index n (if Suc t = n then 0 else Suc t) (Suc i) = ring_index n t i"
    and "ring_index n t i \<noteq> (if Suc t = n then 0 else Suc t)"
  using assms by (auto simp: ring_index_def)

lemma ring_down: "t < n \<Longrightarrow> Suc i < n \<Longrightarrow> ring_index n (if t = 0 then n - 1 else t - 1) i = ring_index n t (Suc i)"
  by (auto simp: ring_index_def)

lemma unat_succ: "(x :: u32) < y \<Longrightarrow> unat (x + 1) = unat x + 1"
proof -
  assume "x < y"
  then have "unat x + 1 < 2 ^ 32" using unat_bound [of y] by (simp add: word_less_nat_alt)
  then show ?thesis by (simp add: unat_word_ariths)
qed

lemma unat_tos_up:
  assumes "t < (n :: u32)"
  shows "unat (if t + 1 = n then 0 else t + 1) = (if Suc (unat t) = unat n then 0 else Suc (unat t))"
  using unat_succ [OF assms] by (auto simp: word_unat_eq_iff)

lemma unat_tos_down:
  assumes "t < (n :: u32)"
  shows "unat (if t = 0 then n - 1 else t - 1) = (if unat t = 0 then unat n - 1 else unat t - 1)"
proof -
  have "0 < n" using assms by (auto simp: word_less_nat_alt)
  then show ?thesis using unat_pred [of n] unat_pred [of t] by (auto simp: unat_eq_0 word_neq_0_conv)
qed

lemma ras_push_eq:
  assumes inv: "ras_inv r"
  defines "t \<equiv> (if tos r + 1 = ras_numEntries r then 0 else tos r + 1)"
  shows "ras_push x r = Inr (r\<lparr>tos := t, addrStack := (addrStack r)[unat t := x],
      usedEntries := (if usedEntries r \<noteq> ras_numEntries r then usedEntries r + 1 else usedEntries r)\<rparr>)"
    and "unat t < length (addrStack r)"
proof -
  show t: "unat t < length (addrStack r)"
    using inv unat_tos_up [of "tos r" "ras_numEntries r"] by (auto simp: ras_inv_def t_def word_less_nat_alt)
  show "ras_push x r = Inr (r\<lparr>tos := t, addrStack := (addrStack r)[unat t := x],
      usedEntries := (if usedEntries r \<noteq> ras_numEntries r then usedEntries r + 1 else usedEntries r)\<rparr>)"
    using t by (auto simp: ras_push_def incrTos_def Let_def t_def vec_upd_def)
qed

lemma unat_used_up:
  assumes "ras_inv r"
  shows "unat (if usedEntries r \<noteq> ras_numEntries r then usedEntries r + 1 else usedEntries r) =
    min (unat (ras_numEntries r)) (Suc (unat (usedEntries r)))"
proof (cases "usedEntries r = ras_numEntries r")
  case False
  then have "usedEntries r < ras_numEntries r" using assms by (simp add: ras_inv_def order_less_le)
  then show ?thesis using False unat_succ [of "usedEntries r"] by (auto simp: word_less_nat_alt)
qed simp

lemma ras_push_ok:
  assumes inv: "ras_inv r"
  obtains r' where "ras_push x r = Inr r'" "ras_inv r'" "ras_stack r' = take (unat (ras_numEntries r)) (x # ras_stack r)"
    "ras_numEntries r' = ras_numEntries r"
proof -
  define n t where "n = unat (ras_numEntries r)" and "t = (if tos r + 1 = ras_numEntries r then 0 else tos r + 1)"
  let ?r = "r\<lparr>tos := t, addrStack := (addrStack r)[unat t := x],
      usedEntries := (if usedEntries r \<noteq> ras_numEntries r then usedEntries r + 1 else usedEntries r)\<rparr>"
  have push: "ras_push x r = Inr ?r" and lt: "unat t < length (addrStack r)"
    using ras_push_eq [OF inv] by (simp_all add: t_def)
  have len: "length (addrStack r) = n" and tn: "unat (tos r) < n" and un: "unat (usedEntries r) \<le> n"
    using inv by (simp_all add: ras_inv_def n_def word_less_nat_alt word_le_nat_alt)
  have t: "unat t = (if Suc (unat (tos r)) = n then 0 else Suc (unat (tos r)))"
    using inv unat_tos_up [of "tos r" "ras_numEntries r"] by (simp add: ras_inv_def t_def n_def)
  have used: "unat (usedEntries ?r) = min n (Suc (unat (usedEntries r)))"
    using unat_used_up [OF inv] by (simp add: n_def)
  have "ras_inv ?r"
    using lt len used by (simp add: ras_inv_def n_def word_less_nat_alt word_le_nat_alt)
  moreover have "ras_stack ?r = take n (x # ras_stack r)"
  proof (rule nth_equalityI)
    show "length (ras_stack ?r) = length (take n (x # ras_stack r))"
      unfolding ras_stack_def length_map length_upt used using un by simp
    fix i assume "i < length (ras_stack ?r)"
    then have i: "i < n" "i < Suc (unat (usedEntries r))" unfolding ras_stack_def length_map length_upt used by simp_all
    have "ras_stack ?r ! i = (addrStack r)[unat t := x] ! ring_index n (unat t) i"
      using \<open>i < length (ras_stack ?r)\<close> by (simp add: ras_stack_def n_def)
    also have "\<dots> = take n (x # ras_stack r) ! i"
    proof (cases i)
      case 0
      then show ?thesis using lt i by (simp add: ring_index_def)
    next
      case (Suc j)
      then have j: "Suc j < n" "j < unat (usedEntries r)" using i by simp_all
      have "ring_index n (unat t) (Suc j) = ring_index n (unat (tos r)) j" "ring_index n (unat (tos r)) j \<noteq> unat t"
        using ring_up [OF tn j(1)] by (simp_all add: t)
      then show ?thesis using Suc i j by (simp add: ras_stack_def n_def)
    qed
    finally show "ras_stack ?r ! i = take n (x # ras_stack r) ! i" .
  qed
  ultimately show ?thesis using that [OF push] by (simp add: n_def)
qed

lemma ras_pop_ok:
  assumes inv: "ras_inv r"
  shows "ras_inv (ras_pop r)" and "ras_stack (ras_pop r) = tl (ras_stack r)" and "ras_numEntries (ras_pop r) = ras_numEntries r"
proof -
  define n where "n = unat (ras_numEntries r)"
  have tn: "unat (tos r) < n" and un: "unat (usedEntries r) \<le> n"
    using inv by (simp_all add: ras_inv_def n_def word_less_nat_alt word_le_nat_alt)
  have t: "unat (tos (ras_pop r)) = (if unat (tos r) = 0 then n - 1 else unat (tos r) - 1)"
  proof -
    have "tos (ras_pop r) = (if tos r = 0 then ras_numEntries r - 1 else tos r - 1)" by (simp add: ras_pop_def decrTos_def)
    then show ?thesis using inv unat_tos_down [of "tos r" "ras_numEntries r"] by (simp only: n_def ras_inv_def)
  qed
  have used: "unat (usedEntries (ras_pop r)) = unat (usedEntries r) - 1"
    using unat_pred [of "usedEntries r"] by (auto simp: ras_pop_def decrTos_def not_less word_le_nat_alt)
  have same: "addrStack (ras_pop r) = addrStack r" "ras_numEntries (ras_pop r) = ras_numEntries r"
    by (simp_all add: ras_pop_def decrTos_def)
  show "ras_numEntries (ras_pop r) = ras_numEntries r" by (rule same(2))
  show "ras_inv (ras_pop r)"
    using inv tn un t used by (auto simp: ras_inv_def same n_def word_less_nat_alt word_le_nat_alt)
  show "ras_stack (ras_pop r) = tl (ras_stack r)"
  proof (rule nth_equalityI)
    show "length (ras_stack (ras_pop r)) = length (tl (ras_stack r))" by (simp add: ras_stack_def used)
    fix i assume "i < length (ras_stack (ras_pop r))"
    then have i: "i < unat (usedEntries r) - 1" by (simp add: ras_stack_def used)
    then have "Suc i < n" "Suc i < unat (usedEntries r)" using un by simp_all
    then show "ras_stack (ras_pop r) ! i = tl (ras_stack r) ! i"
      using i ring_down [OF tn] unfolding ras_stack_def by (simp add: used same t n_def [symmetric] nth_tl)
  qed
qed

lemma ras_init_inv:
  assumes "ras_init pc0 n = Inr r" and "n \<noteq> 0"
  shows "ras_inv r" and "ras_stack r = []" and "ras_numEntries r = n"
  using assms by (auto simp: ras_init_def ras_reset_def ras_inv_def ras_stack_def word_gt_0)

text \<open>
  C33: The ring of return addresses implements a stack of bounded depth: a push puts the address on top
  and forgets the oldest one when the ring is full, a pop removes the top and does nothing to an empty
  stack, and the top of a stack that is not empty is the entry at \<open>tos\<close>.
\<close>

theorem ras_implements_bounded_stack:
  assumes "ras_inv r"
  shows "(\<exists>r'. ras_push x r = Inr r' \<and> ras_inv r' \<and> ras_stack r' = take (unat (ras_numEntries r)) (x # ras_stack r)) \<and>
    ras_inv (ras_pop r) \<and> ras_stack (ras_pop r) = tl (ras_stack r) \<and>
    (ras_empty r \<longleftrightarrow> ras_stack r = []) \<and> (\<not> ras_empty r \<longrightarrow> ras_top r = Inr (hd (ras_stack r)))"
proof (intro conjI)
  show "\<exists>r'. ras_push x r = Inr r' \<and> ras_inv r' \<and> ras_stack r' = take (unat (ras_numEntries r)) (x # ras_stack r)"
    using ras_push_ok [OF assms] by metis
  show "ras_inv (ras_pop r)" "ras_stack (ras_pop r) = tl (ras_stack r)" by (rule ras_pop_ok [OF assms])+
  show "ras_empty r \<longleftrightarrow> ras_stack r = []" by (simp add: ras_empty_def ras_stack_def unat_eq_0)
  show "\<not> ras_empty r \<longrightarrow> ras_top r = Inr (hd (ras_stack r))"
  proof
    assume "\<not> ras_empty r"
    then have "0 < unat (usedEntries r)" by (simp add: ras_empty_def unat_gt_0)
    then have "hd (ras_stack r) = addrStack r ! unat (tos r)"
      by (simp add: ras_stack_def hd_map ring_index_def)
    then show "ras_top r = Inr (hd (ras_stack r))"
      using assms by (simp add: ras_top_def ras_inv_def word_less_nat_alt)
  qed
qed

theorem ras_implements_bounded_stack_witness:
  "\<exists>r r'. ras_init (0 :: nat) 2 = Inr r \<and> ras_inv r \<and> ras_push 7 r = Inr r' \<and> ras_stack r' = [7]"
proof -
  obtain r where r: "ras_init (0 :: nat) 2 = Inr r" by (simp add: ras_init_def ras_reset_def)
  then have "ras_inv r" "ras_stack r = []" "ras_numEntries r = 2" using ras_init_inv [of 0 2 r] by auto
  then show ?thesis using r ras_implements_bounded_stack [of r 7] by auto
qed

text \<open>
  C34: \<open>restore\<close> undoes the move of a pop and the contents of its slot, but not the count: after a pop
  and the restore of what it removed, the top and its index are those from before and the number of
  used entries is one less, so the stack appears one entry shorter.
\<close>

theorem ras_restore_loses_entry:
  assumes "ras_inv r" and "0 < usedEntries r"
  shows "\<exists>r'. ras_restore (topIdx r) (addrStack r ! unat (tos r)) (ras_pop r) = Inr r' \<and> topIdx r' = topIdx r \<and>
    addrStack r' = addrStack r \<and> usedEntries r' = usedEntries r - 1 \<and> length (ras_stack r') + 1 = length (ras_stack r)"
proof -
  have "unat (tos r) < length (addrStack r)" using assms(1) by (simp add: ras_inv_def word_less_nat_alt)
  moreover have "unat (usedEntries r - 1) + 1 = unat (usedEntries r)"
    using assms(2) by (simp add: unat_pred word_less_nat_alt)
  ultimately show ?thesis
    using assms(2) by (simp add: ras_restore_def ras_pop_def decrTos_def topIdx_def ras_stack_def)
qed

theorem ras_restore_loses_entry_witness:
  "\<exists>r r' s. ras_init (0 :: nat) 2 = Inr r \<and> ras_push 7 r = Inr r' \<and> ras_inv r' \<and> 0 < usedEntries r' \<and>
    ras_restore (topIdx r') (addrStack r' ! unat (tos r')) (ras_pop r') = Inr s \<and> usedEntries s = usedEntries r' - 1"
proof -
  obtain r where r: "ras_init (0 :: nat) 2 = Inr r" by (simp add: ras_init_def ras_reset_def)
  then have "ras_inv r" "ras_stack r = []" "ras_numEntries r = 2" using ras_init_inv [of 0 2 r] by auto
  then obtain r' where r': "ras_push 7 r = Inr r'" "ras_inv r'" "ras_stack r' = [7]"
    using ras_push_ok [of r 7] by auto
  then have "0 < usedEntries r'" by (auto simp: ras_stack_def word_gt_0)
  then obtain s where "ras_restore (topIdx r') (addrStack r' ! unat (tos r')) (ras_pop r') = Inr s"
      "usedEntries s = usedEntries r' - 1" using ras_restore_loses_entry [OF r'(2)] by auto
  then show ?thesis using r r'(1,2) \<open>0 < usedEntries r'\<close> by blast
qed

end
