(* ===== verification/BTB.thy ===== *)
theory BTB
  imports Predictor
begin

unbundle bit_operations_syntax

section \<open>The branch target buffer\<close>

text \<open>
  \<open>gem5/src/cpu/pred/btb.hh\<close> and \<open>.cc\<close>: a direct-mapped table of branch targets, tagged with
  bits of the address and the thread. Program counters are a type variable, \<open>0\<close> as a program counter
  an argument; a thread identifier is an integer.
\<close>

record 'pc btb_entry =
  be_tag :: addr
  be_target :: 'pc
  be_tid :: int
  be_valid :: bool

record 'pc default_btb =
  btb_entries :: "'pc btb_entry list"
  btb_numEntries :: u32
  btb_idxMask :: u32
  btb_tagBits :: u32
  btb_tagMask :: u32
  btb_instShiftAmt :: u32
  btb_tagShiftAmt :: u32

text \<open>The entry constructor leaves \<open>tid\<close> as it finds it; here it is an argument.\<close>

definition btb_entry_new :: "'pc \<Rightarrow> int \<Rightarrow> 'pc btb_entry" where
  "btb_entry_new pc0 junk = \<lparr>be_tag = 0, be_target = pc0, be_tid = junk, be_valid = False\<rparr>"

definition DefaultBTB_new :: "'pc \<Rightarrow> int \<Rightarrow> u32 \<Rightarrow> u32 \<Rightarrow> u32 \<Rightarrow> 'pc default_btb result" where
  "DefaultBTB_new pc0 junk numEntries tagBits instShiftAmt =
     (if \<not> isPowerOf2 numEntries then Inl ExitFailure
      else if \<not> tagBits < 31 then Inl Undefined
      else bind_res (floorLog2 numEntries) (\<lambda>lg.
        Inr \<lparr>btb_entries = map (\<lambda>e. e\<lparr>be_valid := False\<rparr>) (replicate (unat numEntries) (btb_entry_new pc0 junk)),
          btb_numEntries = numEntries, btb_idxMask = numEntries - 1, btb_tagBits = tagBits,
          btb_tagMask = push_bit (unat tagBits) 1 - 1, btb_instShiftAmt = instShiftAmt,
          btb_tagShiftAmt = instShiftAmt + of_nat lg\<rparr>))"

definition btb_reset :: "'pc default_btb \<Rightarrow> 'pc default_btb result" where
  "btb_reset b =
     (if unat (btb_numEntries b) \<le> length (btb_entries b)
      then Inr (b\<lparr>btb_entries := map (\<lambda>e. e\<lparr>be_valid := False\<rparr>) (take (unat (btb_numEntries b)) (btb_entries b)) @
        drop (unat (btb_numEntries b)) (btb_entries b)\<rparr>)
      else Inl Undefined)"

definition btb_getIndex :: "'pc default_btb \<Rightarrow> addr \<Rightarrow> u32 result" where
  "btb_getIndex b instPC =
     bind_res (shr64 instPC (unat (btb_instShiftAmt b))) (\<lambda>x. Inr (ucast (x AND ucast (btb_idxMask b))))"

definition btb_getTag :: "'pc default_btb \<Rightarrow> addr \<Rightarrow> addr result" where
  "btb_getTag b instPC =
     bind_res (shr64 instPC (unat (btb_tagShiftAmt b))) (\<lambda>x. Inr (x AND ucast (btb_tagMask b)))"

text \<open>The entry of an address and whether it is the address's own.\<close>

definition btb_find :: "'pc default_btb \<Rightarrow> addr \<Rightarrow> int \<Rightarrow> (bool \<times> 'pc btb_entry) result" where
  "btb_find b instPC tid =
     bind_res (btb_getIndex b instPC) (\<lambda>btb_idx.
     bind_res (btb_getTag b instPC) (\<lambda>inst_tag.
     if \<not> btb_idx < btb_numEntries b then Inl AssertionFailed
     else bind_res (vec_get (btb_entries b) btb_idx) (\<lambda>e.
       Inr (be_valid e \<and> inst_tag = be_tag e \<and> be_tid e = tid, e))))"

definition btb_valid :: "'pc default_btb \<Rightarrow> addr \<Rightarrow> int \<Rightarrow> bool result" where
  "btb_valid b instPC tid = bind_res (btb_find b instPC tid) (\<lambda>(hit, _). Inr hit)"

definition btb_lookup :: "'pc \<Rightarrow> 'pc default_btb \<Rightarrow> addr \<Rightarrow> int \<Rightarrow> 'pc result" where
  "btb_lookup pc0 b instPC tid = bind_res (btb_find b instPC tid) (\<lambda>(hit, e). Inr (if hit then be_target e else pc0))"

definition btb_update :: "'pc default_btb \<Rightarrow> addr \<Rightarrow> 'pc \<Rightarrow> int \<Rightarrow> 'pc default_btb result" where
  "btb_update b instPC target tid =
     bind_res (btb_getIndex b instPC) (\<lambda>btb_idx.
     if \<not> btb_idx < btb_numEntries b then Inl AssertionFailed
     else bind_res (btb_getTag b instPC) (\<lambda>inst_tag.
       bind_res (vec_upd (btb_entries b) btb_idx (\<lambda>_. \<lparr>be_tag = inst_tag, be_target = target, be_tid = tid, be_valid = True\<rparr>))
         (\<lambda>es. Inr (b\<lparr>btb_entries := es\<rparr>))))"

subsection \<open>Invariant\<close>

definition btb_inv :: "'pc default_btb \<Rightarrow> bool" where
  "btb_inv b \<longleftrightarrow> (\<exists>k<32. btb_numEntries b = 2 ^ k \<and> btb_idxMask b = mask k \<and> length (btb_entries b) = 2 ^ k) \<and>
     unat (btb_instShiftAmt b) < 64 \<and> unat (btb_tagShiftAmt b) < 64"

definition btb_tag :: "'pc default_btb \<Rightarrow> addr \<Rightarrow> addr" where
  "btb_tag b a = drop_bit (unat (btb_tagShiftAmt b)) a AND ucast (btb_tagMask b)"

definition btb_slot :: "'pc default_btb \<Rightarrow> addr \<Rightarrow> nat" where
  "btb_slot b a = unat (ucast (drop_bit (unat (btb_instShiftAmt b)) a) AND btb_idxMask b)"

lemma btb_index_tag:
  assumes "btb_inv b"
  obtains i where "btb_getIndex b a = Inr i" "unat i = btb_slot b a" "btb_slot b a < length (btb_entries b)" "i < btb_numEntries b"
    "btb_getTag b a = Inr (btb_tag b a)"
proof -
  obtain k where k: "k < 32" "btb_numEntries b = 2 ^ k" "btb_idxMask b = mask k" "length (btb_entries b) = 2 ^ k"
    and sh: "unat (btb_instShiftAmt b) < 64" "unat (btb_tagShiftAmt b) < 64" using assms by (auto simp: btb_inv_def)
  let ?i = "ucast (drop_bit (unat (btb_instShiftAmt b)) a) AND mask k :: u32"
  have "btb_getIndex b a = Inr ?i" using sh by (simp add: btb_getIndex_def shr64_def k ucast_and_mask)
  moreover have "btb_getTag b a = Inr (btb_tag b a)" using sh by (simp add: btb_getTag_def shr64_def btb_tag_def)
  moreover have "unat ?i < 2 ^ k" by (rule and_mask_index)
  ultimately show ?thesis using that k by (simp add: btb_slot_def word_less_nat_alt unat_exp)
qed

lemma btb_find_eq:
  assumes "btb_inv b"
  shows "btb_find b a tid = Inr (be_valid (btb_entries b ! btb_slot b a) \<and> btb_tag b a = be_tag (btb_entries b ! btb_slot b a) \<and>
    be_tid (btb_entries b ! btb_slot b a) = tid, btb_entries b ! btb_slot b a)"
proof -
  obtain i where "btb_getIndex b a = Inr i" "unat i = btb_slot b a" "btb_slot b a < length (btb_entries b)" "i < btb_numEntries b"
    "btb_getTag b a = Inr (btb_tag b a)" using btb_index_tag [OF assms] .
  then show ?thesis by (simp add: btb_find_def vec_get_def)
qed

lemma btb_update_eq:
  assumes "btb_inv b"
  shows "btb_update b a t tid = Inr (b\<lparr>btb_entries := (btb_entries b)[btb_slot b a :=
      \<lparr>be_tag = btb_tag b a, be_target = t, be_tid = tid, be_valid = True\<rparr>]\<rparr>)"
    and "btb_slot b a < length (btb_entries b)"
proof -
  obtain i where "btb_getIndex b a = Inr i" "unat i = btb_slot b a" "btb_slot b a < length (btb_entries b)" "i < btb_numEntries b"
    "btb_getTag b a = Inr (btb_tag b a)" using btb_index_tag [OF assms] .
  then show "btb_update b a t tid = Inr (b\<lparr>btb_entries := (btb_entries b)[btb_slot b a :=
      \<lparr>be_tag = btb_tag b a, be_target = t, be_tid = tid, be_valid = True\<rparr>]\<rparr>)" "btb_slot b a < length (btb_entries b)"
    by (simp_all add: btb_update_def vec_upd_def)
qed

lemma btb_update_ok:
  assumes "btb_inv b"
  shows "\<exists>b'. btb_update b a t tid = Inr b' \<and> btb_inv b'"
  unfolding btb_update_eq [OF assms] using assms by (simp add: btb_inv_def)

lemma DefaultBTB_new_inv:
  assumes "DefaultBTB_new pc0 junk n tb sh = Inr b" and "unat sh < 32"
  shows "btb_inv b" and "btb_valid b a tid = Inr False"
proof -
  have "isPowerOf2 n" using assms(1) by (auto simp: DefaultBTB_new_def split: if_splits)
  then obtain k where k: "k < 32" "n = 2 ^ k" by (auto simp: isPowerOf2_iff)
  obtain lg where lg: "floorLog2 n = Inr lg" "btb_tagShiftAmt b = sh + of_nat lg" "btb_instShiftAmt b = sh"
      "btb_numEntries b = n" "btb_idxMask b = n - 1"
      "btb_entries b = map (\<lambda>e. e\<lparr>be_valid := False\<rparr>) (replicate (unat n) (btb_entry_new pc0 junk))"
    using assms(1) by (auto simp: DefaultBTB_new_def bind_res_Inr_iff split: if_splits)
  have "2 ^ lg \<le> unat n" using lg(1) floorLog2_spec [of n] by (cases "n = 0") (auto simp: floorLog2_def)
  then have "(2 :: nat) ^ lg < 2 ^ 32" using unat_bound [of n] by simp
  then have "lg < 32" by (subst (asm) power_strict_increasing_iff) simp_all
  then have "unat (of_nat lg :: u32) = lg" by (simp add: unat_of_nat)
  then have "unat (btb_tagShiftAmt b) < 64" using lg(2) assms(2) \<open>lg < 32\<close> by (simp add: unat_word_ariths)
  then show inv: "btb_inv b" using k lg assms(2) by (auto simp: btb_inv_def exp_minus_1_mask unat_exp)
  have "\<not> be_valid (btb_entries b ! btb_slot b a)"
    using btb_update_eq(2) [OF inv, of a] by (simp add: lg(6))
  then show "btb_valid b a tid = Inr False" by (simp add: btb_valid_def btb_find_eq [OF inv])
qed

text \<open>
  C35: What a lookup finds after an update: the target for the same thread and an address with the same
  slot and tag, nothing for any other user of that slot, and what was there before for every other slot.
\<close>

theorem btb_update_lookup:
  assumes "btb_inv b"
  shows "\<exists>b'. btb_update b a target tid = Inr b' \<and> btb_inv b' \<and>
    btb_lookup pc0 b' a' tid' =
      (if btb_slot b a' \<noteq> btb_slot b a then btb_lookup pc0 b a' tid'
       else Inr (if btb_tag b a' = btb_tag b a \<and> tid' = tid then target else pc0)) \<and>
    btb_valid b' a' tid' =
      (if btb_slot b a' \<noteq> btb_slot b a then btb_valid b a' tid'
       else Inr (btb_tag b a' = btb_tag b a \<and> tid' = tid))"
proof -
  let ?b = "b\<lparr>btb_entries := (btb_entries b)[btb_slot b a := \<lparr>be_tag = btb_tag b a, be_target = target, be_tid = tid, be_valid = True\<rparr>]\<rparr>"
  have up: "btb_update b a target tid = Inr ?b" and lt: "btb_slot b a < length (btb_entries b)"
    using btb_update_eq [OF assms] by auto
  have inv: "btb_inv ?b" using assms by (simp add: btb_inv_def)
  have same: "btb_slot ?b a' = btb_slot b a'" "btb_tag ?b a' = btb_tag b a'"
    by (simp_all add: btb_slot_def btb_tag_def)
  have find: "btb_find ?b a' tid' =
      (if btb_slot b a' \<noteq> btb_slot b a then btb_find b a' tid'
       else Inr (btb_tag b a' = btb_tag b a \<and> tid' = tid, btb_entries ?b ! btb_slot b a))"
    unfolding btb_find_eq [OF inv] btb_find_eq [OF assms] same using lt by auto
  show ?thesis
  proof (intro exI [of _ ?b] conjI up inv)
    show "btb_lookup pc0 ?b a' tid' =
        (if btb_slot b a' \<noteq> btb_slot b a then btb_lookup pc0 b a' tid'
         else Inr (if btb_tag b a' = btb_tag b a \<and> tid' = tid then target else pc0))"
      unfolding btb_lookup_def find using lt by simp
    show "btb_valid ?b a' tid' =
        (if btb_slot b a' \<noteq> btb_slot b a then btb_valid b a' tid' else Inr (btb_tag b a' = btb_tag b a \<and> tid' = tid))"
      unfolding btb_valid_def find by simp
  qed
qed

theorem btb_update_lookup_witness:
  "\<exists>b b'. DefaultBTB_new (0 :: nat) 0 4 8 2 = Inr b \<and> btb_inv b \<and> btb_update b 0x40 99 1 = Inr b' \<and>
    btb_lookup 0 b' 0x40 1 = Inr 99"
proof -
  have "\<not> isl (DefaultBTB_new (0 :: nat) 0 4 8 2)" by code_simp
  then obtain b where b: "DefaultBTB_new (0 :: nat) 0 4 8 2 = Inr b" by (cases "DefaultBTB_new (0 :: nat) 0 4 8 2") auto
  then have "btb_inv b" using DefaultBTB_new_inv(1) [OF b] by simp
  then show ?thesis using b btb_update_lookup [of b "0x40" 99 1 0 "0x40" 1] by auto
qed

end
