(* ===== verification/BPredUnit.thy ===== *)
theory BPredUnit
  imports LocalBP TournamentBP BiModeBP RAS BTB
begin

section \<open>The branch prediction unit\<close>

text \<open>
  \<open>gem5/src/cpu/pred/bpred_unit.hh\<close> and \<open>bpred_unit_impl.hh\<close>: a direction predictor, the
  branch target buffer, a return address stack per thread and, per thread, the queue of predictions in
  flight, youngest first. The direction predictor is the record of operations of a subclass. What the
  instruction set provides (the address of a program counter, the target of a return, the next
  program counter, the target of a direct branch) is an argument, since the instruction set is chosen
  by a generated header. The statistics are plain numbers; probes are left out.
\<close>

record 'pc isa =
  isa_pc0 :: 'pc
  isa_instAddr :: "'pc \<Rightarrow> addr"
  isa_buildRetPC :: "'pc \<Rightarrow> 'pc \<Rightarrow> 'pc"
  isa_advancePC :: "'pc \<Rightarrow> nat \<Rightarrow> 'pc"
  isa_branchTarget :: "nat \<Rightarrow> 'pc \<Rightarrow> 'pc"

record static_inst =
  si_code :: nat
  si_isUncondCtrl :: bool
  si_isReturn :: bool
  si_isCall :: bool
  si_isDirectCtrl :: bool

record ('h, 'pc) predictor_history =
  ph_seqNum :: "64 word"
  ph_pc :: addr
  ph_bpHistory :: "'h option"
  ph_RASTarget :: 'pc
  ph_RASIndex :: u32
  ph_tid :: nat
  ph_predTaken :: bool
  ph_usedRAS :: bool
  ph_pushedRAS :: bool
  ph_wasCall :: bool
  ph_wasReturn :: bool
  ph_wasSquashed :: bool

record bp_stats =
  st_lookups :: nat
  st_condPredicted :: nat
  st_condIncorrect :: nat
  st_BTBLookups :: nat
  st_BTBHits :: nat
  st_usedRAS :: nat
  st_RASIncorrect :: nat

record ('p, 'h, 'pc) bpred_unit =
  bu_pred :: 'p
  bu_predHist :: "('h, 'pc) predictor_history list list"
  bu_BTB :: "'pc default_btb"
  bu_RAS :: "'pc ras list"
  bu_stats :: bp_stats

definition predictor_history_new ::
  "'pc isa \<Rightarrow> 64 word \<Rightarrow> addr \<Rightarrow> bool \<Rightarrow> 'h option \<Rightarrow> nat \<Rightarrow> ('h, 'pc) predictor_history" where
  "predictor_history_new I seq_num instPC pred_taken bp_history tid =
     \<lparr>ph_seqNum = seq_num, ph_pc = instPC, ph_bpHistory = bp_history, ph_RASTarget = isa_pc0 I, ph_RASIndex = 0,
       ph_tid = tid, ph_predTaken = pred_taken, ph_usedRAS = False, ph_pushedRAS = False, ph_wasCall = False,
       ph_wasReturn = False, ph_wasSquashed = False\<rparr>"

definition BPredUnit_new ::
  "'pc isa \<Rightarrow> int \<Rightarrow> 'p \<Rightarrow> nat \<Rightarrow> u32 \<Rightarrow> u32 \<Rightarrow> u32 \<Rightarrow> u32 \<Rightarrow> ('p, 'h, 'pc) bpred_unit result" where
  "BPredUnit_new I junk p numThreads BTBEntries BTBTagSize instShiftAmt RASSize =
     bind_res (DefaultBTB_new (isa_pc0 I) junk BTBEntries BTBTagSize instShiftAmt) (\<lambda>b.
     bind_res (ras_init (isa_pc0 I) RASSize) (\<lambda>r.
     Inr \<lparr>bu_pred = p, bu_predHist = replicate numThreads [], bu_BTB = b, bu_RAS = replicate numThreads r,
       bu_stats = \<lparr>st_lookups = 0, st_condPredicted = 0, st_condIncorrect = 0, st_BTBLookups = 0, st_BTBHits = 0,
         st_usedRAS = 0, st_RASIncorrect = 0\<rparr>\<rparr>))"

definition thread_get :: "'a list \<Rightarrow> nat \<Rightarrow> 'a result" where
  "thread_get xs tid = (if tid < length xs then Inr (xs ! tid) else Inl Undefined)"

definition with_RAS :: "nat \<Rightarrow> ('pc ras \<Rightarrow> 'pc ras result) \<Rightarrow> ('p, 'h, 'pc) bpred_unit \<Rightarrow> ('p, 'h, 'pc) bpred_unit result" where
  "with_RAS tid f u = bind_res (thread_get (bu_RAS u) tid) (\<lambda>r. bind_res (f r) (\<lambda>r'. Inr (u\<lparr>bu_RAS := (bu_RAS u)[tid := r']\<rparr>)))"

definition bump :: "(bp_stats \<Rightarrow> bp_stats) \<Rightarrow> ('p, 'h, 'pc) bpred_unit \<Rightarrow> ('p, 'h, 'pc) bpred_unit" where
  "bump f u = u\<lparr>bu_stats := f (bu_stats u)\<rparr>"

subsection \<open>Prediction\<close>

definition predict_direction ::
  "('p, 'h) predictor_ops \<Rightarrow> static_inst \<Rightarrow> addr \<Rightarrow> ('p, 'h, 'pc) bpred_unit \<Rightarrow>
     (bool \<times> 'h option \<times> ('p, 'h, 'pc) bpred_unit) result" where
  "predict_direction P inst a u =
     (let u = bump (\<lambda>s. s\<lparr>st_lookups := Suc (st_lookups s)\<rparr>) u in
      if si_isUncondCtrl inst
      then (let (bp_history, p) = bp_uncondBranch P (bu_pred u) in Inr (True, bp_history, u\<lparr>bu_pred := p\<rparr>))
      else (let u = bump (\<lambda>s. s\<lparr>st_condPredicted := Suc (st_condPredicted s)\<rparr>) u in
        bind_res (bp_lookup P (bu_pred u) a) (\<lambda>(pred_taken, bp_history, p).
          Inr (pred_taken, bp_history, u\<lparr>bu_pred := p\<rparr>))))"

text \<open>A return predicted taken: the target comes from the stack, and the record keeps what is popped.\<close>

definition predict_return ::
  "'pc isa \<Rightarrow> 'pc \<Rightarrow> nat \<Rightarrow> ('h, 'pc) predictor_history \<Rightarrow> ('p, 'h, 'pc) bpred_unit \<Rightarrow>
     ('pc \<times> ('h, 'pc) predictor_history \<times> ('p, 'h, 'pc) bpred_unit) result" where
  "predict_return I pc tid rec u =
     (let u = bump (\<lambda>s. s\<lparr>st_usedRAS := Suc (st_usedRAS s)\<rparr>) u in
      bind_res (thread_get (bu_RAS u) tid) (\<lambda>r.
      bind_res (ras_top r) (\<lambda>rasTop.
      let rec = rec\<lparr>ph_usedRAS := True, ph_RASIndex := topIdx r, ph_RASTarget := rasTop\<rparr> in
      bind_res (with_RAS tid (\<lambda>r. Inr (ras_pop r)) u) (\<lambda>u.
      Inr (isa_buildRetPC I pc rasTop, rec, u)))))"

text \<open>A call pushes its address.\<close>

definition predict_call ::
  "static_inst \<Rightarrow> 'pc \<Rightarrow> nat \<Rightarrow> ('h, 'pc) predictor_history \<Rightarrow> ('p, 'h, 'pc) bpred_unit \<Rightarrow>
     (('h, 'pc) predictor_history \<times> ('p, 'h, 'pc) bpred_unit) result" where
  "predict_call inst pc tid rec u =
     (if si_isCall inst
      then bind_res (with_RAS tid (ras_push pc) u) (\<lambda>u. Inr (rec\<lparr>ph_pushedRAS := True, ph_wasCall := True\<rparr>, u))
      else Inr (rec, u))"

text \<open>Any other branch predicted taken: the target comes from the target buffer, if it has one.\<close>

definition predict_target ::
  "('p, 'h) predictor_ops \<Rightarrow> 'pc isa \<Rightarrow> static_inst \<Rightarrow> 'pc \<Rightarrow> nat \<Rightarrow> ('h, 'pc) predictor_history \<Rightarrow> ('p, 'h, 'pc) bpred_unit \<Rightarrow>
     (bool \<times> 'pc \<times> ('h, 'pc) predictor_history \<times> ('p, 'h, 'pc) bpred_unit) result" where
  "predict_target P I inst pc tid rec u =
     (let u = bump (\<lambda>s. s\<lparr>st_BTBLookups := Suc (st_BTBLookups s)\<rparr>) u in
      bind_res (predict_call inst pc tid rec u) (\<lambda>(rec, u).
      bind_res (btb_valid (bu_BTB u) (isa_instAddr I pc) (int tid)) (\<lambda>hit.
      if hit
      then (let u = bump (\<lambda>s. s\<lparr>st_BTBHits := Suc (st_BTBHits s)\<rparr>) u in
        bind_res (btb_lookup (isa_pc0 I) (bu_BTB u) (isa_instAddr I pc) (int tid)) (\<lambda>target. Inr (True, target, rec, u)))
      else bind_res
        (if \<not> si_isCall inst \<and> \<not> si_isReturn inst
         then bind_res (bp_btbUpdate P (bu_pred u) (isa_instAddr I pc)) (\<lambda>p. Inr (rec, u\<lparr>bu_pred := p\<rparr>))
         else if si_isCall inst \<and> \<not> si_isUncondCtrl inst
         then bind_res (with_RAS tid (\<lambda>r. Inr (ras_pop r)) u) (\<lambda>u. Inr (rec\<lparr>ph_pushedRAS := False\<rparr>, u))
         else Inr (rec, u))
        (\<lambda>(rec, u). Inr (False, isa_advancePC I pc (si_code inst), rec, u)))))"

definition push_history ::
  "nat \<Rightarrow> ('h, 'pc) predictor_history \<Rightarrow> ('p, 'h, 'pc) bpred_unit \<Rightarrow> ('p, 'h, 'pc) bpred_unit result" where
  "push_history tid rec u =
     bind_res (thread_get (bu_predHist u) tid) (\<lambda>hs. Inr (u\<lparr>bu_predHist := (bu_predHist u)[tid := rec # hs]\<rparr>))"

text \<open>The prediction, the program counter afterwards, and the unit.\<close>

definition predict ::
  "('p, 'h) predictor_ops \<Rightarrow> 'pc isa \<Rightarrow> static_inst \<Rightarrow> 64 word \<Rightarrow> 'pc \<Rightarrow> nat \<Rightarrow> ('p, 'h, 'pc) bpred_unit \<Rightarrow>
     (bool \<times> 'pc \<times> ('p, 'h, 'pc) bpred_unit) result" where
  "predict P I inst seqNum pc tid u =
     bind_res (predict_direction P inst (isa_instAddr I pc) u) (\<lambda>(pred_taken, bp_history, u).
     let rec = predictor_history_new I seqNum (isa_instAddr I pc) pred_taken bp_history tid in
     bind_res
       (if pred_taken then
          (if si_isReturn inst
           then bind_res (predict_return I pc tid (rec\<lparr>ph_wasReturn := True\<rparr>) u) (\<lambda>(target, rec, u). Inr (True, target, rec, u))
           else predict_target P I inst pc tid rec u)
        else Inr (False, isa_advancePC I pc (si_code inst), (if si_isReturn inst then rec\<lparr>ph_wasReturn := True\<rparr> else rec), u))
       (\<lambda>(pred_taken, target, rec, u).
     bind_res (push_history tid rec u) (\<lambda>u. Inr (pred_taken, target, u))))"


text \<open>
  The variant for in-order cores. The address space of the target buffer is an argument of its own, the
  stack must have an entry for an unconditional return to be predicted, a direct call has its own
  target, and the program counter changes only when the branch is predicted taken.
\<close>

definition predictInOrder_direction ::
  "('p, 'h) predictor_ops \<Rightarrow> static_inst \<Rightarrow> addr \<Rightarrow> nat \<Rightarrow> ('p, 'h, 'pc) bpred_unit \<Rightarrow>
     (bool \<times> 'h option \<times> ('p, 'h, 'pc) bpred_unit) result" where
  "predictInOrder_direction P inst a tid u =
     bind_res (predict_direction P inst a u) (\<lambda>(pred_taken, bp_history, u).
     if si_isUncondCtrl inst \<and> si_isReturn inst
     then bind_res (thread_get (bu_RAS u) tid) (\<lambda>r. Inr (if ras_empty r then False else pred_taken, bp_history, u))
     else Inr (pred_taken, bp_history, u))"

definition predictInOrder_target ::
  "'pc isa \<Rightarrow> static_inst \<Rightarrow> int \<Rightarrow> 'pc \<Rightarrow> 'pc \<Rightarrow> nat \<Rightarrow> ('h, 'pc) predictor_history \<Rightarrow> ('p, 'h, 'pc) bpred_unit \<Rightarrow>
     (bool \<times> 'pc \<times> ('h, 'pc) predictor_history \<times> ('p, 'h, 'pc) bpred_unit) result" where
  "predictInOrder_target I inst asid instPC predPC tid rec u =
     (let u = bump (\<lambda>s. s\<lparr>st_BTBLookups := Suc (st_BTBLookups s)\<rparr>) u in
      bind_res (predict_call inst instPC tid rec u) (\<lambda>(rec, u).
      if si_isCall inst \<and> si_isUncondCtrl inst \<and> si_isDirectCtrl inst
      then Inr (True, isa_branchTarget I (si_code inst) instPC, rec, u)
      else bind_res (btb_valid (bu_BTB u) (isa_instAddr I predPC) asid) (\<lambda>hit.
        if hit
        then (let u = bump (\<lambda>s. s\<lparr>st_BTBHits := Suc (st_BTBHits s)\<rparr>) u in
          bind_res (btb_lookup (isa_pc0 I) (bu_BTB u) (isa_instAddr I predPC) asid) (\<lambda>target. Inr (True, target, rec, u)))
        else Inr (False, predPC, rec, u))))"

definition predictInOrder ::
  "('p, 'h) predictor_ops \<Rightarrow> 'pc isa \<Rightarrow> static_inst \<Rightarrow> 64 word \<Rightarrow> int \<Rightarrow> 'pc \<Rightarrow> 'pc \<Rightarrow> nat \<Rightarrow> ('p, 'h, 'pc) bpred_unit \<Rightarrow>
     (bool \<times> 'pc \<times> ('p, 'h, 'pc) bpred_unit) result" where
  "predictInOrder P I inst seqNum asid instPC predPC tid u =
     bind_res (predictInOrder_direction P inst (isa_instAddr I predPC) tid u) (\<lambda>(pred_taken, bp_history, u).
     let rec = predictor_history_new I seqNum (isa_instAddr I predPC) pred_taken bp_history tid in
     bind_res
       (if pred_taken then
          (if si_isReturn inst
           then bind_res (predict_return I instPC tid rec u) (\<lambda>(target, rec, u).
             if ph_RASIndex rec < 16 then Inr (True, target, rec, u) else Inl AssertionFailed)
           else predictInOrder_target I inst asid instPC predPC tid rec u)
        else Inr (False, predPC, rec, u))
       (\<lambda>(pred_taken, target, rec, u).
     bind_res (push_history tid rec u) (\<lambda>u. Inr (pred_taken, if pred_taken then target else predPC, u))))"

subsection \<open>Commit and squash\<close>

text \<open>\<open>update(done_sn, tid)\<close> takes the queue from its old end.\<close>

fun commit_loop ::
  "('p, 'h) predictor_ops \<Rightarrow> 64 word \<Rightarrow> ('h, 'pc) predictor_history list \<Rightarrow> 'p \<Rightarrow>
     (('h, 'pc) predictor_history list \<times> 'p) result" where
  "commit_loop P done_sn [] p = Inr ([], p)"
| "commit_loop P done_sn (e # es) p =
     (if ph_seqNum e \<le> done_sn
      then bind_res
        (if \<not> ph_wasSquashed e then bp_update P p (ph_pc e) (ph_predTaken e) (ph_bpHistory e) False
         else bp_retireSquashed P p (ph_bpHistory e))
        (commit_loop P done_sn es)
      else Inr (e # es, p))"

definition commit_until ::
  "('p, 'h) predictor_ops \<Rightarrow> 64 word \<Rightarrow> nat \<Rightarrow> ('p, 'h, 'pc) bpred_unit \<Rightarrow> ('p, 'h, 'pc) bpred_unit result" where
  "commit_until P done_sn tid u =
     bind_res (thread_get (bu_predHist u) tid) (\<lambda>hs.
     bind_res (commit_loop P done_sn (rev hs) (bu_pred u)) (\<lambda>(hs, p).
     Inr (u\<lparr>bu_pred := p, bu_predHist := (bu_predHist u)[tid := rev hs]\<rparr>)))"

text \<open>What a squash does to the return address stack for one prediction.\<close>

definition undo_RAS :: "nat \<Rightarrow> ('h, 'pc) predictor_history \<Rightarrow> ('p, 'h, 'pc) bpred_unit \<Rightarrow> ('p, 'h, 'pc) bpred_unit result" where
  "undo_RAS tid e u =
     (if ph_usedRAS e then with_RAS tid (ras_restore (ph_RASIndex e) (ph_RASTarget e)) u
      else if ph_wasCall e \<and> ph_pushedRAS e then with_RAS tid (\<lambda>r. Inr (ras_pop r)) u
      else Inr u)"

fun squash_loop ::
  "('p, 'h) predictor_ops \<Rightarrow> 64 word \<Rightarrow> nat \<Rightarrow> ('h, 'pc) predictor_history list \<Rightarrow> ('p, 'h, 'pc) bpred_unit \<Rightarrow>
     (('h, 'pc) predictor_history list \<times> ('p, 'h, 'pc) bpred_unit) result" where
  "squash_loop P squashed_sn tid [] u = Inr ([], u)"
| "squash_loop P squashed_sn tid (e # es) u =
     (if ph_seqNum e > squashed_sn
      then bind_res (undo_RAS tid e u) (\<lambda>u.
        bind_res (bp_squash P (bu_pred u) (ph_bpHistory e)) (\<lambda>p.
        squash_loop P squashed_sn tid es (u\<lparr>bu_pred := p\<rparr>)))
      else Inr (e # es, u))"

definition squash_younger ::
  "('p, 'h) predictor_ops \<Rightarrow> 64 word \<Rightarrow> nat \<Rightarrow> ('p, 'h, 'pc) bpred_unit \<Rightarrow> ('p, 'h, 'pc) bpred_unit result" where
  "squash_younger P squashed_sn tid u =
     bind_res (thread_get (bu_predHist u) tid) (\<lambda>hs.
     bind_res (squash_loop P squashed_sn tid hs u) (\<lambda>(hs, u).
     Inr (u\<lparr>bu_predHist := (bu_predHist u)[tid := hs]\<rparr>)))"

text \<open>
  The repair of the mispredicted branch, the youngest one left: the stack and the target buffer are made to
  agree with what the branch really did.
\<close>

definition correct_taken ::
  "'pc \<Rightarrow> nat \<Rightarrow> ('h, 'pc) predictor_history \<Rightarrow> ('p, 'h, 'pc) bpred_unit \<Rightarrow>
     (('h, 'pc) predictor_history \<times> ('p, 'h, 'pc) bpred_unit) result" where
  "correct_taken corrTarget tid e u =
     bind_res
       (if ph_wasReturn e \<and> \<not> ph_usedRAS e
        then bind_res (with_RAS tid (\<lambda>r. Inr (ras_pop r)) u) (\<lambda>u. Inr (e\<lparr>ph_usedRAS := True\<rparr>, u))
        else Inr (e, u))
       (\<lambda>(e, u). bind_res (btb_update (bu_BTB u) (ph_pc e) corrTarget (int tid)) (\<lambda>b. Inr (e, u\<lparr>bu_BTB := b\<rparr>)))"

definition correct_not_taken ::
  "nat \<Rightarrow> ('h, 'pc) predictor_history \<Rightarrow> ('p, 'h, 'pc) bpred_unit \<Rightarrow>
     (('h, 'pc) predictor_history \<times> ('p, 'h, 'pc) bpred_unit) result" where
  "correct_not_taken tid e u =
     bind_res (undo_RAS tid e u) (\<lambda>u.
     Inr (if ph_usedRAS e then e\<lparr>ph_usedRAS := False\<rparr>
          else if ph_wasCall e \<and> ph_pushedRAS e then e\<lparr>ph_pushedRAS := False\<rparr> else e, u))"

definition squash_corr ::
  "('p, 'h) predictor_ops \<Rightarrow> 64 word \<Rightarrow> 'pc \<Rightarrow> bool \<Rightarrow> nat \<Rightarrow> ('p, 'h, 'pc) bpred_unit \<Rightarrow> ('p, 'h, 'pc) bpred_unit result" where
  "squash_corr P squashed_sn corrTarget actually_taken tid u =
     (let u = bump (\<lambda>s. s\<lparr>st_condIncorrect := Suc (st_condIncorrect s)\<rparr>) u in
      bind_res (squash_younger P squashed_sn tid u) (\<lambda>u.
      bind_res (thread_get (bu_predHist u) tid) (\<lambda>hs.
      case hs of [] \<Rightarrow> Inr u
      | e # es \<Rightarrow>
        if ph_seqNum e \<noteq> squashed_sn then Inl AssertionFailed
        else (let u = (if ph_usedRAS e then bump (\<lambda>s. s\<lparr>st_RASIncorrect := Suc (st_RASIncorrect s)\<rparr>) u else u) in
          bind_res (bp_update P (bu_pred u) (ph_pc e) actually_taken (ph_bpHistory e) True) (\<lambda>p.
          bind_res ((if actually_taken then correct_taken corrTarget else correct_not_taken) tid
              (e\<lparr>ph_wasSquashed := True\<rparr>) (u\<lparr>bu_pred := p\<rparr>)) (\<lambda>(e, u).
          Inr (u\<lparr>bu_predHist := (bu_predHist u)[tid := e # es]\<rparr>)))))))"

definition drainSanityCheck :: "('p, 'h, 'pc) bpred_unit \<Rightarrow> unit result" where
  "drainSanityCheck u = (if list_all (\<lambda>ph. ph = []) (bu_predHist u) then Inr () else Inl AssertionFailed)"

definition BTBValid :: "('p, 'h, 'pc) bpred_unit \<Rightarrow> addr \<Rightarrow> bool result" where
  "BTBValid u instPC = btb_valid (bu_BTB u) instPC 0"

definition BTBLookup :: "'pc isa \<Rightarrow> ('p, 'h, 'pc) bpred_unit \<Rightarrow> addr \<Rightarrow> 'pc result" where
  "BTBLookup I u instPC = btb_lookup (isa_pc0 I) (bu_BTB u) instPC 0"

definition BTBUpdate :: "('p, 'h, 'pc) bpred_unit \<Rightarrow> addr \<Rightarrow> 'pc \<Rightarrow> ('p, 'h, 'pc) bpred_unit result" where
  "BTBUpdate u instPC target = bind_res (btb_update (bu_BTB u) instPC target 0) (\<lambda>b. Inr (u\<lparr>bu_BTB := b\<rparr>))"

end
