(* ===== verification/Spec2Isabelle.thy ===== *)
theory Spec2Isabelle
  imports LivenessReport Available LICMCorrect DCECorrect LocalOptsPass BPredUnit
begin

text \<open>
  Verification of the LLVM passes of the repository.
\<close>

end
